(* ===== verification/Prelude.thy ===== *)
theory Prelude
  imports
    Main
    "HOL-Library.Word"
    "HOL-Library.Multiset"
    "HOL-Library.AList"
    "HOL-Library.Sublist"
    "HOL-Library.List_Lexorder"
    "HOL-Library.Char_ord"
    "HOL-Library.Product_Lexorder"
begin

unbundle bit_operations_syntax

text \<open>
  Shared vocabulary of the development: the machine integers of Go, errors as values, the
  sequencing of fallible computations, Go maps as association lists with distinct keys, and
  generic facts on words, lists and zero-padded decimal names that several components use.
\<close>

section \<open>Machine integers and errors\<close>

type_synonym byte = "8 word"
type_synonym bytes = "8 word list"
type_synonym uint64 = "64 word"
type_synonym int64 = "64 word" \<comment> \<open>read with \<open>sint\<close>; \<open>+\<close> and \<open>-\<close> wrap as in Go\<close>

text \<open>
  A Go function returns \<open>(value, error)\<close>; here \<open>Inr value\<close> or \<open>Inl error\<close>. A run-time
  panic is an outcome of its own (\<open>Panic\<close>), so that a model never hides one.
\<close>

datatype goerr =
    ErrUnexpectedEOF          \<comment> \<open>\<open>io.ErrUnexpectedEOF\<close>\<close>
  | ErrIO                     \<comment> \<open>a failed system call\<close>
  | ErrNotExist               \<comment> \<open>\<open>fs.ErrNotExist\<close>\<close>
  | ErrMsg string             \<comment> \<open>\<open>fmt.Errorf\<close>\<close>
  | Panic string              \<comment> \<open>a Go run-time panic\<close>

type_synonym 'a res = "goerr + 'a"

definition rbind :: "'a res \<Rightarrow> ('a \<Rightarrow> 'b res) \<Rightarrow> 'b res" where
  "rbind m f = (case m of Inl e \<Rightarrow> Inl e | Inr x \<Rightarrow> f x)"

lemma rbind_simps [simp]:
  "rbind (Inl e) f = Inl e"
  "rbind (Inr x) f = f x"
  by (simp_all add: rbind_def)

lemma rbind_cong [fundef_cong]:
  "m = m' \<Longrightarrow> (\<And>x. m' = Inr x \<Longrightarrow> f x = f' x) \<Longrightarrow> rbind m f = rbind m' f'"
  by (cases m') auto

lemma rbind_Inr_iff:
  "rbind m f = Inr y \<longleftrightarrow> (\<exists>x. m = Inr x \<and> f x = Inr y)"
  by (cases m) auto

text \<open>
  \<open>make([]T, 0, n)\<close> panics when the allocation exceeds the address space the runtime can
  serve (\<open>maxAlloc\<close>, \<open>2 ^ 48\<close> bytes on 64-bit Linux). Every element type the code
  allocates with a length read from a file is checked against it.
\<close>

definition makeslice_ok :: "nat \<Rightarrow> uint64 \<Rightarrow> bool" where
  "makeslice_ok elem_size n \<longleftrightarrow> unat n * elem_size \<le> 2 ^ 48"

section \<open>Words\<close>

lemma unat_of_nat_u64: "n < 2 ^ 64 \<Longrightarrow> unat (of_nat n :: uint64) = n"
  by (simp add: unat_of_nat take_bit_eq_mod)

lemma makeslice_ok_of_nat: "n * k \<le> 2 ^ 48 \<Longrightarrow> 0 < k \<Longrightarrow> makeslice_ok k (of_nat n)"
proof -
  assume a: "n * k \<le> 2 ^ 48" and "0 < k"
  then have "n \<le> n * k" by simp
  with a have "n \<le> 2 ^ 48" by linarith
  then have "unat (of_nat n :: uint64) = n" by (intro unat_of_nat_u64) simp
  with a show ?thesis by (simp add: makeslice_ok_def)
qed

section \<open>Go maps\<close>

text \<open>
  A Go map is an association list with distinct keys: \<open>map_of\<close> reads it, \<open>AList.update\<close> and
  \<open>AList.delete\<close> write it, and the order of the list is one order in which \<open>range\<close> may
  visit it. \<open>gm_get\<close> reads a map whose missing entries mean an empty list (\<open>nil\<close>).
\<close>

type_synonym ('k, 'v) gomap = "('k \<times> 'v) list"

definition gm_get :: "('k, 'v list) gomap \<Rightarrow> 'k \<Rightarrow> 'v list" where
  "gm_get m k = (case map_of m k of None \<Rightarrow> [] | Some xs \<Rightarrow> xs)"

abbreviation gm_wf :: "('k, 'v) gomap \<Rightarrow> bool" where
  "gm_wf m \<equiv> distinct (map fst m)"

lemma map_of_update [simp]: "map_of (AList.update k v m) = (map_of m)(k \<mapsto> v)"
  by (simp add: AList.update_conv')

lemma map_of_delete [simp]: "map_of (AList.delete k m) = (map_of m)(k := None)"
  by (simp add: AList.delete_conv')

lemma gm_wf_update [simp]: "gm_wf m \<Longrightarrow> gm_wf (AList.update k v m)"
  by (rule AList.distinct_update)

lemma gm_wf_delete [simp]: "gm_wf m \<Longrightarrow> gm_wf (AList.delete k m)"
  by (rule AList.distinct_delete)

lemma gm_get_simps [simp]:
  "gm_get [] k = []"
  "gm_get (AList.update k v m) k = v"
  "k \<noteq> k' \<Longrightarrow> gm_get (AList.update k v m) k' = gm_get m k'"
  "gm_get (AList.delete k m) k = []"
  "k \<noteq> k' \<Longrightarrow> gm_get (AList.delete k m) k' = gm_get m k'"
  by (simp_all add: gm_get_def)

lemma gm_get_empty_iff: "gm_get m k \<noteq> [] \<Longrightarrow> k \<in> set (map fst m)"
  by (auto simp: gm_get_def split: option.splits dest: map_of_SomeD intro: rev_image_eqI)

lemma set_entries: "gm_wf m \<Longrightarrow> (k, v) \<in> set m \<longleftrightarrow> map_of m k = Some v"
  by (metis map_of_SomeD map_of_is_SomeI)

lemma length_update_new: "map_of m k = None \<Longrightarrow> length (AList.update k v m) = Suc (length m)"
  by (induction m) (auto split: if_splits)

section \<open>Fields joined by separators\<close>

text \<open>A field that does not contain its separator is determined by the joined string.\<close>

lemma append_sep_inject:
  "a \<notin> set xs \<Longrightarrow> a \<notin> set ys \<Longrightarrow> xs @ a # us = ys @ a # vs \<longleftrightarrow> xs = ys \<and> us = vs"
proof (induction xs arbitrary: ys)
  case Nil
  then show ?case by (cases ys) auto
next
  case (Cons x xs)
  then show ?case by (cases ys) auto
qed

end
