(* ===== verification/Codec.thy ===== *)
theory Codec
  imports Prelude
begin

text \<open>
  The contract of a self-delimiting wire format, as the readers of \<open>storage/indexdb.go\<close> and
  \<open>storage/encode.go\<close> rely on it: reading back what was written consumes exactly the written
  bytes, and reading a strict prefix of them reports \<open>io.ErrUnexpectedEOF\<close>. From it the
  locale derives the same two laws for counted sequences, and \<open>prefix_codec2\<close> for pairs.
\<close>

text \<open>The counted read loop: \<open>for i := 0; i < n; i++ { x, err := dec(r); ... append }\<close>.\<close>

fun read_n :: "nat \<Rightarrow> (bytes \<Rightarrow> ('a \<times> bytes) res) \<Rightarrow> bytes \<Rightarrow> ('a list \<times> bytes) res" where
  "read_n 0 dec bs = Inr ([], bs)"
| "read_n (Suc n) dec bs =
     rbind (dec bs) (\<lambda>(x, r). rbind (read_n n dec r) (\<lambda>(xs, r'). Inr (x # xs, r')))"

text \<open>Where a strict prefix of a concatenation ends: inside the first part, or later.\<close>

lemma strict_prefix_append_cases:
  assumes "strict_prefix p (xs @ ys)"
  obtains "strict_prefix p xs" | q where "p = xs @ q" and "strict_prefix q ys"
proof (cases "strict_prefix p xs")
  case True
  then show ?thesis by (rule that(1))
next
  case False
  from assms have "prefix p (xs @ ys)" and ne: "p \<noteq> xs @ ys"
    by (auto simp: strict_prefix_def)
  then consider "prefix p xs" | q where "p = xs @ q" and "prefix q ys"
    by (auto simp: prefix_append)
  then show ?thesis
  proof cases
    case 1
    with False have "p = xs" by (simp add: strict_prefix_def)
    with ne have "strict_prefix [] ys" by (cases ys) auto
    with \<open>p = xs\<close> show ?thesis by (intro that(2)[of "[]"]) auto
  next
    case 2
    with ne show ?thesis by (intro that(2)[of q]) (auto simp: strict_prefix_def)
  qed
qed

locale prefix_codec =
  fixes enc :: "'a \<Rightarrow> bytes"
    and dec :: "bytes \<Rightarrow> ('a \<times> bytes) res"
    and ok :: "'a \<Rightarrow> bool"
  assumes dec_enc: "ok a \<Longrightarrow> dec (enc a @ rest) = Inr (a, rest)"
    and dec_torn: "ok a \<Longrightarrow> strict_prefix p (enc a) \<Longrightarrow> dec p = Inl ErrUnexpectedEOF"
begin

lemma dec_enc_nil: "ok a \<Longrightarrow> dec (enc a) = Inr (a, [])"
  using dec_enc[of a "[]"] by simp

lemma enc_nonempty: "ok a \<Longrightarrow> ok b \<Longrightarrow> a \<noteq> b \<Longrightarrow> enc a \<noteq> []"
  using dec_enc[of a "enc b"] dec_enc_nil[of b] by auto

lemma read_n_enc:
  "list_all ok as \<Longrightarrow>
   read_n (length as) dec (concat (map enc as) @ rest) = Inr (as, rest)"
  by (induction as) (simp_all add: dec_enc)

lemma read_n_torn:
  "list_all ok as \<Longrightarrow> strict_prefix p (concat (map enc as)) \<Longrightarrow>
   read_n (length as) dec p = Inl ErrUnexpectedEOF"
proof (induction as arbitrary: p)
  case Nil
  then show ?case by simp
next
  case (Cons a as)
  from Cons.prems(2) have "strict_prefix p (enc a @ concat (map enc as))" by simp
  then show ?case
  proof (cases rule: strict_prefix_append_cases)
    case 1
    with Cons.prems(1) have "dec p = Inl ErrUnexpectedEOF" by (auto intro: dec_torn)
    then show ?thesis by simp
  next
    case (2 q)
    with Cons.prems(1) Cons.IH[of q] show ?thesis by (simp add: dec_enc)
  qed
qed

end

locale prefix_codec2 =
  fst: prefix_codec enc1 dec1 ok1 + snd: prefix_codec enc2 dec2 ok2
  for enc1 :: "'a \<Rightarrow> bytes" and dec1 and ok1
  and enc2 :: "'b \<Rightarrow> bytes" and dec2 and ok2
begin

lemma pair_dec_enc:
  assumes "ok1 a" and "ok2 b"
  shows "rbind (dec1 ((enc1 a @ enc2 b) @ rest)) (\<lambda>(a, r). rbind (dec2 r) (\<lambda>(b, r'). Inr (f a b, r')))
    = Inr (f a b, rest)"
  using assms by (simp add: fst.dec_enc snd.dec_enc)

lemma pair_dec_torn:
  assumes "ok1 a" and "ok2 b" and "strict_prefix p (enc1 a @ enc2 b)"
  shows "rbind (dec1 p) (\<lambda>(a, r). rbind (dec2 r) (\<lambda>(b, r'). Inr (f a b, r')))
    = Inl ErrUnexpectedEOF"
  using assms(3)
proof (cases rule: strict_prefix_append_cases)
  case 1
  with assms(1) show ?thesis by (simp add: fst.dec_torn)
next
  case (2 q)
  with assms(1,2) show ?thesis by (simp add: fst.dec_enc snd.dec_torn)
qed

end

sublocale prefix_codec2 \<subseteq> pair: prefix_codec
  "\<lambda>(a, b). enc1 a @ enc2 b"
  "\<lambda>bs. rbind (dec1 bs) (\<lambda>(a, r). rbind (dec2 r) (\<lambda>(b, r'). Inr ((a, b), r')))"
  "\<lambda>(a, b). ok1 a \<and> ok2 b"
  by unfold_locales (auto simp: pair_dec_enc[where f = Pair] pair_dec_torn[where f = Pair]
      simp del: append_assoc)

text \<open>
  A block codec compresses a whole list; the reader knows where the block ends, so decoding
  gets exactly the written bytes. A truncated block must be reported, never decoded short.
\<close>

locale block_codec =
  fixes encb :: "'a list \<Rightarrow> bytes"
    and decb :: "bytes \<Rightarrow> 'a list res"
    and fits :: "'a list \<Rightarrow> bool"
  assumes decb_encb: "fits xs \<Longrightarrow> decb (encb xs) = Inr xs"
    and decb_torn: "fits xs \<Longrightarrow> strict_prefix p (encb xs) \<Longrightarrow> decb p = Inl ErrUnexpectedEOF"
begin

lemma encb_inj: "fits xs \<Longrightarrow> fits ys \<Longrightarrow> encb xs = encb ys \<Longrightarrow> xs = ys"
  by (metis decb_encb sum.inject(2))

lemma encb_not_strict_prefix: "fits xs \<Longrightarrow> fits ys \<Longrightarrow> \<not> strict_prefix (encb xs) (encb ys)"
  by (metis decb_encb decb_torn sum.distinct(1))

end

end
