(* ===== verification/Varint.thy ===== *)
theory Varint
  imports Codec
begin

text \<open>
  Variable-length integers: the functions of \<open>encoding/binary\<close> the storage code calls, and
  the cursor \<open>byteReader\<close> of \<open>storage/indexdb.go\<close> (with \<open>varint\<close> of
  \<open>storage/encode.go\<close>) over them. The contract of a self-delimiting wire format is the
  locale \<open>prefix_codec\<close>; every format built from varints is an interpretation of it.
\<close>

section \<open>The varints of encoding/binary\<close>

function append_uvarint :: "uint64 \<Rightarrow> bytes" where
  "append_uvarint x =
     (if 0x80 \<le> x then (ucast x OR 0x80) # append_uvarint (drop_bit 7 x) else [ucast x])"
  by pat_completeness auto
termination
proof (relation "measure unat")
  fix x :: uint64
  assume "0x80 \<le> x"
  then have "128 \<le> unat x" by (simp add: word_le_nat_alt)
  then show "(drop_bit 7 x, x) \<in> measure unat"
    by (simp add: unat_drop_bit_eq drop_bit_eq_div unat_div)
qed simp

declare append_uvarint.simps [simp del]

text \<open>
  \<open>binary.Uvarint\<close>: the loop over the buffer with index \<open>i\<close>, accumulator \<open>x\<close> and
  shift \<open>s\<close>; it returns the value and the number of bytes read, \<open>0\<close> for a buffer that
  ends early and a negative number for a value over 64 bits.
\<close>

fun uvarint_from :: "bytes \<Rightarrow> nat \<Rightarrow> uint64 \<Rightarrow> nat \<Rightarrow> uint64 \<times> int" where
  "uvarint_from [] i x s = (0, 0)"
| "uvarint_from (b # bs) i x s =
     (if i = 10 then (0, - int (i + 1))
      else if b < 0x80 then
        (if i = 9 \<and> 1 < b then (0, - int (i + 1))
         else (x OR push_bit s (ucast b), int (i + 1)))
      else uvarint_from bs (i + 1) (x OR push_bit s (ucast (b AND 0x7f))) (s + 7))"

definition uvarint :: "bytes \<Rightarrow> uint64 \<times> int" where
  "uvarint buf = uvarint_from buf 0 0 0"

text \<open>\<open>AppendVarint\<close> and \<open>Varint\<close>: zigzag over the unsigned form.\<close>

definition zigzag :: "int64 \<Rightarrow> uint64" where
  "zigzag x = (if sint x < 0 then NOT (push_bit 1 x) else push_bit 1 x)"

definition unzigzag :: "uint64 \<Rightarrow> int64" where
  "unzigzag ux = (if ux AND 1 \<noteq> 0 then NOT (drop_bit 1 ux) else drop_bit 1 ux)"

definition append_varint :: "int64 \<Rightarrow> bytes" where
  "append_varint x = append_uvarint (zigzag x)"

definition varint :: "bytes \<Rightarrow> int64 \<times> int" where
  "varint buf = (let (ux, n) = uvarint buf in (unzigzag ux, n))"

section \<open>The byteReader cursor\<close>

type_synonym byteReader = bytes \<comment> \<open>the single field \<open>b\<close>\<close>

definition br_uvarint :: "byteReader \<Rightarrow> (uint64 \<times> byteReader) res" where
  "br_uvarint r =
     (let (v, n) = uvarint r in
      if n = 0 then Inl ErrUnexpectedEOF
      else if n < 0 then Inl (ErrMsg ''varint overflow'')
      else Inr (v, drop (nat n) r))"

definition br_varint :: "byteReader \<Rightarrow> (int64 \<times> byteReader) res" where
  "br_varint r =
     (let (v, n) = varint r in
      if n = 0 then Inl ErrUnexpectedEOF
      else if n < 0 then Inl (ErrMsg ''varint overflow'')
      else Inr (v, drop (nat n) r))"

section \<open>Reading back what was written\<close>

lemma numeral_7f: "(0x7f :: 8 word) = mask 7"
  by (simp add: mask_eq_exp_minus_1)

lemma numeral_80: "(0x80 :: 8 word) = push_bit 7 1"
  by simp

lemma low7_of_continuation:
  "(ucast ((ucast v OR 0x80 :: 8 word) AND 0x7f) :: uint64) = take_bit 7 v"
  unfolding numeral_7f numeral_80
  by (rule bit_word_eqI) (auto simp: bit_simps simp del: push_bit_of_1)

lemma continuation_not_small: "\<not> (ucast (v :: uint64) OR 0x80 :: 8 word) < 0x80"
proof -
  have "0x80 AND (ucast v OR 0x80 :: 8 word) = 0x80"
    by (rule bit_word_eqI) (auto simp: bit_simps)
  then show ?thesis by (metis word_and_le1 not_le)
qed

lemma split_low7: "take_bit 7 v OR push_bit 7 (drop_bit 7 v) = (v :: uint64)"
proof (rule bit_word_eqI)
  fix n assume "n < LENGTH(64)"
  then show "bit (take_bit 7 v OR push_bit 7 (drop_bit 7 v)) n = bit v n"
    by (cases "n < 7") (auto simp: bit_simps)
qed

lemma push_split_low7:
  "push_bit s (take_bit 7 v) OR push_bit (s + 7) (drop_bit 7 v) = push_bit s (v :: uint64)"
proof -
  have "push_bit s (take_bit 7 v) OR push_bit (s + 7) (drop_bit 7 v)
      = push_bit s (take_bit 7 v OR push_bit 7 (drop_bit 7 v))"
    by (simp only: push_bit_or push_bit_push_bit)
  then show ?thesis by (simp only: split_low7)
qed

lemma ucast_small: "v < (0x80 :: uint64) \<Longrightarrow> (ucast (ucast v :: 8 word) :: uint64) = v"
proof -
  assume "v < 0x80"
  then have "unat v < 2 ^ 8" by (simp add: word_less_nat_alt)
  then have "take_bit 8 v = v"
    by (simp add: take_bit_eq_mod unat_mod word_unat_eq_iff)
  moreover have "(ucast (ucast v :: 8 word) :: uint64) = take_bit 8 v"
    by (rule bit_word_eqI) (auto simp: bit_simps)
  ultimately show ?thesis by simp
qed

text \<open>
  The loop invariant: after \<open>i\<close> continuation bytes the rest of the value fits in the
  remaining \<open>64 - 7 * i\<close> bits, so neither overflow check of \<open>Uvarint\<close> fires.
\<close>

lemma uvarint_rest_bound:
  assumes "i < 10" and "unat (v :: uint64) < 2 ^ (64 - 7 * i)" and "0x80 \<le> v"
  shows "i + 1 < 10" and "unat (drop_bit 7 v) < 2 ^ (64 - 7 * (i + 1))"
proof -
  from assms(3) have v: "128 \<le> unat v" by (simp add: word_le_nat_alt)
  have "7 < 64 - 7 * i"
  proof (rule ccontr)
    assume "\<not> 7 < 64 - 7 * i"
    then have "(2::nat) ^ (64 - 7 * i) \<le> 2 ^ 7" by (intro power_increasing) auto
    with v assms(2) show False by simp
  qed
  then show i: "i + 1 < 10" by simp
  from \<open>7 < 64 - 7 * i\<close> have e: "64 - 7 * i = 7 + (64 - 7 * (i + 1))" by simp
  have "unat v < 2 ^ 7 * 2 ^ (64 - 7 * (i + 1))"
    using assms(2) unfolding e power_add .
  then have "unat v div 2 ^ 7 < 2 ^ (64 - 7 * (i + 1))"
    by (simp add: less_mult_imp_div_less mult.commute)
  then show "unat (drop_bit 7 v) < 2 ^ (64 - 7 * (i + 1))"
    by (simp add: unat_drop_bit_eq drop_bit_eq_div unat_div)
qed

lemma uvarint_from_append:
  "i < 10 \<Longrightarrow> unat v < 2 ^ (64 - 7 * i) \<Longrightarrow>
   uvarint_from (append_uvarint v @ rest) i x (7 * i)
     = (x OR push_bit (7 * i) v, int (i + length (append_uvarint v)))"
proof (induction v arbitrary: i x rule: append_uvarint.induct)
  case (1 v)
  show ?case
  proof (cases "0x80 \<le> v")
    case True
    note b = uvarint_rest_bound[OF "1.prems" True]
    have "uvarint_from (append_uvarint (drop_bit 7 v) @ rest) (i + 1)
        (x OR push_bit (7 * i) (take_bit 7 v)) (7 * (i + 1))
      = ((x OR push_bit (7 * i) (take_bit 7 v)) OR push_bit (7 * (i + 1)) (drop_bit 7 v),
         int (i + 1 + length (append_uvarint (drop_bit 7 v))))"
      by (rule "1.IH"[OF True b])
    then have "uvarint_from (append_uvarint (drop_bit 7 v) @ rest) (i + 1)
        (x OR push_bit (7 * i) (take_bit 7 v)) (7 * i + 7)
      = (x OR push_bit (7 * i) v, int (i + 1 + length (append_uvarint (drop_bit 7 v))))"
      by (simp only: distrib_left mult_1_right or.assoc push_split_low7)
    then show ?thesis
      using True "1.prems"(1) continuation_not_small[of v]
      by (simp add: append_uvarint.simps[of v] low7_of_continuation)
  next
    case False
    then have v: "v < 0x80" by simp
    have "ucast v < (0x80 :: 8 word)"
      using v by (simp add: word_less_nat_alt unsigned_ucast_eq unsigned_take_bit_eq take_bit_nat_eq_self)
    moreover have "\<not> (i = 9 \<and> 1 < (ucast v :: 8 word))"
      using "1.prems"(2) v by (auto simp: word_less_nat_alt unsigned_ucast_eq unsigned_take_bit_eq take_bit_nat_eq_self)
    ultimately show ?thesis
      using False "1.prems"(1) v
      by (auto simp: append_uvarint.simps[of v] ucast_small)
  qed
qed

lemma uvarint_from_torn:
  "i < 10 \<Longrightarrow> unat v < 2 ^ (64 - 7 * i) \<Longrightarrow> strict_prefix p (append_uvarint v) \<Longrightarrow>
   uvarint_from p i x s = (0, 0)"
proof (induction v arbitrary: i x s p rule: append_uvarint.induct)
  case (1 v)
  show ?case
  proof (cases p)
    case Nil
    then show ?thesis by simp
  next
    case (Cons b q)
    show ?thesis
    proof (cases "0x80 \<le> v")
      case True
      with Cons "1.prems"(3) have b: "b = ucast v OR 0x80"
        and q: "strict_prefix q (append_uvarint (drop_bit 7 v))"
        by (simp_all add: append_uvarint.simps[of v])
      from "1.IH"[OF True uvarint_rest_bound[OF "1.prems"(1,2) True] q]
      show ?thesis
        using Cons b "1.prems"(1) continuation_not_small[of v] by simp
    next
      case False
      with Cons "1.prems"(3) show ?thesis by (simp add: append_uvarint.simps[of v])
    qed
  qed
qed

lemma append_uvarint_nonempty [simp]: "append_uvarint v \<noteq> []"
  by (subst append_uvarint.simps) simp

lemma length_append_uvarint:
  "i < 10 \<Longrightarrow> unat v < 2 ^ (64 - 7 * i) \<Longrightarrow> length (append_uvarint v) + i \<le> 10"
proof (induction v arbitrary: i rule: append_uvarint.induct)
  case (1 v)
  show ?case
  proof (cases "0x80 \<le> v")
    case True
    from "1.IH"[OF True uvarint_rest_bound[OF "1.prems" True]] show ?thesis
      using True by (simp add: append_uvarint.simps[of v])
  next
    case False
    with "1.prems"(1) show ?thesis by (simp add: append_uvarint.simps[of v])
  qed
qed

lemma unat_u64_bound: "unat (v :: uint64) < 2 ^ (64 - 7 * 0)"
  using unsigned_less[of v] by simp

lemma append_uvarint_max_len: "length (append_uvarint v) \<le> 10"
  using length_append_uvarint[of 0 v] unat_u64_bound[of v] by simp

lemma append_uvarint_small: "v < 0x80 \<Longrightarrow> append_uvarint v = [ucast v]"
  by (subst append_uvarint.simps) simp

section \<open>Zigzag\<close>

lemma msb_iff_negative: "sint (x :: int64) < 0 \<longleftrightarrow> bit x 63"
  by (simp add: bit_last_iff[symmetric])

lemma bit_drop_push1: "bit (drop_bit 1 (push_bit 1 (x :: uint64))) n \<longleftrightarrow> n < 63 \<and> bit x n"
  by (auto simp: bit_drop_bit_eq bit_push_bit_iff simp del: push_bit_Suc)

lemma bit_drop_not_push1:
  "bit (drop_bit 1 (NOT (push_bit 1 (x :: uint64)))) n \<longleftrightarrow> n < 63 \<and> \<not> bit x n"
  by (auto simp: bit_drop_bit_eq bit_push_bit_iff bit_not_iff simp del: push_bit_Suc)

lemma odd_zigzag: "zigzag x AND 1 \<noteq> 0 \<longleftrightarrow> sint x < 0"
  by (simp add: zigzag_def and_one_eq odd_iff_mod_2_eq_one[symmetric])

lemma unzigzag_zigzag [simp]: "unzigzag (zigzag x) = x"
proof (rule bit_word_eqI)
  fix n assume n: "n < LENGTH(64)"
  show "bit (unzigzag (zigzag x)) n = bit x n"
  proof (cases "sint x < 0")
    case True
    then have "unzigzag (zigzag x) = NOT (drop_bit 1 (NOT (push_bit 1 x)))"
      by (simp only: unzigzag_def odd_zigzag if_True) (simp only: zigzag_def True if_True)
    with n True show ?thesis
      by (cases "n = 63") (auto simp only: bit_not_iff bit_drop_not_push1 msb_iff_negative, simp_all)
  next
    case False
    then have "unzigzag (zigzag x) = drop_bit 1 (push_bit 1 x)"
      by (simp only: unzigzag_def odd_zigzag if_False) (simp only: zigzag_def False if_False)
    with n False show ?thesis
      by (cases "n = 63") (auto simp only: bit_drop_push1 msb_iff_negative, simp_all)
  qed
qed

section \<open>The contracts\<close>

interpretation uv: prefix_codec append_uvarint br_uvarint "\<lambda>_. True"
proof unfold_locales
  fix v rest
  show "br_uvarint (append_uvarint v @ rest) = Inr (v, rest)"
    using uvarint_from_append[of 0 v rest 0] unat_u64_bound[of v]
    by (simp add: br_uvarint_def uvarint_def)
next
  fix v p
  assume "strict_prefix p (append_uvarint v)"
  from uvarint_from_torn[OF _ unat_u64_bound this]
  show "br_uvarint p = Inl ErrUnexpectedEOF"
    by (simp add: br_uvarint_def uvarint_def)
qed

lemma br_varint_alt:
  "br_varint r = rbind (br_uvarint r) (\<lambda>(u, r'). Inr (unzigzag u, r'))"
  by (auto simp: br_varint_def br_uvarint_def varint_def split: prod.splits)

interpretation sv: prefix_codec append_varint br_varint "\<lambda>_. True"
  by unfold_locales (simp_all add: br_varint_alt append_varint_def uv.dec_enc uv.dec_torn)

lemma append_varint_max_len: "length (append_varint x) \<le> 10"
  by (simp add: append_varint_def append_uvarint_max_len)

lemma append_varint_zero [simp]: "append_varint 0 = [0]"
  by (simp add: append_varint_def zigzag_def append_uvarint_small)

section \<open>Fixed 64-bit little-endian cells\<close>

text \<open>
  \<open>binary.LittleEndian.PutUint64\<close> and \<open>Uint64\<close>. The readers take the first eight bytes of
  the cursor after checking that they are there.
\<close>

fun le_bytes :: "nat \<Rightarrow> uint64 \<Rightarrow> bytes" where
  "le_bytes 0 w = []"
| "le_bytes (Suc n) w = ucast w # le_bytes n (drop_bit 8 w)"

fun le_word :: "bytes \<Rightarrow> uint64" where
  "le_word [] = 0"
| "le_word (b # bs) = ucast b OR push_bit 8 (le_word bs)"

definition put_uint64 :: "uint64 \<Rightarrow> bytes" where
  "put_uint64 w = le_bytes 8 w"

definition br_fixed64 :: "byteReader \<Rightarrow> (uint64 \<times> byteReader) res" where
  "br_fixed64 r =
     (if length r < 8 then Inl ErrUnexpectedEOF else Inr (le_word (take 8 r), drop 8 r))"

lemma length_le_bytes [simp]: "length (le_bytes n w) = n"
  by (induction n arbitrary: w) auto

lemma length_put_uint64 [simp]: "length (put_uint64 w) = 8"
  by (simp add: put_uint64_def)

lemma le_word_le_bytes: "le_word (le_bytes n w) = take_bit (8 * n) w"
proof (induction n arbitrary: w)
  case 0
  show ?case by simp
next
  case (Suc n)
  show ?case
  proof (rule bit_word_eqI)
    fix i assume "i < LENGTH(64)"
    then show "bit (le_word (le_bytes (Suc n) w)) i = bit (take_bit (8 * Suc n) w) i"
      by (cases "i < 8") (auto simp: Suc.IH bit_simps)
  qed
qed

lemma le_word_put_uint64 [simp]: "le_word (put_uint64 w) = w"
proof -
  have "take_bit 64 w = w" by (rule bit_word_eqI) (auto simp: bit_simps)
  then show ?thesis by (simp add: put_uint64_def le_word_le_bytes)
qed

interpretation fx: prefix_codec put_uint64 br_fixed64 "\<lambda>_. True"
proof unfold_locales
  fix w p
  assume "strict_prefix p (put_uint64 w)"
  then have "length p < length (put_uint64 w)" by (rule prefix_length_less)
  then show "br_fixed64 p = Inl ErrUnexpectedEOF" by (simp add: br_fixed64_def)
qed (simp add: br_fixed64_def)

end
