(* ===== verification/TimestampCodec.thy ===== *)
theory TimestampCodec
  imports Varint
begin

text \<open>
  The timestamp block of \<open>storage/encode.go\<close>: \<open>encodeTimestamps\<close> and
  \<open>decodeTimestamps\<close> (delta of delta, zigzag varints). Timestamps are \<open>int64\<close> values, so
  the differences wrap; the round trip holds for every list, sorted or not.
\<close>

section \<open>Encoder and decoder\<close>

text \<open>The loop \<open>for i := 2; i < len(ts); i++\<close>, with \<open>ts[i-1]\<close> and \<open>prevDelta\<close> carried along.\<close>

fun encode_dods :: "int64 \<Rightarrow> int64 \<Rightarrow> int64 list \<Rightarrow> bytes" where
  "encode_dods prev prevDelta [] = []"
| "encode_dods prev prevDelta (t # ts) =
     (let d = t - prev in append_varint (d - prevDelta) @ encode_dods t d ts)"

definition encodeTimestamps :: "int64 list \<Rightarrow> bytes" where
  "encodeTimestamps ts =
     (let out = append_uvarint (of_nat (length ts)) in
      case ts of [] \<Rightarrow> out
      | t0 # ts' \<Rightarrow>
          (let out = out @ put_uint64 t0 in
           case ts' of [] \<Rightarrow> out
           | t1 # ts'' \<Rightarrow>
               (let prevDelta = t1 - t0 in
                out @ append_varint prevDelta @ encode_dods t1 prevDelta ts'')))"

text \<open>
  The loop \<open>for i := 2; i < count; i++\<close>: \<open>n\<close> iterations left, \<open>prev\<close> is
  \<open>out[i-1]\<close>.
\<close>

fun decode_dods :: "nat \<Rightarrow> int64 \<Rightarrow> int64 \<Rightarrow> byteReader \<Rightarrow> int64 list res" where
  "decode_dods 0 prev d r = Inr []"
| "decode_dods (Suc n) prev d r =
     rbind (br_varint r) (\<lambda>(dod, r').
       (let d' = d + dod; t = prev + d' in
        rbind (decode_dods n t d' r') (\<lambda>ts. Inr (t # ts))))"

definition decodeTimestamps :: "bytes \<Rightarrow> int64 list res" where
  "decodeTimestamps data =
     rbind (br_uvarint data) (\<lambda>(count, r).
       if count = 0 then Inr []
       else rbind (br_fixed64 r) (\<lambda>(t0, r).
         if \<not> makeslice_ok 8 count then Inl (Panic ''makeslice: cap out of range'')
         else if count = 1 then Inr [t0]
         else rbind (br_varint r) (\<lambda>(d, r).
           rbind (decode_dods (unat count - 2) (t0 + d) d r) (\<lambda>ts.
             Inr (t0 # (t0 + d) # ts)))))"

section \<open>Round trip and torn blocks\<close>

lemma decode_dods_encode:
  "decode_dods (length ts) prev d (encode_dods prev d ts @ rest) = Inr ts"
  by (induction ts arbitrary: prev d) (simp_all add: Let_def sv.dec_enc)

lemma decode_dods_torn:
  "strict_prefix p (encode_dods prev d ts) \<Longrightarrow>
   decode_dods (length ts) prev d p = Inl ErrUnexpectedEOF"
proof (induction ts arbitrary: prev d p)
  case Nil
  then show ?case by simp
next
  case (Cons t ts)
  from Cons.prems have "strict_prefix p
      (append_varint (t - prev - d) @ encode_dods t (t - prev) ts)"
    by (simp add: Let_def)
  then show ?case
  proof (cases rule: strict_prefix_append_cases)
    case 1
    then show ?thesis by (simp add: sv.dec_torn)
  next
    case (2 q)
    then show ?thesis by (simp add: sv.dec_enc Cons.IH Let_def)
  qed
qed

text \<open>A length fits when the slice of that many 8-byte cells can be allocated.\<close>

definition fits_slice :: "'a list \<Rightarrow> bool" where
  "fits_slice xs \<longleftrightarrow> length xs \<le> 2 ^ 45"

lemma fits_slice_count:
  assumes "fits_slice xs"
  shows "unat (of_nat (length xs) :: uint64) = length xs"
    and "makeslice_ok 8 (of_nat (length xs))"
  using assms by (auto simp: fits_slice_def intro!: unat_of_nat_u64 makeslice_ok_of_nat)

lemma fits_slice_count_eq:
  assumes "fits_slice xs" and "k < 2 ^ 64"
  shows "(of_nat (length xs) :: uint64) = of_nat k \<longleftrightarrow> length xs = k"
  using fits_slice_count(1)[OF assms(1)] unat_of_nat_u64[OF assms(2)] by metis

lemma encodeTimestamps_simps:
  "encodeTimestamps [] = append_uvarint 0"
  "encodeTimestamps [t0] = append_uvarint 1 @ put_uint64 t0"
  "encodeTimestamps (t0 # t1 # ts) =
     append_uvarint (of_nat (length (t0 # t1 # ts))) @ put_uint64 t0 @ append_varint (t1 - t0)
       @ encode_dods t1 (t1 - t0) ts"
  by (simp_all add: encodeTimestamps_def Let_def)


lemma decodeTimestamps_encode:
  assumes "fits_slice ts"
  shows "decodeTimestamps (encodeTimestamps ts @ rest) = Inr ts"
proof (cases ts rule: remdups_adj.cases)
  case 1
  then show ?thesis by (simp add: encodeTimestamps_simps decodeTimestamps_def uv.dec_enc)
next
  case (2 t0)
  then show ?thesis
    by (simp add: encodeTimestamps_simps decodeTimestamps_def uv.dec_enc fx.dec_enc makeslice_ok_def)
next
  case (3 t0 t1 ts')
  let ?n = "of_nat (length ts) :: uint64"
  from 3 have "?n \<noteq> 0" and "?n \<noteq> 1"
    using fits_slice_count_eq[OF assms, of 0] fits_slice_count_eq[OF assms, of 1] by simp_all
  moreover have "unat ?n - 2 = length ts'"
    using fits_slice_count(1)[OF assms] 3 by simp
  ultimately show ?thesis
    using 3 fits_slice_count(2)[OF assms]
    by (simp add: encodeTimestamps_simps decodeTimestamps_def uv.dec_enc fx.dec_enc sv.dec_enc
        decode_dods_encode del: of_nat_Suc)
qed

lemma decodeTimestamps_torn:
  assumes fits: "fits_slice ts" and torn: "strict_prefix p (encodeTimestamps ts)"
  shows "decodeTimestamps p = Inl ErrUnexpectedEOF"
proof (cases ts rule: remdups_adj.cases)
  case 1
  with torn show ?thesis by (simp add: encodeTimestamps_simps decodeTimestamps_def uv.dec_torn)
next
  case (2 t0)
  with torn have "strict_prefix p (append_uvarint 1 @ put_uint64 t0)"
    by (simp add: encodeTimestamps_simps)
  then show ?thesis
    by (cases rule: strict_prefix_append_cases)
      (simp_all add: decodeTimestamps_def uv.dec_torn uv.dec_enc fx.dec_torn)
next
  case (3 t0 t1 ts')
  let ?n = "of_nat (length ts) :: uint64"
  from 3 have ne: "?n \<noteq> 0" "?n \<noteq> 1" "unat ?n - 2 = length ts'"
    using fits_slice_count_eq[OF fits, of 0] fits_slice_count_eq[OF fits, of 1]
      fits_slice_count(1)[OF fits] by simp_all
  note ok = fits_slice_count(2)[OF fits]
  from torn 3 have "strict_prefix p (append_uvarint ?n @ put_uint64 t0 @
      append_varint (t1 - t0) @ encode_dods t1 (t1 - t0) ts')"
    by (simp add: encodeTimestamps_simps)
  then show ?thesis
  proof (cases rule: strict_prefix_append_cases)
    case 1
    then show ?thesis by (simp add: decodeTimestamps_def uv.dec_torn)
  next
    case q: (2 q)
    from q(2) show ?thesis
    proof (cases rule: strict_prefix_append_cases)
      case 1
      with q(1) ne show ?thesis by (simp add: decodeTimestamps_def uv.dec_enc fx.dec_torn)
    next
      case s: (2 s)
      from s(2) show ?thesis
      proof (cases rule: strict_prefix_append_cases)
        case 1
        with q(1) s(1) ne ok show ?thesis
          by (simp add: decodeTimestamps_def uv.dec_enc fx.dec_enc sv.dec_torn)
      next
        case (2 u)
        with q(1) s(1) ne ok show ?thesis
          by (simp add: decodeTimestamps_def uv.dec_enc fx.dec_enc sv.dec_enc decode_dods_torn)
      qed
    qed
  qed
qed

section \<open>Size\<close>

lemma encode_dods_size: "length (encode_dods prev d ts) \<le> 10 * length ts"
proof (induction ts arbitrary: prev d)
  case (Cons t ts)
  then show ?case
    using add_mono[OF append_varint_max_len[of "t - prev - d"] Cons.IH[of t "t - prev"]]
    by (simp add: Let_def)
qed simp

lemma encodeTimestamps_size: "length (encodeTimestamps ts) \<le> 18 + 10 * length ts"
proof -
  consider "ts = []" | t0 where "ts = [t0]" | t0 t1 us where "ts = t0 # t1 # us"
    by (metis neq_Nil_conv)
  then show ?thesis
  proof cases
    case 3
    then show ?thesis
      using append_uvarint_max_len[of "of_nat (length ts)"] append_varint_max_len[of "t1 - t0"]
        encode_dods_size[of t1 "t1 - t0" us] by (simp add: encodeTimestamps_def Let_def)
  qed (use append_uvarint_max_len[of 0] append_uvarint_max_len[of 1] in \<open>simp_all add: encodeTimestamps_def Let_def\<close>)
qed

text \<open>A regular scrape costs one byte per timestamp from the third on.\<close>

lemma encode_dods_regular:
  "encode_dods prev d (map (\<lambda>i. prev + of_nat (Suc i) * d) [0..<n]) = replicate n 0"
proof (induction n arbitrary: prev)
  case (Suc n)
  have "map (\<lambda>i. prev + of_nat (Suc i) * d) [0..<Suc n]
      = (prev + d) # map (\<lambda>i. (prev + d) + of_nat (Suc i) * d) [0..<n]"
    by (simp add: upt_conv_Cons map_Suc_upt[symmetric] del: upt_Suc map_Suc_upt)
      (simp add: algebra_simps)
  then show ?case using Suc[of "prev + d"] by (simp add: Let_def del: upt_Suc)
qed simp

lemma regular_cons:
  "map (\<lambda>i. prev + of_nat (Suc i) * d) [0..<Suc n]
     = (prev + d) # map (\<lambda>i. (prev + d) + of_nat (Suc i) * d) [0..<n]" for d :: int64
  by (simp add: upt_conv_Cons map_Suc_upt[symmetric] del: upt_Suc map_Suc_upt)
    (simp add: algebra_simps)

lemma encodeTimestamps_regular:
  "encodeTimestamps (t0 # map (\<lambda>i. t0 + of_nat (Suc i) * d) [0..<Suc n])
     = append_uvarint (of_nat (n + 2)) @ put_uint64 t0 @ append_varint d @ replicate n 0"
  unfolding regular_cons using encode_dods_regular[of "t0 + d" d n]
  by (simp add: encodeTimestamps_def Let_def)

interpretation tsb: block_codec encodeTimestamps decodeTimestamps fits_slice
  using decodeTimestamps_encode[where rest = "[]"] decodeTimestamps_torn
  by unfold_locales auto

end
