(* ===== verification/BitStream.thy ===== *)
theory BitStream
  imports Codec
begin

text \<open>
  The bit streams of \<open>storage/encode.go\<close>: \<open>bitWriter\<close> and \<open>bitReader\<close>, both MSB first.
  Each refines a list of bits: writing appends to it, reading takes from its front.
\<close>

section \<open>bitWriter\<close>

record bitWriter =
  bw_buf :: bytes
  bw_cur :: byte
  bw_n :: nat      \<comment> \<open>bits used in \<open>cur\<close>\<close>

definition bitWriter_init :: bitWriter where
  "bitWriter_init = \<lparr>bw_buf = [], bw_cur = 0, bw_n = 0\<rparr>"

definition writeBit :: "bitWriter \<Rightarrow> byte \<Rightarrow> bitWriter" where
  "writeBit w b =
     (let c = bw_cur w OR push_bit (7 - bw_n w) (b AND 1); k = bw_n w + 1 in
      if k = 8 then \<lparr>bw_buf = bw_buf w @ [c], bw_cur = 0, bw_n = 0\<rparr>
      else w\<lparr>bw_cur := c, bw_n := k\<rparr>)"

text \<open>\<open>for i := n - 1; i >= 0; i-- { w.writeBit(byte(v >> i)) }\<close>\<close>

fun write_bits_loop :: "('w \<Rightarrow> byte \<Rightarrow> 'w) \<Rightarrow> 'w \<Rightarrow> uint64 \<Rightarrow> nat \<Rightarrow> 'w" where
  "write_bits_loop wr w v 0 = w"
| "write_bits_loop wr w v (Suc i) = write_bits_loop wr (wr w (ucast (drop_bit i v))) v i"

definition writeBits :: "bitWriter \<Rightarrow> uint64 \<Rightarrow> nat \<Rightarrow> bitWriter" where
  "writeBits w v n = write_bits_loop writeBit w v n"

definition writer_bytes :: "bitWriter \<Rightarrow> bytes" where
  "writer_bytes w = (if bw_n w > 0 then bw_buf w @ [bw_cur w] else bw_buf w)"

section \<open>bitReader\<close>

record bitReader =
  rd_b :: bytes
  rd_pos :: nat    \<comment> \<open>bit position\<close>

definition readBit :: "bitReader \<Rightarrow> (byte \<times> bitReader) res" where
  "readBit r =
     (if length (rd_b r) \<le> rd_pos r div 8 then Inl ErrUnexpectedEOF
      else Inr (drop_bit (7 - rd_pos r mod 8) (rd_b r ! (rd_pos r div 8)) AND 1,
                r\<lparr>rd_pos := rd_pos r + 1\<rparr>))"

text \<open>\<open>for i := 0; i < n; i++ { ...; v = (v << 1) | uint64(bit) }\<close>\<close>

fun read_bits_loop :: "('r \<Rightarrow> (byte \<times> 'r) res) \<Rightarrow> 'r \<Rightarrow> nat \<Rightarrow> uint64 \<Rightarrow> (uint64 \<times> 'r) res" where
  "read_bits_loop rd r 0 v = Inr (v, r)"
| "read_bits_loop rd r (Suc n) v =
     rbind (rd r) (\<lambda>(b, r'). read_bits_loop rd r' n (push_bit 1 v OR ucast b))"

definition readBits :: "bitReader \<Rightarrow> nat \<Rightarrow> (uint64 \<times> bitReader) res" where
  "readBits r n = read_bits_loop readBit r n 0"

section \<open>Bit lists\<close>

definition word_bits :: "nat \<Rightarrow> 'a::len word \<Rightarrow> bool list" where
  "word_bits n v = map (bit v) (rev [0..<n])"

definition bytes_bits :: "bytes \<Rightarrow> bool list" where
  "bytes_bits bs = concat (map (word_bits 8) bs)"

lemma word_bits_simps [simp]:
  "word_bits 0 v = []"
  "word_bits (Suc n) v = bit v n # word_bits n v"
  by (simp_all add: word_bits_def)

lemma length_word_bits [simp]: "length (word_bits n v) = n"
  by (simp add: word_bits_def)

lemma nth_word_bits: "i < n \<Longrightarrow> word_bits n v ! i = bit v (n - 1 - i)"
  by (simp add: word_bits_def rev_nth)

lemma bytes_bits_simps [simp]:
  "bytes_bits [] = []"
  "bytes_bits (b # bs) = word_bits 8 b @ bytes_bits bs"
  "bytes_bits (xs @ ys) = bytes_bits xs @ bytes_bits ys"
  by (simp_all add: bytes_bits_def)

lemma length_bytes_bits [simp]: "length (bytes_bits bs) = 8 * length bs"
  by (induction bs) auto

lemma nth_bytes_bits:
  "i < 8 * length bs \<Longrightarrow> bytes_bits bs ! i = bit (bs ! (i div 8)) (7 - i mod 8)"
proof (induction bs arbitrary: i)
  case Nil
  then show ?case by simp
next
  case (Cons b bs)
  show ?case
  proof (cases "i < 8")
    case True
    then show ?thesis by (simp add: nth_append nth_word_bits)
  next
    case False
    then obtain j where j: "i = 8 + j" by (metis le_iff_add not_less)
    have "(8 + j) div 8 = Suc (j div 8)" by simp
    with j Cons show ?thesis by (simp add: nth_append del: div_add_self1)
  qed
qed

text \<open>The value a list of bits denotes, most significant first.\<close>

fun bits_value :: "uint64 \<Rightarrow> bool list \<Rightarrow> uint64" where
  "bits_value v [] = v"
| "bits_value v (b # bs) = bits_value (push_bit 1 v OR of_bool b) bs"

lemma bits_value_word_bits:
  "n \<le> 64 \<Longrightarrow> bits_value u (word_bits n v) = push_bit n u OR take_bit n v"
proof (induction n arbitrary: u)
  case 0
  then show ?case by simp
next
  case (Suc n)
  have "push_bit n (push_bit 1 u OR of_bool (bit v n)) OR take_bit n v
      = push_bit (Suc n) u OR take_bit (Suc n) v"
  proof (rule bit_word_eqI)
    fix i assume "i < LENGTH(64)"
    then show "bit (push_bit n (push_bit 1 u OR of_bool (bit v n)) OR take_bit n v) i
      = bit (push_bit (Suc n) u OR take_bit (Suc n) v) i"
      by (cases i n rule: linorder_cases)
        (auto simp: bit_simps Suc_diff_Suc simp del: push_bit_Suc)
  qed
  with Suc show ?case by simp
qed

section \<open>The contracts\<close>

locale bit_sink =
  fixes wr :: "'w \<Rightarrow> byte \<Rightarrow> 'w" and wbits :: "'w \<Rightarrow> bool list" and winv :: "'w \<Rightarrow> bool"
  assumes wr_bits: "winv w \<Longrightarrow> wbits (wr w b) = wbits w @ [bit b 0]"
    and wr_inv: "winv w \<Longrightarrow> winv (wr w b)"
begin

lemma loop_inv: "winv w \<Longrightarrow> winv (write_bits_loop wr w v n)"
  by (induction n arbitrary: w) (simp_all add: wr_inv)

lemma loop_bits: "winv w \<Longrightarrow> wbits (write_bits_loop wr w v n) = wbits w @ word_bits n v"
  by (induction n arbitrary: w) (simp_all add: wr_inv wr_bits bit_ucast_iff bit_drop_bit_eq)

end

locale bit_source =
  fixes rd :: "'r \<Rightarrow> (byte \<times> 'r) res" and rbits :: "'r \<Rightarrow> bool list"
  assumes rd_nil: "rbits r = [] \<Longrightarrow> rd r = Inl ErrUnexpectedEOF"
    and rd_cons: "rbits r = x # xs \<Longrightarrow> \<exists>r'. rd r = Inr (of_bool x, r') \<and> rbits r' = xs"
begin

lemma loop_value:
  "rbits r = bs @ xs \<Longrightarrow>
   \<exists>r'. read_bits_loop rd r (length bs) v = Inr (bits_value v bs, r') \<and> rbits r' = xs"
proof (induction bs arbitrary: r v)
  case Nil
  then show ?case by simp
next
  case (Cons b bs)
  then obtain r1 where "rd r = Inr (of_bool b, r1)" and "rbits r1 = bs @ xs"
    using rd_cons[of r b "bs @ xs"] by auto
  with Cons.IH[of r1] show ?case by simp
qed

lemma loop_short:
  "length (rbits r) < n \<Longrightarrow> read_bits_loop rd r n v = Inl ErrUnexpectedEOF"
proof (induction n arbitrary: r v)
  case 0
  then show ?case by simp
next
  case (Suc n)
  show ?case
  proof (cases "rbits r")
    case Nil
    then show ?thesis by (simp add: rd_nil)
  next
    case (Cons x xs)
    then obtain r1 where "rd r = Inr (of_bool x, r1)" and "rbits r1 = xs"
      using rd_cons by blast
    with Suc Cons show ?thesis by simp
  qed
qed

end

section \<open>bitWriter and bitReader honour them\<close>

definition bw_inv :: "bitWriter \<Rightarrow> bool" where
  "bw_inv w \<longleftrightarrow> bw_n w < 8 \<and> (\<forall>i. bit (bw_cur w) i \<longrightarrow> 8 - bw_n w \<le> i)"

definition bw_bits :: "bitWriter \<Rightarrow> bool list" where
  "bw_bits w = bytes_bits (bw_buf w) @ take (bw_n w) (word_bits 8 (bw_cur w))"

definition rd_bits :: "bitReader \<Rightarrow> bool list" where
  "rd_bits r = drop (rd_pos r) (bytes_bits (rd_b r))"

lemma take_word_bits_set:
  assumes "k < 8" and "\<forall>i. bit (c :: byte) i \<longrightarrow> 8 - k \<le> i"
  shows "take (Suc k) (word_bits 8 (c OR push_bit (7 - k) (b AND 1)))
    = take k (word_bits 8 c) @ [bit b 0]"
proof (rule nth_equalityI)
  show "length (take (Suc k) (word_bits 8 (c OR push_bit (7 - k) (b AND 1)))) =
      length (take k (word_bits 8 c) @ [bit b 0])" using assms(1) by simp
next
  fix i assume "i < length (take (Suc k) (word_bits 8 (c OR push_bit (7 - k) (b AND 1))))"
  then have i: "i < Suc k" "i < 8" using assms(1) by auto
  have "bit (c OR push_bit (7 - k) (b AND 1)) (7 - i) = (if i = k then bit b 0 else bit c (7 - i))"
    using i assms by (cases "i = k") (force simp: bit_simps)+
  then show "take (Suc k) (word_bits 8 (c OR push_bit (7 - k) (b AND 1))) ! i
      = (take k (word_bits 8 c) @ [bit b 0]) ! i"
    using i assms(1) by (auto simp: nth_append nth_word_bits)
qed

interpretation bw: bit_sink writeBit bw_bits bw_inv
proof unfold_locales
  fix w b
  assume inv: "bw_inv w"
  then have k: "bw_n w < 8" and clean: "\<forall>i. bit (bw_cur w) i \<longrightarrow> 8 - bw_n w \<le> i"
    by (auto simp: bw_inv_def)
  note t = take_word_bits_set[OF k clean, of b]
  show "bw_bits (writeBit w b) = bw_bits w @ [bit b 0]"
  proof (cases "bw_n w = 7")
    case True
    with t show ?thesis by (simp add: writeBit_def bw_bits_def)
  next
    case False
    with t show ?thesis by (simp add: writeBit_def bw_bits_def Let_def)
  qed
  have "8 - Suc (bw_n w) \<le> i" if "bit (bw_cur w OR push_bit (7 - bw_n w) (b AND 1)) i" for i
    using that clean k by (auto simp: bit_simps dest: spec[of _ i])
  then show "bw_inv (writeBit w b)"
    using k by (auto simp: writeBit_def bw_inv_def Let_def)
qed

lemma readBit_at:
  assumes "rd_pos r < 8 * length (rd_b r)"
  shows "readBit r = Inr (of_bool (bytes_bits (rd_b r) ! rd_pos r), r\<lparr>rd_pos := Suc (rd_pos r)\<rparr>)"
proof -
  have "rd_pos r div 8 < length (rd_b r)" using assms by (simp add: less_mult_imp_div_less mult.commute)
  moreover have "drop_bit k c AND 1 = (of_bool (bit c k) :: byte)" for c :: byte and k
    by (simp add: and_one_eq mod_2_eq_odd bit_iff_odd_drop_bit)
  ultimately show ?thesis
    using nth_bytes_bits[OF assms] by (simp add: readBit_def)
qed

interpretation rd: bit_source readBit rd_bits
proof unfold_locales
  fix r
  assume "rd_bits r = []"
  then show "readBit r = Inl ErrUnexpectedEOF"
    by (auto simp: rd_bits_def readBit_def not_le div_less_iff_less_mult)
next
  fix r x xs
  assume c: "rd_bits r = x # xs"
  then have lt: "rd_pos r < 8 * length (rd_b r)"
    by (metis drop_all length_bytes_bits list.distinct(1) not_less rd_bits_def)
  then have "rd_bits r = bytes_bits (rd_b r) ! rd_pos r # drop (Suc (rd_pos r)) (bytes_bits (rd_b r))"
    by (simp add: rd_bits_def Cons_nth_drop_Suc)
  with c readBit_at[OF lt]
  show "\<exists>r'. readBit r = Inr (of_bool x, r') \<and> rd_bits r' = xs"
    by (simp add: rd_bits_def)
qed

lemma bw_inv_init [simp]: "bw_inv bitWriter_init"
  by (simp add: bw_inv_def bitWriter_init_def)

lemma bw_bits_init [simp]: "bw_bits bitWriter_init = []"
  by (simp add: bw_bits_def bitWriter_init_def)

lemma writeBits_bits: "bw_inv w \<Longrightarrow> bw_bits (writeBits w v n) = bw_bits w @ word_bits n v"
  by (simp add: writeBits_def bw.loop_bits)

lemma writeBits_inv: "bw_inv w \<Longrightarrow> bw_inv (writeBits w v n)"
  by (simp add: writeBits_def bw.loop_inv)

lemma readBits_word:
  assumes "rd_bits r = word_bits n v @ xs" and "n \<le> 64"
  shows "\<exists>r'. readBits r n = Inr (take_bit n v, r') \<and> rd_bits r' = xs"
  using rd.loop_value[OF assms(1), of 0] assms(2)
  by (simp add: readBits_def bits_value_word_bits)

lemma readBits_short: "length (rd_bits r) < n \<Longrightarrow> readBits r n = Inl ErrUnexpectedEOF"
  by (simp add: readBits_def rd.loop_short)

text \<open>The flushed bytes hold the written bits and less than one byte of zero padding.\<close>

lemma writer_bytes_bits:
  assumes "bw_inv w"
  obtains pad where "bytes_bits (writer_bytes w) = bw_bits w @ pad" and "length pad < 8"
proof (cases "bw_n w = 0")
  case True
  then show ?thesis by (intro that[of "[]"]) (simp_all add: writer_bytes_def bw_bits_def)
next
  case False
  have "bytes_bits (writer_bytes w) = bw_bits w @ drop (bw_n w) (word_bits 8 (bw_cur w))"
    using False by (simp add: writer_bytes_def bw_bits_def del: append_take_drop_id)
      (metis append_take_drop_id)
  moreover have "length (drop (bw_n w) (word_bits 8 (bw_cur w))) < 8"
    using False by simp
  ultimately show ?thesis by (rule that)
qed

end
