(* ===== verification/ValueCodec.thy ===== *)
theory ValueCodec
  imports TimestampCodec BitStream
begin

text \<open>
  The value block of \<open>storage/encode.go\<close>: \<open>encodeValues\<close> and \<open>decodeValues\<close> (Gorilla
  XOR bit stream). A \<open>float64\<close> is its bit pattern: the code only moves values through
  \<open>math.Float64bits\<close> and \<open>math.Float64frombits\<close>, never computes with them.
\<close>

type_synonym float64 = "64 word" \<comment> \<open>\<open>math.Float64bits\<close> of the value\<close>

section \<open>math/bits\<close>

definition leadingZeros64 :: "uint64 \<Rightarrow> nat" where
  "leadingZeros64 x = length (takeWhile Not (word_bits 64 x))"

definition trailingZeros64 :: "uint64 \<Rightarrow> nat" where
  "trailingZeros64 x = length (takeWhile Not (rev (word_bits 64 x)))"

section \<open>Encoder\<close>

text \<open>
  The loop body for \<open>i \<ge> 1\<close>: the writer, \<open>prev\<close> and the window \<open>(prevLz, prevTz)\<close>.
\<close>

fun encode_xors :: "bitWriter \<Rightarrow> uint64 \<Rightarrow> nat \<Rightarrow> nat \<Rightarrow> float64 list \<Rightarrow> bitWriter" where
  "encode_xors w prev prevLz prevTz [] = w"
| "encode_xors w prev prevLz prevTz (v # vs) =
     (let xor = v XOR prev in
      if xor = 0 then encode_xors (writeBit w 0) v prevLz prevTz vs
      else
        (let lz = leadingZeros64 xor;
             tz = trailingZeros64 xor;
             lz = (if lz > 31 then 31 else lz);
             sigLen = 64 - lz - tz in
         if prevLz \<noteq> 0 \<and> prevLz \<le> lz \<and> prevTz \<le> tz then
           encode_xors
             (writeBits (writeBit (writeBit w 1) 0) (drop_bit prevTz xor) (64 - prevLz - prevTz))
             v prevLz prevTz vs
         else
           encode_xors
             (writeBits
               (writeBits
                 (writeBits (writeBit (writeBit w 1) 1) (of_nat lz) 5)
                 (if sigLen = 64 then 0 else of_nat sigLen) 6)
               (drop_bit tz xor) sigLen)
             v lz tz vs))"

definition encodeValues :: "float64 list \<Rightarrow> bytes" where
  "encodeValues vs =
     (let out = append_uvarint (of_nat (length vs)) in
      case vs of [] \<Rightarrow> out
      | v0 # vs' \<Rightarrow>
          out @ put_uint64 v0 @ writer_bytes (encode_xors bitWriter_init v0 0 0 vs'))"

section \<open>Decoder\<close>

text \<open>
  \<open>tz = 64 - lz - sigLen\<close> is a signed \<open>int\<close> in the code: on a corrupt block it can be
  negative, and then the shift \<open>sig << tz\<close> panics.
\<close>

fun decode_xors :: "nat \<Rightarrow> bitReader \<Rightarrow> uint64 \<Rightarrow> nat \<Rightarrow> int \<Rightarrow> float64 list res" where
  "decode_xors 0 br prev lz tz = Inr []"
| "decode_xors (Suc n) br prev lz tz =
     rbind (readBit br) (\<lambda>(bit0, br).
       if bit0 = 0 then rbind (decode_xors n br prev lz tz) (\<lambda>vs. Inr (prev # vs))
       else rbind (readBit br) (\<lambda>(bit1, br).
         rbind
           (if bit1 = 1 then
              rbind (readBits br 5) (\<lambda>(l, br).
                rbind (readBits br 6) (\<lambda>(s, br).
                  (let lz = unat l;
                       sigLen = (if s = 0 then 64 else unat s)
                   in Inr (lz, 64 - int lz - int sigLen, br))))
            else Inr (lz, tz, br))
           (\<lambda>(lz, tz, br).
             rbind (readBits br (nat (64 - int lz - tz))) (\<lambda>(sig, br).
               if tz < 0 then Inl (Panic ''negative shift amount'')
               else
                 (let prev = prev XOR push_bit (nat tz) sig
                  in rbind (decode_xors n br prev lz tz) (\<lambda>vs. Inr (prev # vs)))))))"

definition decodeValues :: "bytes \<Rightarrow> float64 list res" where
  "decodeValues data =
     rbind (br_uvarint data) (\<lambda>(count, r).
       if count = 0 then Inr []
       else rbind (br_fixed64 r) (\<lambda>(prev, r).
         if \<not> makeslice_ok 8 count then Inl (Panic ''makeslice: cap out of range'')
         else rbind (decode_xors (unat count - 1) \<lparr>rd_b = r, rd_pos = 0\<rparr> prev 0 0) (\<lambda>vs.
           Inr (prev # vs))))"

section \<open>Leading and trailing zeros\<close>

lemma takeWhile_Not_facts:
  assumes "True \<in> set bs"
  shows "length (takeWhile Not bs) < length bs"
    and "bs ! length (takeWhile Not bs)"
    and "\<And>i. i < length (takeWhile Not bs) \<Longrightarrow> \<not> bs ! i"
proof -
  from assms show lt: "length (takeWhile Not bs) < length bs"
    by (induction bs) auto
  then show "bs ! length (takeWhile Not bs)"
    using nth_length_takeWhile by blast
  show "\<not> bs ! i" if "i < length (takeWhile Not bs)" for i
    using that by (metis nth_mem set_takeWhileD takeWhile_nth)
qed

lemma True_in_word_bits: "x \<noteq> 0 \<Longrightarrow> True \<in> set (word_bits 64 (x :: uint64))"
proof -
  assume "x \<noteq> 0"
  then obtain n where n: "n < 64" "bit x n"
    using bit_word_eqI[of x 0] by auto
  then have "word_bits 64 x ! (63 - n)" by (simp add: nth_word_bits)
  moreover have "63 - n < length (word_bits 64 x)" by simp
  ultimately show ?thesis by (metis nth_mem)
qed

lemma leadingZeros64_facts:
  assumes "x \<noteq> 0"
  shows "leadingZeros64 x < 64" and "bit x (63 - leadingZeros64 x)"
    and "bit x i \<Longrightarrow> i + leadingZeros64 x < 64"
proof -
  note f = takeWhile_Not_facts[OF True_in_word_bits[OF assms], folded leadingZeros64_def]
  from f(1) show lt: "leadingZeros64 x < 64" by simp
  with f(2) show "bit x (63 - leadingZeros64 x)" by (simp add: nth_word_bits)
  assume b: "bit x i"
  then have i: "i < 64" using bit_imp_le_length[OF b] by simp
  show "i + leadingZeros64 x < 64"
  proof (rule ccontr)
    assume "\<not> i + leadingZeros64 x < 64"
    with i have "63 - i < leadingZeros64 x" by simp
    from f(3)[OF this] b i show False by (simp add: nth_word_bits)
  qed
qed

lemma trailingZeros64_facts:
  assumes "x \<noteq> 0"
  shows "trailingZeros64 x < 64" and "bit x (trailingZeros64 x)"
    and "bit x i \<Longrightarrow> trailingZeros64 x \<le> i"
proof -
  have "True \<in> set (rev (word_bits 64 x))" using True_in_word_bits[OF assms] by simp
  note f = takeWhile_Not_facts[OF this, folded trailingZeros64_def]
  have n: "rev (word_bits 64 x) ! i = bit x i" if "i < 64" for i
    using that by (simp add: rev_nth nth_word_bits)
  from f(1) show lt: "trailingZeros64 x < 64" by simp
  with f(2) n show "bit x (trailingZeros64 x)" by simp
  assume b: "bit x i"
  then have i: "i < 64" using bit_imp_le_length[OF b] by simp
  show "trailingZeros64 x \<le> i"
    using f(3)[of i] n[OF i] b by (meson not_less)
qed

text \<open>
  A window \<open>(lz, tz)\<close> covers \<open>x\<close> when no set bit lies outside it; its significant bits
  then determine \<open>x\<close>.
\<close>

definition window_covers :: "nat \<Rightarrow> nat \<Rightarrow> uint64 \<Rightarrow> bool" where
  "window_covers lz tz x \<longleftrightarrow> lz \<le> leadingZeros64 x \<and> tz \<le> trailingZeros64 x"

lemma window_covers_width:
  assumes "x \<noteq> 0" and "window_covers lz tz x"
  shows "lz + tz < 64"
  using leadingZeros64_facts(3)[OF assms(1) trailingZeros64_facts(2)[OF assms(1)]] assms(2)
  by (simp add: window_covers_def)

lemma window_covers_restore:
  assumes "x \<noteq> 0" and "window_covers lz tz x"
  shows "push_bit tz (take_bit (64 - lz - tz) (drop_bit tz x)) = x"
proof (rule bit_word_eqI)
  fix i assume i: "i < LENGTH(64)"
  have "tz \<le> i" and "i + lz < 64" if "bit x i"
    using leadingZeros64_facts(3)[OF assms(1) that] trailingZeros64_facts(3)[OF assms(1) that]
      assms(2) by (auto simp: window_covers_def)
  with i show "bit (push_bit tz (take_bit (64 - lz - tz) (drop_bit tz x))) i = bit x i"
    by (auto simp: bit_simps)
qed

section \<open>The abstract stream\<close>

text \<open>
  What the encoder promises, as a list of bits: \<open>0\<close> for a repeated value, \<open>10\<close> and the
  significant bits of the previous window, or \<open>11\<close>, five bits of leading zeros, six bits of
  width and the significant bits of a new window.
\<close>

definition clamp31 :: "nat \<Rightarrow> nat" where
  "clamp31 lz = (if lz > 31 then 31 else lz)"

definition gorilla_chunk :: "uint64 \<Rightarrow> nat \<Rightarrow> nat \<Rightarrow> bool list \<times> nat \<times> nat" where
  "gorilla_chunk x plz ptz =
     (let lz = clamp31 (leadingZeros64 x); tz = trailingZeros64 x; width = 64 - lz - tz in
      if x = 0 then ([False], plz, ptz)
      else if plz \<noteq> 0 \<and> plz \<le> lz \<and> ptz \<le> tz then
        ([True, False] @ word_bits (64 - plz - ptz) (drop_bit ptz x), plz, ptz)
      else
        ([True, True] @ word_bits 5 (of_nat lz :: uint64)
          @ word_bits 6 (if width = 64 then 0 else of_nat width :: uint64)
          @ word_bits width (drop_bit tz x), lz, tz))"

fun gorilla_bits :: "uint64 \<Rightarrow> nat \<Rightarrow> nat \<Rightarrow> float64 list \<Rightarrow> bool list" where
  "gorilla_bits prev plz ptz [] = []"
| "gorilla_bits prev plz ptz (v # vs) =
     (let (chunk, plz', ptz') = gorilla_chunk (v XOR prev) plz ptz
      in chunk @ gorilla_bits v plz' ptz' vs)"

lemma encode_xors_refines:
  "bw_inv w \<Longrightarrow>
   bw_inv (encode_xors w prev plz ptz vs) \<and>
   bw_bits (encode_xors w prev plz ptz vs) = bw_bits w @ gorilla_bits prev plz ptz vs"
proof (induction vs arbitrary: w prev plz ptz)
  case Nil
  then show ?case by simp
next
  case (Cons v vs)
  show ?case
    using Cons.prems
    by (simp add: Let_def gorilla_chunk_def clamp31_def Cons.IH bw.wr_inv bw.wr_bits
        writeBits_inv writeBits_bits)
qed

section \<open>Reading the stream back\<close>

lemma readBit_bits:
  assumes "rd_bits br = b # bs"
  obtains br' where "readBit br = Inr (of_bool b, br')" and "rd_bits br' = bs"
  using rd.rd_cons[OF assms] by blast

lemma readBits_word_obtain:
  assumes "rd_bits r = word_bits n v @ xs" and "n \<le> 64"
  obtains r' where "readBits r n = Inr (take_bit n v, r')" and "rd_bits r' = xs"
  using readBits_word[OF assms] by blast

lemma take_bit_of_nat_small:
  "m < 2 ^ n \<Longrightarrow> n \<le> 64 \<Longrightarrow> take_bit n (of_nat m :: uint64) = of_nat m"
  by (metis of_nat_take_bit take_bit_nat_eq_self)

lemma unat_of_nat_small: "m \<le> 64 \<Longrightarrow> unat (of_nat m :: uint64) = m"
  by (simp add: unat_of_nat_u64)

text \<open>One value, case by case of its control bits.\<close>

lemma decode_same:
  assumes "rd_bits br = False # xs"
  obtains br' where "rd_bits br' = xs" and
    "decode_xors (Suc n) br prev lz tz = rbind (decode_xors n br' prev lz tz) (\<lambda>vs. Inr (prev # vs))"
proof -
  from assms obtain br' where "readBit br = Inr (0, br')" and "rd_bits br' = xs"
    by (auto elim: readBit_bits)
  then show ?thesis by (intro that[of br']) simp_all
qed

lemma decode_old_window:
  assumes "rd_bits br = True # False # word_bits (64 - lz - tz) y @ xs" and "lz + tz < 64"
  obtains br' where "rd_bits br' = xs" and
    "decode_xors (Suc n) br prev lz (int tz) =
       (let prev' = prev XOR push_bit tz (take_bit (64 - lz - tz) y)
        in rbind (decode_xors n br' prev' lz (int tz)) (\<lambda>vs. Inr (prev' # vs)))"
proof -
  from assms(1) obtain b1 where b1: "readBit br = Inr (1, b1)"
    "rd_bits b1 = False # word_bits (64 - lz - tz) y @ xs" by (auto elim: readBit_bits)
  then obtain b2 where b2: "readBit b1 = Inr (0, b2)" "rd_bits b2 = word_bits (64 - lz - tz) y @ xs"
    by (auto elim: readBit_bits)
  then obtain b3 where b3: "readBits b2 (64 - lz - tz) = Inr (take_bit (64 - lz - tz) y, b3)"
    "rd_bits b3 = xs" by (auto elim: readBits_word_obtain)
  have "nat (64 - int lz - int tz) = 64 - lz - tz" using assms(2) by simp
  with b1 b2 b3 show ?thesis by (intro that[of b3]) (simp_all add: Let_def)
qed

lemma decode_new_window:
  assumes "rd_bits br = True # True # word_bits 5 (of_nat lz :: uint64)
      @ word_bits 6 (if width = 64 then 0 else of_nat width :: uint64) @ word_bits width y @ xs"
    and "lz \<le> 31" and "0 < width" and "width + lz \<le> 64" and "tz = 64 - lz - width"
  obtains br' where "rd_bits br' = xs" and
    "decode_xors (Suc n) br prev lz\<^sub>0 tz\<^sub>0 =
       (let prev' = prev XOR push_bit tz (take_bit width y)
        in rbind (decode_xors n br' prev' lz (int tz)) (\<lambda>vs. Inr (prev' # vs)))"
proof -
  let ?s = "if width = 64 then 0 else of_nat width :: uint64"
  from assms(1) obtain b1 where b1: "readBit br = Inr (1, b1)" "rd_bits b1 = True #
      word_bits 5 (of_nat lz :: uint64) @ word_bits 6 ?s @ word_bits width y @ xs"
    by (auto elim: readBit_bits)
  then obtain b2 where b2: "readBit b1 = Inr (1, b2)"
    "rd_bits b2 = word_bits 5 (of_nat lz :: uint64) @ word_bits 6 ?s @ word_bits width y @ xs"
    by (auto elim: readBit_bits)
  then obtain b3 where b3: "readBits b2 5 = Inr (take_bit 5 (of_nat lz), b3)"
    "rd_bits b3 = word_bits 6 ?s @ word_bits width y @ xs" by (auto elim: readBits_word_obtain)
  then obtain b4 where b4: "readBits b3 6 = Inr (take_bit 6 ?s, b4)"
    "rd_bits b4 = word_bits width y @ xs" by (auto elim: readBits_word_obtain)
  moreover have "width \<le> 64" using assms(4) by simp
  ultimately obtain b5 where b5: "readBits b4 width = Inr (take_bit width y, b5)"
    "rd_bits b5 = xs" by (auto elim: readBits_word_obtain)
  have l: "take_bit 5 (of_nat lz :: uint64) = of_nat lz"
    using assms(2) by (intro take_bit_of_nat_small) auto
  have s: "take_bit 6 ?s = ?s"
    using assms(4) by (auto intro: take_bit_of_nat_small)
  have z: "(if ?s = 0 then 64 else unat ?s) = width"
    using assms(3,4) unat_of_nat_small[of width] by (auto simp: unat_eq_zero[symmetric])
  have ul: "unat (of_nat lz :: uint64) = lz"
    using assms(2) by (intro unat_of_nat_small) simp
  have uu: "uint (of_nat lz :: uint64) = int lz" using ul by (simp add: uint_nat)
  have t: "64 - int lz - int width = int tz" using assms(4,5) by simp
  have k: "nat (64 - int lz - int tz) = width" using assms(4,5) by simp
  show ?thesis
    using b1(1) b2(1) b3(1) b4(1) b5
    by (intro that[of b5]) (simp_all add: Let_def l s z ul uu t k del: of_nat_eq_0_iff)
qed

text \<open>
  The decoder's window agrees with the encoder's once one has been sent; before that the
  encoder never refers to it (\<open>prevLz = 0\<close>).
\<close>

definition same_window :: "nat \<Rightarrow> nat \<Rightarrow> nat \<Rightarrow> int \<Rightarrow> bool" where
  "same_window plz ptz lz tz \<longleftrightarrow> (plz \<noteq> 0 \<longrightarrow> lz = plz \<and> tz = int ptz)"

lemma xor_cancel: "prev XOR (v XOR prev) = (v :: uint64)"
  by (rule bit_word_eqI) (auto simp: bit_simps)

lemma new_window_facts:
  assumes "x \<noteq> 0" and "lz = clamp31 (leadingZeros64 x)" and "tz = trailingZeros64 x"
    and "width = 64 - lz - tz"
  shows "window_covers lz tz x" and "lz \<le> 31" and "0 < width" and "width + lz \<le> 64"
    and "tz = 64 - lz - width"
proof -
  show c: "window_covers lz tz x"
    using assms(2,3) by (simp add: window_covers_def clamp31_def)
  show "lz \<le> 31" using assms(2) by (simp add: clamp31_def)
  from window_covers_width[OF assms(1) c] have "lz + tz < 64" .
  with assms(4) show "0 < width" and "width + lz \<le> 64" and "tz = 64 - lz - width"
    by auto
qed

lemma window_step:
  assumes "x = v XOR prev" and "x \<noteq> 0" and "window_covers lz tz x"
  shows "prev XOR push_bit tz (take_bit (64 - lz - tz) (drop_bit tz x)) = v"
  using window_covers_restore[OF assms(2,3)] assms(1) by (simp add: xor_cancel)

lemma old_window_covers:
  assumes "plz \<noteq> 0 \<and> plz \<le> clamp31 (leadingZeros64 x) \<and> ptz \<le> trailingZeros64 x"
  shows "window_covers plz ptz x"
  using assms by (simp add: window_covers_def clamp31_def split: if_splits)

declare decode_xors.simps(2) [simp del]

lemma chunk_cases:
  assumes "gorilla_chunk x plz ptz = (chunk, plz', ptz')"
  obtains (same) "x = 0" "chunk = [False]" "plz' = plz" "ptz' = ptz"
  | (old) "x \<noteq> 0" "plz \<noteq> 0" "window_covers plz ptz x" "plz' = plz" "ptz' = ptz"
      "chunk = [True, False] @ word_bits (64 - plz - ptz) (drop_bit ptz x)"
  | (new) width where "x \<noteq> 0" "window_covers plz' ptz' x" "plz' \<le> 31" "0 < width"
      "width + plz' \<le> 64" "ptz' = 64 - plz' - width" "width = 64 - plz' - ptz'"
      "chunk = [True, True] @ word_bits 5 (of_nat plz' :: uint64)
          @ word_bits 6 (if width = 64 then 0 else of_nat width :: uint64)
          @ word_bits width (drop_bit ptz' x)"
proof (cases "x = 0")
  case True
  with assms show ?thesis by (intro same) (simp_all add: gorilla_chunk_def)
next
  case nz: False
  show ?thesis
  proof (cases "plz \<noteq> 0 \<and> plz \<le> clamp31 (leadingZeros64 x) \<and> ptz \<le> trailingZeros64 x")
    case True
    with assms nz have "plz' = plz" "ptz' = ptz"
      "chunk = [True, False] @ word_bits (64 - plz - ptz) (drop_bit ptz x)"
      by (auto simp add: gorilla_chunk_def Let_def)
    with nz True old_window_covers[OF True] show ?thesis by (intro old) auto
  next
    case False
    with assms nz have c: "plz' = clamp31 (leadingZeros64 x)" "ptz' = trailingZeros64 x"
      "chunk = [True, True] @ word_bits 5 (of_nat plz' :: uint64)
          @ word_bits 6 (if 64 - plz' - ptz' = 64 then 0 else of_nat (64 - plz' - ptz') :: uint64)
          @ word_bits (64 - plz' - ptz') (drop_bit ptz' x)"
      by (auto simp add: gorilla_chunk_def Let_def)
    from new_window_facts[OF nz c(1,2) refl] c(3) nz show ?thesis by (intro new) auto
  qed
qed

text \<open>Reading one chunk yields the value and the encoder's window.\<close>

lemma chunk_read:
  assumes "gorilla_chunk (v XOR prev) plz ptz = (chunk, plz', ptz')"
    and "rd_bits br = chunk @ xs" and "same_window plz ptz lz tz"
  obtains br' lz' tz' where "rd_bits br' = xs" and "same_window plz' ptz' lz' tz'"
    and "decode_xors (Suc n) br prev lz tz
      = rbind (decode_xors n br' v lz' tz') (\<lambda>vs. Inr (v # vs))"
  using assms(1)
proof (cases rule: chunk_cases)
  case same
  then have "v = prev" by (metis xor_cancel xor.right_neutral)
  from same assms(2) have "rd_bits br = False # xs" by simp
  then show ?thesis
    by (rule decode_same)
      (rule that, assumption, rule assms(3)[unfolded same(3,4)[symmetric]],
        simp only: \<open>v = prev\<close>)
next
  case old
  with assms(3) have w: "lz = plz" "tz = int ptz" by (auto simp: same_window_def)
  from old assms(2) have "rd_bits br
      = True # False # word_bits (64 - plz - ptz) (drop_bit ptz (v XOR prev)) @ xs" by simp
  then show ?thesis
    by (rule decode_old_window[OF _ window_covers_width[OF old(1,3)], where n = n and prev = prev])
      (rule that, assumption, rule assms(3)[unfolded old(4,5)[symmetric]],
        simp only: w window_step[OF refl old(1,3)] Let_def)
next
  case (new width)
  from new(8) assms(2) have "rd_bits br = True # True # word_bits 5 (of_nat plz' :: uint64)
      @ word_bits 6 (if width = 64 then 0 else of_nat width :: uint64)
      @ word_bits width (drop_bit ptz' (v XOR prev)) @ xs" by simp
  then show ?thesis
    by (rule decode_new_window[OF _ new(3-6), where n = n and prev = prev
          and lz\<^sub>0 = lz and tz\<^sub>0 = tz])
      (rule that[of _ plz' "int ptz'"], assumption, simp add: same_window_def,
        simp only: window_step[OF refl new(1,2), folded new(7)] Let_def)
qed

lemma decode_gorilla:
  "rd_bits br = gorilla_bits prev plz ptz vs @ rest \<Longrightarrow> same_window plz ptz lz tz \<Longrightarrow>
   decode_xors (length vs) br prev lz tz = Inr vs"
proof (induction vs arbitrary: br prev plz ptz lz tz)
  case Nil
  then show ?case by simp
next
  case (Cons v vs)
  obtain chunk plz' ptz' where c: "gorilla_chunk (v XOR prev) plz ptz = (chunk, plz', ptz')"
    by (metis prod_cases3)
  with Cons.prems(1) have "rd_bits br = chunk @ gorilla_bits v plz' ptz' vs @ rest" by simp
  with Cons.IH show ?case
    by (elim chunk_read[OF c _ Cons.prems(2), where n = "length vs"]) simp
qed

section \<open>Torn streams\<close>

lemma readBit_torn: "rd_bits br = [] \<Longrightarrow> readBit br = Inl ErrUnexpectedEOF"
  by (rule rd.rd_nil)

lemma decode_torn_control:
  assumes "rd_bits br = [] \<or> rd_bits br = [True]"
  shows "decode_xors (Suc n) br prev lz tz = Inl ErrUnexpectedEOF"
  using assms
proof
  assume "rd_bits br = [True]"
  then obtain b1 where "readBit br = Inr (1, b1)" "rd_bits b1 = []" by (auto elim: readBit_bits)
  then show ?thesis by (simp add: readBit_torn decode_xors.simps(2))
qed (simp add: readBit_torn decode_xors.simps(2))

lemma decode_torn_old:
  assumes "rd_bits br = True # False # q" and "length q < 64 - lz - tz"
  shows "decode_xors (Suc n) br prev lz (int tz) = Inl ErrUnexpectedEOF"
proof -
  from assms(1) obtain b1 where b1: "readBit br = Inr (1, b1)" "rd_bits b1 = False # q"
    by (auto elim: readBit_bits)
  then obtain b2 where b2: "readBit b1 = Inr (0, b2)" "rd_bits b2 = q"
    by (auto elim: readBit_bits)
  have "nat (64 - int lz - int tz) = 64 - lz - tz" by simp
  with b1 b2 assms(2) show ?thesis by (simp add: readBits_short decode_xors.simps(2))
qed

lemma decode_torn_new:
  assumes "rd_bits br = True # True # q" and "lz \<le> 31" and "0 < width" and "width + lz \<le> 64"
    and "strict_prefix q (word_bits 5 (of_nat lz :: uint64)
      @ word_bits 6 (if width = 64 then 0 else of_nat width :: uint64) @ word_bits width y)"
  shows "decode_xors (Suc n) br prev lz\<^sub>0 tz\<^sub>0 = Inl ErrUnexpectedEOF"
proof -
  let ?s = "if width = 64 then 0 else of_nat width :: uint64"
  from assms(1) obtain b1 where b1: "readBit br = Inr (1, b1)" "rd_bits b1 = True # q"
    by (auto elim: readBit_bits)
  then obtain b2 where b2: "readBit b1 = Inr (1, b2)" "rd_bits b2 = q"
    by (auto elim: readBit_bits)
  from assms(5) show ?thesis
  proof (cases rule: strict_prefix_append_cases)
    case 1
    then have "length q < 5" by (auto dest: prefix_length_less)
    with b1 b2 show ?thesis by (simp add: readBits_short decode_xors.simps(2))
  next
    case q1: (2 q1)
    then obtain b3 where b3: "readBits b2 5 = Inr (take_bit 5 (of_nat lz), b3)" "rd_bits b3 = q1"
      using b2(2) by (auto elim: readBits_word_obtain)
    from q1(2) show ?thesis
    proof (cases rule: strict_prefix_append_cases)
      case 1
      then have "length q1 < 6" by (auto dest: prefix_length_less)
      with b1 b2 b3 show ?thesis by (simp add: readBits_short decode_xors.simps(2))
    next
      case q2: (2 q2)
      then obtain b4 where b4: "readBits b3 6 = Inr (take_bit 6 ?s, b4)" "rd_bits b4 = q2"
        using b3(2) by (auto elim: readBits_word_obtain)
      from q2(2) have "length q2 < width" by (auto dest: prefix_length_less)
      with b4 have b5: "readBits b4 width = Inl ErrUnexpectedEOF" by (simp add: readBits_short)
      have s: "take_bit 6 ?s = ?s" using assms(4) by (auto intro: take_bit_of_nat_small)
      have z: "(if ?s = 0 then 64 else unat ?s) = width"
        using assms(3,4) unat_of_nat_small[of width] by (auto simp: unat_eq_zero[symmetric])
      have "nat (int width) = width" by simp
      with b1(1) b2(1) b3(1) b4(1) b5 show ?thesis
        by (simp add: Let_def s z decode_xors.simps(2) del: of_nat_eq_0_iff)
    qed
  qed
qed

lemma chunk_torn:
  assumes "gorilla_chunk (v XOR prev) plz ptz = (chunk, plz', ptz')"
    and "strict_prefix (rd_bits br) chunk" and "same_window plz ptz lz tz"
  shows "decode_xors (Suc n) br prev lz tz = Inl ErrUnexpectedEOF"
  using assms(1)
proof (cases rule: chunk_cases)
  case same
  with assms(2) show ?thesis by (intro decode_torn_control) (auto simp: strict_prefix_def prefix_Cons)
next
  case old
  with assms(3) have w: "lz = plz" "tz = int ptz" by (auto simp: same_window_def)
  from assms(2)[unfolded old(6)] show ?thesis
  proof (cases rule: strict_prefix_append_cases)
    case 1
    then show ?thesis by (intro decode_torn_control) (auto simp: strict_prefix_def prefix_Cons)
  next
    case (2 q)
    then have "length q < 64 - plz - ptz" by (auto dest: prefix_length_less)
    with 2(1) w show ?thesis by (simp add: decode_torn_old)
  qed
next
  case (new width)
  from assms(2)[unfolded new(8)] show ?thesis
  proof (cases rule: strict_prefix_append_cases)
    case 1
    then show ?thesis by (intro decode_torn_control) (auto simp: strict_prefix_def prefix_Cons)
  next
    case (2 q)
    from 2(1) have "rd_bits br = True # True # q" by simp
    from decode_torn_new[OF this new(3-5) 2(2)] show ?thesis .
  qed
qed

lemma decode_gorilla_torn:
  "strict_prefix (rd_bits br) (gorilla_bits prev plz ptz vs) \<Longrightarrow> same_window plz ptz lz tz \<Longrightarrow>
   decode_xors (length vs) br prev lz tz = Inl ErrUnexpectedEOF"
proof (induction vs arbitrary: br prev plz ptz lz tz)
  case Nil
  then show ?case by simp
next
  case (Cons v vs)
  obtain chunk plz' ptz' where c: "gorilla_chunk (v XOR prev) plz ptz = (chunk, plz', ptz')"
    by (metis prod_cases3)
  with Cons.prems(1) have "strict_prefix (rd_bits br) (chunk @ gorilla_bits v plz' ptz' vs)" by simp
  then show ?case
  proof (cases rule: strict_prefix_append_cases)
    case 1
    then show ?thesis using chunk_torn[OF c _ Cons.prems(2)] by simp
  next
    case (2 q)
    with Cons.IH show ?thesis
      by (elim chunk_read[OF c _ Cons.prems(2), where n = "length vs"]) simp
  qed
qed

section \<open>The value block\<close>

lemma same_window_start: "same_window 0 0 0 0"
  by (simp add: same_window_def)

lemma rd_bits_start [simp]: "rd_bits \<lparr>rd_b = r, rd_pos = 0\<rparr> = bytes_bits r"
  by (simp add: rd_bits_def)

lemma encoded_stream_bits:
  obtains pad where
    "bytes_bits (writer_bytes (encode_xors bitWriter_init v0 0 0 vs)) = gorilla_bits v0 0 0 vs @ pad"
    and "length pad < 8"
proof -
  have "bw_inv (encode_xors bitWriter_init v0 0 0 vs)"
    and bits: "bw_bits (encode_xors bitWriter_init v0 0 0 vs) = gorilla_bits v0 0 0 vs"
    using encode_xors_refines[OF bw_inv_init, of v0 0 0 vs] by simp_all
  with writer_bytes_bits[of "encode_xors bitWriter_init v0 0 0 vs"] that show ?thesis by metis
qed

lemma bytes_bits_prefix: "prefix p q \<Longrightarrow> prefix (bytes_bits p) (bytes_bits q)"
  by (auto simp: prefix_def)

text \<open>A missing byte costs more bits than the padding has.\<close>

lemma torn_bytes_torn_bits:
  assumes "bytes_bits q = bs @ pad" and "length pad < 8" and "strict_prefix p q"
  shows "strict_prefix (bytes_bits p) bs"
proof -
  from assms(3) have "length p < length q" by (rule prefix_length_less)
  then have "length (bytes_bits p) + 8 \<le> length (bytes_bits q)" by simp
  then have l: "length (bytes_bits p) < length bs" using assms(1,2) by simp
  have "prefix (bytes_bits p) (bs @ pad)"
    using assms(1,3) bytes_bits_prefix[of p q] by (simp add: strict_prefix_def)
  with l have "prefix (bytes_bits p) bs" by (metis prefix_def prefix_length_prefix less_imp_le)
  with l show ?thesis by (auto simp: strict_prefix_def)
qed

lemma encodeValues_simps:
  "encodeValues [] = append_uvarint 0"
  "encodeValues (v # vs) = append_uvarint (of_nat (length (v # vs))) @ put_uint64 v
     @ writer_bytes (encode_xors bitWriter_init v 0 0 vs)"
  by (simp_all add: encodeValues_def Let_def)

lemma decodeValues_encode:
  assumes "fits_slice vs"
  shows "decodeValues (encodeValues vs) = Inr vs"
proof (cases vs)
  case Nil
  then show ?thesis by (simp add: encodeValues_simps decodeValues_def uv.dec_enc_nil)
next
  case (Cons v vs')
  let ?n = "of_nat (length vs) :: uint64"
  have n: "?n \<noteq> 0" "unat ?n - 1 = length vs'"
    using fits_slice_count_eq[OF assms, of 0] fits_slice_count(1)[OF assms] Cons by simp_all
  obtain pad where "bytes_bits (writer_bytes (encode_xors bitWriter_init v 0 0 vs'))
      = gorilla_bits v 0 0 vs' @ pad" by (rule encoded_stream_bits)
  then have "decode_xors (length vs')
      \<lparr>rd_b = writer_bytes (encode_xors bitWriter_init v 0 0 vs'), rd_pos = 0\<rparr> v 0 0 = Inr vs'"
    using decode_gorilla[OF _ same_window_start] by simp
  with n fits_slice_count(2)[OF assms] Cons show ?thesis
    by (simp add: encodeValues_simps decodeValues_def uv.dec_enc fx.dec_enc del: of_nat_Suc)
qed

lemma decodeValues_torn:
  assumes fits: "fits_slice vs" and torn: "strict_prefix p (encodeValues vs)"
  shows "decodeValues p = Inl ErrUnexpectedEOF"
proof (cases vs)
  case Nil
  with torn show ?thesis by (simp add: encodeValues_simps decodeValues_def uv.dec_torn)
next
  case (Cons v vs')
  let ?n = "of_nat (length vs) :: uint64"
  let ?s = "writer_bytes (encode_xors bitWriter_init v 0 0 vs')"
  have n: "?n \<noteq> 0" "unat ?n - 1 = length vs'"
    using fits_slice_count_eq[OF fits, of 0] fits_slice_count(1)[OF fits] Cons by simp_all
  from torn Cons have "strict_prefix p (append_uvarint ?n @ put_uint64 v @ ?s)"
    by (simp add: encodeValues_simps)
  then show ?thesis
  proof (cases rule: strict_prefix_append_cases)
    case 1
    then show ?thesis by (simp add: decodeValues_def uv.dec_torn)
  next
    case q: (2 q)
    from q(2) show ?thesis
    proof (cases rule: strict_prefix_append_cases)
      case 1
      with q(1) n show ?thesis by (simp add: decodeValues_def uv.dec_enc fx.dec_torn)
    next
      case s: (2 s)
      obtain pad where "bytes_bits ?s = gorilla_bits v 0 0 vs' @ pad" and "length pad < 8"
        by (rule encoded_stream_bits)
      from torn_bytes_torn_bits[OF this s(2)]
      have "decode_xors (length vs') \<lparr>rd_b = s, rd_pos = 0\<rparr> v 0 0 = Inl ErrUnexpectedEOF"
        using decode_gorilla_torn[OF _ same_window_start] by simp
      with n fits_slice_count(2)[OF fits] q(1) s(1) show ?thesis
        by (simp add: decodeValues_def uv.dec_enc fx.dec_enc)
    qed
  qed
qed

section \<open>Size\<close>

lemma gorilla_chunk_size: "length (fst (gorilla_chunk x plz ptz)) \<le> 77"
  by (simp add: gorilla_chunk_def Let_def) linarith

lemma gorilla_bits_size: "length (gorilla_bits prev plz ptz vs) \<le> 77 * length vs"
proof (induction vs arbitrary: prev plz ptz)
  case (Cons v vs)
  obtain chunk a b where c: "gorilla_chunk (v XOR prev) plz ptz = (chunk, a, b)" by (metis surj_pair)
  then have "length chunk \<le> 77" using gorilla_chunk_size[of "v XOR prev" plz ptz] by simp
  with Cons.IH[of v a b] c show ?case by simp
qed simp

lemma encodeValues_size: "length (encodeValues vs) \<le> 18 + 10 * length vs"
proof (cases vs)
  case Nil
  then show ?thesis using append_uvarint_max_len[of 0] by (simp add: encodeValues_simps)
next
  case (Cons v us)
  obtain pad where pad: "bytes_bits (writer_bytes (encode_xors bitWriter_init v 0 0 us))
      = gorilla_bits v 0 0 us @ pad" "length pad < 8"
    by (rule encoded_stream_bits)
  have "8 * length (writer_bytes (encode_xors bitWriter_init v 0 0 us))
      = length (gorilla_bits v 0 0 us) + length pad"
    using arg_cong[OF pad(1), of length] by simp
  then have "8 * length (writer_bytes (encode_xors bitWriter_init v 0 0 us)) < 77 * length us + 8"
    using gorilla_bits_size[of v 0 0 us] pad(2) by linarith
  then have "length (writer_bytes (encode_xors bitWriter_init v 0 0 us)) \<le> 10 * length us" by linarith
  then show ?thesis
    using Cons append_uvarint_max_len[of "of_nat (length vs)"] by (simp add: encodeValues_simps)
qed

section \<open>Corrupt windows\<close>

text \<open>A window whose lengths exceed 64 bits: the negative shift of the next statement panics.\<close>

lemma decode_bad_window:
  assumes bits: "rd_bits br = True # True # word_bits 5 l @ word_bits 6 s @ word_bits (unat s) (v :: uint64) @ rest"
    and "l < (32 :: uint64)" "s < 64" "s \<noteq> (0 :: uint64)" and over: "64 < unat l + unat s"
  shows "decode_xors (Suc n) br prev lz tz = Inl (Panic ''negative shift amount'')"
proof -
  have "unat (take_bit 5 l) = unat l" "unat (take_bit 6 s) = unat s"
    using assms(2,3) by (simp_all add: unsigned_take_bit_eq take_bit_nat_eq_self word_less_nat_alt)
  then have t: "take_bit 5 l = l" "take_bit 6 s = s" by (simp_all only: unsigned_word_eqI)
  have s64: "unat s \<le> 64" using assms(3) by (simp add: word_less_nat_alt)
  obtain b1 where b1: "readBit br = Inr (1, b1)" "rd_bits b1 = True # word_bits 5 l @ word_bits 6 s @ word_bits (unat s) v @ rest"
    using readBit_bits[OF bits] by auto
  obtain b2 where b2: "readBit b1 = Inr (1, b2)" "rd_bits b2 = word_bits 5 l @ word_bits 6 s @ word_bits (unat s) v @ rest"
    using readBit_bits[OF b1(2)] by auto
  obtain b3 where b3: "readBits b2 5 = Inr (l, b3)" "rd_bits b3 = word_bits 6 s @ word_bits (unat s) v @ rest"
    using readBits_word_obtain[OF b2(2)] t by auto
  obtain b4 where b4: "readBits b3 6 = Inr (s, b4)" "rd_bits b4 = word_bits (unat s) v @ rest"
    using readBits_word_obtain[OF b3(2)] t by auto
  obtain b5 where b5: "readBits b4 (unat s) = Inr (take_bit (unat s) v, b5)"
    using readBits_word_obtain[OF b4(2) s64] by auto
  have "64 - uint l < uint s" using over unfolding uint_nat by linarith
  then show ?thesis
    using b1(1) b2(1) b3(1) b4(1) b5 assms(4)
    by (simp add: decode_xors.simps(2) Let_def)
qed

lemma bytes_bits_ones: "bytes_bits (replicate n (0xFF :: byte)) = replicate (8 * n) True"
proof (induction n)
  case (Suc n)
  have "word_bits 8 (0xFF :: byte) = replicate 8 True" by code_simp
  with Suc show ?case by (simp add: replicate_add[symmetric])
qed simp

lemma word_bits_mask: "n \<le> k \<Longrightarrow> k \<le> 64 \<Longrightarrow> word_bits n (mask k :: uint64) = replicate n True"
  by (rule nth_equalityI) (auto simp: nth_word_bits bit_mask_iff)

lemma decodeValues_panic:
  "decodeValues (append_uvarint 2 @ put_uint64 v @ replicate 10 0xFF) = Inl (Panic ''negative shift amount'')"
proof -
  have "rd_bits \<lparr>rd_b = replicate 10 0xFF, rd_pos = 0\<rparr> =
      True # True # word_bits 5 (mask 5 :: uint64) @ word_bits 6 (mask 6 :: uint64)
        @ word_bits (unat (mask 6 :: uint64)) (mask 64 :: uint64) @ replicate 4 True"
  proof -
    have "unat (mask 6 :: uint64) = 63" by (simp add: mask_eq_exp_minus_1)
    then show ?thesis
      by (simp add: bytes_bits_ones word_bits_mask replicate_add[symmetric] replicate_Suc[symmetric] del: replicate_Suc)
  qed
  then have "decode_xors (Suc 0) \<lparr>rd_b = replicate 10 0xFF, rd_pos = 0\<rparr> v 0 0 = Inl (Panic ''negative shift amount'')"
    by (rule decode_bad_window) (simp_all add: mask_eq_exp_minus_1)
  then show ?thesis
    by (simp add: decodeValues_def uv.dec_enc fx.dec_enc makeslice_ok_def del: decode_xors.simps)
qed

interpretation vsb: block_codec encodeValues decodeValues fits_slice
  by unfold_locales (auto simp: decodeValues_encode decodeValues_torn)

end
