(* ===== verification/Decimal.thy ===== *)
theory Decimal
  imports Prelude
begin

text \<open>
  Decimal names: \<open>fmt.Sprintf("%06d")\<close> of part and segment numbers, \<open>strconv.Atoi\<close> and
  \<open>strconv.ParseUint\<close>, and the fact the directory scans rest on, that names of one width sort
  as the numbers they spell.
\<close>

section \<open>Printing and parsing\<close>

definition digit_char :: "nat \<Rightarrow> char" where
  "digit_char d = char_of (48 + d)"

definition digit_val :: "char \<Rightarrow> nat option" where
  "digit_val c = (let n = of_char c :: nat in if 48 \<le> n \<and> n \<le> 57 then Some (n - 48) else None)"

fun dec_string :: "nat \<Rightarrow> string" where
  "dec_string n =
     (if n < 10 then [digit_char n] else dec_string (n div 10) @ [digit_char (n mod 10)])"

declare dec_string.simps [simp del]

definition zpad :: "nat \<Rightarrow> string \<Rightarrow> string" where
  "zpad w s = replicate (w - length s) CHR ''0'' @ s"

text \<open>\<open>fmt.Sprintf("%06d", n)\<close> for \<open>n \<ge> 0\<close>.\<close>

definition fmt06d :: "nat \<Rightarrow> string" where
  "fmt06d n = zpad 6 (dec_string n)"

text \<open>\<open>fmt.Sprintf("%06d", n)\<close>: the sign counts as one of the six characters.\<close>

definition sprintf06d :: "int \<Rightarrow> string" where
  "sprintf06d n =
     (if 0 \<le> n then fmt06d (nat n) else CHR ''-'' # zpad 5 (dec_string (nat (- n))))"

definition digits_step :: "nat option \<Rightarrow> char \<Rightarrow> nat option" where
  "digits_step acc c =
     (case acc of None \<Rightarrow> None
      | Some a \<Rightarrow> (case digit_val c of None \<Rightarrow> None | Some d \<Rightarrow> Some (10 * a + d)))"

definition parse_digits :: "string \<Rightarrow> nat option" where
  "parse_digits s = (if s = [] then None else foldl digits_step (Some 0) s)"

text \<open>\<open>strconv.ParseUint(s, 10, 64)\<close>: digits only, in range.\<close>

definition ParseUint :: "string \<Rightarrow> uint64 option" where
  "ParseUint s =
     (case parse_digits s of None \<Rightarrow> None
      | Some n \<Rightarrow> if n < 2 ^ 64 then Some (of_nat n) else None)"

text \<open>\<open>strconv.Atoi\<close>: an optional sign, digits, in the range of a 64-bit \<open>int\<close>.\<close>

definition Atoi :: "string \<Rightarrow> int option" where
  "Atoi s =
     (case s of [] \<Rightarrow> None
      | c # cs \<Rightarrow>
          (let neg = (c = CHR ''-''); ds = (if neg \<or> c = CHR ''+'' then cs else s) in
           case parse_digits ds of None \<Rightarrow> None
           | Some n \<Rightarrow>
               (let v = (if neg then - int n else int n) in
                if - (2 ^ 63) \<le> v \<and> v < 2 ^ 63 then Some v else None)))"

lemma digits_step_Some: "digit_val c = Some d \<Longrightarrow> digits_step (Some a) c = Some (10 * a + d)"
  by (simp add: digits_step_def)

section \<open>Round trips\<close>

lemma of_char_digit_char: "d < 10 \<Longrightarrow> (of_char (digit_char d) :: nat) = 48 + d"
  by (simp add: digit_char_def)

lemma digit_val_digit_char [simp]: "d < 10 \<Longrightarrow> digit_val (digit_char d) = Some d"
  by (simp add: digit_val_def of_char_digit_char)

lemma digit_char_0: "digit_char 0 = CHR ''0''"
  by code_simp

lemma dec_string_nonempty [simp]: "dec_string n \<noteq> []"
  by (subst dec_string.simps) simp

lemma foldl_dec_string: "foldl digits_step (Some 0) (dec_string n) = Some n"
proof (induction n rule: dec_string.induct)
  case (1 n)
  have "digits_step (Some (n div 10)) (digit_char (n mod 10)) = Some n"
    by (simp add: digits_step_def)
  moreover have "n < 10 \<Longrightarrow> digits_step (Some 0) (digit_char n) = Some n"
    by (simp add: digits_step_def)
  ultimately show ?case using 1 by (subst dec_string.simps) simp
qed

lemma foldl_zeros: "foldl digits_step (Some 0) (replicate k CHR ''0'') = Some 0"
  by (induction k) (simp_all add: digits_step_def digit_val_def)

lemma parse_digits_zpad [simp]: "parse_digits (zpad w (dec_string n)) = Some n"
  by (simp add: parse_digits_def zpad_def foldl_zeros foldl_dec_string)

lemma parse_digits_dec_string [simp]: "parse_digits (dec_string n) = Some n"
  by (simp add: parse_digits_def foldl_dec_string)

lemma ParseUint_dec_string [simp]: "ParseUint (dec_string (unat (x :: uint64))) = Some x"
  using unsigned_less[of x] by (simp add: ParseUint_def)

definition is_digits :: "string \<Rightarrow> bool" where
  "is_digits s \<longleftrightarrow> (\<forall>c \<in> set s. digit_val c \<noteq> None)"

lemma is_digits_dec_string [simp]: "is_digits (dec_string n)"
proof (induction n rule: dec_string.induct)
  case (1 n)
  show ?case by (subst dec_string.simps) (use 1 in \<open>auto simp: is_digits_def\<close>)
qed

lemma is_digits_zpad [simp]: "is_digits s \<Longrightarrow> is_digits (zpad w s)"
  by (auto simp: is_digits_def zpad_def digit_val_def)

lemma Atoi_digits:
  assumes "is_digits s" and "parse_digits s = Some n" and "n < 2 ^ 63"
  shows "Atoi s = Some (int n)"
proof -
  obtain c cs where s: "s = c # cs" using assms(2) by (cases s) (auto simp: parse_digits_def)
  have "c \<noteq> CHR ''-''" and "c \<noteq> CHR ''+''"
    using assms(1) s by (auto simp: is_digits_def digit_val_def)
  with assms s show ?thesis by (simp add: Atoi_def)
qed

lemma Atoi_fmt06d: "n < 2 ^ 63 \<Longrightarrow> Atoi (fmt06d n) = Some (int n)"
  unfolding fmt06d_def by (rule Atoi_digits) simp_all

lemma fmt06d_inj: "fmt06d m = fmt06d n \<longleftrightarrow> m = n"
  by (metis fmt06d_def option.inject parse_digits_zpad)

section \<open>Names of one width sort as numbers\<close>

lemma length_dec_string: "0 < w \<Longrightarrow> length (dec_string n) \<le> w \<longleftrightarrow> n < 10 ^ w"
proof (induction n arbitrary: w rule: dec_string.induct)
  case (1 n)
  show ?case
  proof (cases "n < 10")
    case True
    moreover have "(10::nat) \<le> 10 ^ w" using 1(2) by (cases w) auto
    ultimately show ?thesis using 1(2) by (subst dec_string.simps) auto
  next
    case False
    then have "length (dec_string n) = Suc (length (dec_string (n div 10)))"
      by (subst dec_string.simps) simp
    moreover obtain v where v: "w = Suc v" using 1(2) by (cases w) auto
    moreover have "0 < length (dec_string (n div 10))" by simp
    moreover have "n div 10 < 10 ^ v \<longleftrightarrow> n < 10 ^ Suc v"
      by (simp add: div_less_iff_less_mult mult.commute)
    ultimately show ?thesis using 1(1)[OF False, of v] False by (cases v) auto
  qed
qed

lemma length_zpad: "length s \<le> w \<Longrightarrow> length (zpad w s) = w"
  by (simp add: zpad_def)

text \<open>The value of a digit string, and its comparison with another of the same length.\<close>

definition digits_value :: "string \<Rightarrow> nat" where
  "digits_value s = the (foldl digits_step (Some 0) s)"

lemma foldl_digits:
  "is_digits s \<Longrightarrow> \<exists>v. (\<forall>a. foldl digits_step (Some a) s = Some (a * 10 ^ length s + v)) \<and> v < 10 ^ length s"
proof (induction s)
  case Nil
  then show ?case by simp
next
  case (Cons c s)
  then obtain v where v: "\<And>a. foldl digits_step (Some a) s = Some (a * 10 ^ length s + v)"
    "v < 10 ^ length s" by (auto simp: is_digits_def)
  from Cons.prems obtain d where d: "digit_val c = Some d" by (auto simp: is_digits_def)
  then have d9: "d \<le> 9" by (auto simp: digit_val_def Let_def split: if_splits)
  have "foldl digits_step (Some a) (c # s) = Some (a * 10 ^ length (c # s) + (d * 10 ^ length s + v))" for a
    using d v(1) by (simp add: digits_step_def algebra_simps)
  moreover have "d * 10 ^ length s + v < 10 ^ length (c # s)"
  proof -
    have "d * 10 ^ length s \<le> 9 * 10 ^ length s" using d9 by (rule mult_le_mono1)
    moreover have "(10::nat) ^ length (c # s) = 9 * 10 ^ length s + 10 ^ length s" by simp
    ultimately show ?thesis using v(2) by linarith
  qed
  ultimately show ?case by blast
qed

lemma digit_val_less:
  assumes "digit_val c = Some d" and "digit_val c' = Some d'"
  shows "c < c' \<longleftrightarrow> d < d'" and "c = c' \<longleftrightarrow> d = d'"
proof -
  from assms have v: "of_char c = (48 + d :: nat)" "of_char c' = (48 + d' :: nat)"
    by (auto simp: digit_val_def Let_def split: if_splits)
  then show "c < c' \<longleftrightarrow> d < d'" by (simp add: less_char_def)
  show "c = c' \<longleftrightarrow> d = d'" using v by (metis add_left_cancel of_char_eq_iff)
qed

lemma digits_less_iff:
  "is_digits s \<Longrightarrow> is_digits t \<Longrightarrow> length s = length t \<Longrightarrow>
   foldl digits_step (Some 0) s = Some m \<Longrightarrow> foldl digits_step (Some 0) t = Some n \<Longrightarrow>
   s < t \<longleftrightarrow> m < n"
proof (induction s arbitrary: t m n)
  case Nil
  then show ?case by simp
next
  case (Cons c s)
  then obtain c' t' where t: "t = c' # t'" by (cases t) auto
  from Cons.prems(1,2) t have dig: "is_digits s" "is_digits t'" by (auto simp: is_digits_def)
  from Cons.prems(3) t have len: "length s = length t'" by simp
  obtain d d' where d: "digit_val c = Some d" "digit_val c' = Some d'"
    using Cons.prems(1,2) t by (auto simp: is_digits_def)
  obtain v where v: "\<And>a. foldl digits_step (Some a) s = Some (a * 10 ^ length s + v)"
    "v < 10 ^ length s" using foldl_digits[OF dig(1)] by blast
  obtain v' where v': "\<And>a. foldl digits_step (Some a) t' = Some (a * 10 ^ length s + v')"
    "v' < 10 ^ length s" using foldl_digits[OF dig(2)] len by auto
  from Cons.prems(4,5) d v(1) v'(1) t
  have mn: "m = d * 10 ^ length s + v" "n = d' * 10 ^ length s + v'"
    by (simp_all add: digits_step_Some)
  have IH: "s < t' \<longleftrightarrow> v < v'" using Cons.IH[OF dig len, of v v'] v(1)[of 0] v'(1)[of 0] by simp
  have lex: "d < d' \<Longrightarrow> m < n" if "d * 10 ^ length s + v = m" "d' * 10 ^ length s + v' = n"
    "v < 10 ^ length s" for d d' v v' m n :: nat
  proof -
    assume "d < d'"
    then have "Suc d * 10 ^ length s \<le> d' * 10 ^ length s" by (intro mult_le_mono1) simp
    with that show "m < n" by simp
  qed
  show ?case
  proof (cases d d' rule: linorder_cases)
    case less
    with lex[OF mn(1)[symmetric] mn(2)[symmetric] v(2)] digit_val_less(1)[OF d] t show ?thesis by simp
  next
    case equal
    with digit_val_less[OF d] mn IH t show ?thesis by simp
  next
    case greater
    with lex[OF mn(2)[symmetric] mn(1)[symmetric] v'(2)] digit_val_less[OF d] t show ?thesis by auto
  qed
qed

lemma zpad_less_iff:
  assumes "0 < w" and "m < 10 ^ w" and "n < 10 ^ w"
  shows "zpad w (dec_string m) < zpad w (dec_string n) \<longleftrightarrow> m < n"
proof (rule digits_less_iff)
  show "length (zpad w (dec_string m)) = length (zpad w (dec_string n))"
    using assms by (simp add: length_zpad length_dec_string)
  have z: "foldl digits_step (Some 0) (zpad w (dec_string k)) = Some k" for k
    by (simp add: zpad_def foldl_zeros foldl_dec_string)
  show "foldl digits_step (Some 0) (zpad w (dec_string m)) = Some m" by (rule z)
  show "foldl digits_step (Some 0) (zpad w (dec_string n)) = Some n" by (rule z)
qed simp_all

lemma fmt06d_less_iff: "m < 10 ^ 6 \<Longrightarrow> n < 10 ^ 6 \<Longrightarrow> fmt06d m < fmt06d n \<longleftrightarrow> m < n"
  unfolding fmt06d_def by (rule zpad_less_iff) simp_all

lemma length_fmt06d: "n < 10 ^ 6 \<Longrightarrow> length (fmt06d n) = 6"
  by (simp add: fmt06d_def length_zpad length_dec_string)

lemma Atoi_sprintf06d: "0 \<le> n \<Longrightarrow> n < 2 ^ 63 \<Longrightarrow> Atoi (sprintf06d n) = Some n"
  by (simp add: sprintf06d_def Atoi_fmt06d nat_less_iff)

lemma sprintf06d_inj: "0 \<le> m \<Longrightarrow> 0 \<le> n \<Longrightarrow> sprintf06d m = sprintf06d n \<longleftrightarrow> m = n"
  by (simp add: sprintf06d_def fmt06d_inj eq_nat_nat_iff)

lemma sprintf06d_digits: "0 \<le> n \<Longrightarrow> is_digits (sprintf06d n)"
  by (simp add: sprintf06d_def fmt06d_def)

text \<open>A 64-bit \<open>int\<close>: arithmetic wraps.\<close>

definition goint :: "int \<Rightarrow> int" where
  "goint n = sint (word_of_int n :: int64)"

lemma goint_id: "- (2 ^ 63) \<le> n \<Longrightarrow> n < 2 ^ 63 \<Longrightarrow> goint n = n"
  by (simp add: goint_def signed_of_int signed_take_bit_int_eq_self)

end
