(* ===== verification/Series.thy ===== *)
theory Series
  imports Prelude
begin

text \<open>
  \<open>storage/series.go\<close>: labels, canonical keys and the series registry (forward map
  SeriesID to labels, inverted index label to SeriesIDs partitioned by day). The registry's
  methods are state transformers; its mutex makes each of them atomic.
\<close>

section \<open>Labels\<close>

datatype Label = Label (label_name: string) (label_value: string)

text \<open>The order \<open>sortedLabels\<close> sorts by: the name, then the value, as Go compares strings.\<close>

instantiation Label :: linorder
begin

definition less_Label :: "Label \<Rightarrow> Label \<Rightarrow> bool" where
  "less_Label a b \<longleftrightarrow>
     (if label_name a \<noteq> label_name b then label_name a < label_name b
      else label_value a < label_value b)"

definition less_eq_Label :: "Label \<Rightarrow> Label \<Rightarrow> bool" where
  "less_eq_Label a b \<longleftrightarrow> a < b \<or> a = b"

instance
proof
  fix a b c :: Label
  show "a < b \<longleftrightarrow> a \<le> b \<and> \<not> b \<le> a"
    by (auto simp: less_eq_Label_def less_Label_def split: if_splits)
  show "a \<le> a" by (simp add: less_eq_Label_def)
  show "a \<le> b \<Longrightarrow> b \<le> c \<Longrightarrow> a \<le> c"
    by (auto simp: less_eq_Label_def less_Label_def split: if_splits)
  show "a \<le> b \<Longrightarrow> b \<le> a \<Longrightarrow> a = b"
    by (auto simp: less_eq_Label_def less_Label_def split: if_splits)
  show "a \<le> b \<or> b \<le> a"
    by (cases a; cases b) (auto simp: less_eq_Label_def less_Label_def)
qed

end

definition MetricNameLabel :: string where
  "MetricNameLabel = ''__name__''"

definition nameValueSep :: char where "nameValueSep = CHR 0x01"
definition labelPairSep :: char where "labelPairSep = CHR 0x02"

definition sortedLabels :: "Label list \<Rightarrow> Label list" where
  "sortedLabels labels = sort labels"

definition labelKey :: "string \<Rightarrow> string \<Rightarrow> string" where
  "labelKey name v = name @ [nameValueSep] @ v"

definition CanonicalKey :: "Label list \<Rightarrow> string" where
  "CanonicalKey labels =
     concat (map (\<lambda>l. label_name l @ [nameValueSep] @ label_value l @ [labelPairSep])
       (sortedLabels labels))"

section \<open>Registry\<close>

record Matcher =
  m_name :: string
  m_value :: string

record Registry =
  nextID :: uint64
  byKey :: "(string, uint64) gomap"
  names :: "(uint64, Label list) gomap"
  pending :: "(uint64, Label list) gomap"
  invertedByDay :: "(string, (string, uint64 list) gomap) gomap"
  persisted :: "(string, uint64 list) gomap"

definition NewRegistry :: Registry where
  "NewRegistry =
     \<lparr>nextID = 1, byKey = [], names = [], pending = [], invertedByDay = [], persisted = []\<rparr>"

text \<open>The second lookup under the write lock is the first one again: the method is atomic.\<close>

definition Resolve :: "Registry \<Rightarrow> Label list \<Rightarrow> uint64 \<times> Registry" where
  "Resolve r labels =
     (let key = CanonicalKey labels in
      case map_of (byKey r) key of
        Some sid \<Rightarrow> (sid, r)
      | None \<Rightarrow>
          (let sid = nextID r; srtd = sortedLabels labels in
           (sid, r\<lparr>nextID := nextID r + 1,
                  byKey := AList.update key sid (byKey r),
                  names := AList.update sid srtd (names r),
                  pending := AList.update sid srtd (pending r)\<rparr>)))"

definition Labels :: "Registry \<Rightarrow> uint64 \<Rightarrow> Label list option" where
  "Labels r sid = map_of (names r) sid"

definition Len :: "Registry \<Rightarrow> nat" where
  "Len r = length (names r)"

definition DrainPending :: "Registry \<Rightarrow> (uint64, Label list) gomap \<times> Registry" where
  "DrainPending r =
     (if pending r = [] then ([], r) else (pending r, r\<lparr>pending := []\<rparr>))"

definition TrackPending :: "Registry \<Rightarrow> (uint64, Label list) gomap \<Rightarrow> Registry" where
  "TrackPending r entries =
     (if entries = [] then r
      else r\<lparr>pending := foldl (\<lambda>p (sid, labels). AList.update sid labels p) (pending r) entries\<rparr>)"

definition load_entry :: "Registry \<times> uint64 \<Rightarrow> uint64 \<times> Label list \<Rightarrow> Registry \<times> uint64" where
  "load_entry = (\<lambda>(r, maxID) (sid, labels).
     (let srtd = sortedLabels labels; key = CanonicalKey srtd in
      if map_of (byKey r) key = Some sid then (r, maxID)
      else (r\<lparr>names := AList.update sid srtd (names r), byKey := AList.update key sid (byKey r)\<rparr>,
            if sid > maxID then sid else maxID)))"

definition LoadEntries :: "Registry \<Rightarrow> (uint64, Label list) gomap \<Rightarrow> Registry" where
  "LoadEntries r entries =
     (let (r', maxID) = foldl load_entry (r, 0) entries in
      if maxID \<ge> nextID r' then r'\<lparr>nextID := maxID + 1\<rparr> else r')"

text \<open>Sets of IDs (\<open>map[uint64]struct{}\<close>) are lists without repetition.\<close>

definition add_label_id :: "uint64 \<Rightarrow> (string, uint64 list) gomap \<Rightarrow> Label \<Rightarrow> (string, uint64 list) gomap" where
  "add_label_id sid idx l =
     (let k = labelKey (label_name l) (label_value l)
      in AList.update k (List.insert sid (gm_get idx k)) idx)"

definition addInvertedLocked :: "Registry \<Rightarrow> string \<Rightarrow> uint64 \<Rightarrow> Label list \<Rightarrow> Registry" where
  "addInvertedLocked r day sid labels =
     (let idx = (case map_of (invertedByDay r) day of None \<Rightarrow> [] | Some idx \<Rightarrow> idx)
      in r\<lparr>invertedByDay :=
            AList.update day (foldl (add_label_id sid) idx labels) (invertedByDay r)\<rparr>)"

definition markPersistedLocked :: "Registry \<Rightarrow> string \<Rightarrow> uint64 \<Rightarrow> Registry" where
  "markPersistedLocked r day sid =
     r\<lparr>persisted := AList.update day (List.insert sid (gm_get (persisted r) day)) (persisted r)\<rparr>"

definition IndexForDay :: "Registry \<Rightarrow> string \<Rightarrow> uint64 \<Rightarrow> Registry" where
  "IndexForDay r day sid = addInvertedLocked r day sid (gm_get (names r) sid)"

definition UnindexedIDs :: "Registry \<Rightarrow> string \<Rightarrow> uint64 list \<Rightarrow> uint64 list" where
  "UnindexedIDs r day ids = filter (\<lambda>sid. sid \<notin> set (gm_get (persisted r) day)) ids"

definition MarkIndexed :: "Registry \<Rightarrow> string \<Rightarrow> uint64 list \<Rightarrow> Registry" where
  "MarkIndexed r day ids = foldl (\<lambda>r sid. markPersistedLocked r day sid) r ids"

definition LoadInvertedEntry :: "Registry \<Rightarrow> string \<Rightarrow> uint64 \<Rightarrow> Label list \<Rightarrow> Registry" where
  "LoadInvertedEntry r day sid labels =
     markPersistedLocked (addInvertedLocked r day sid labels) day sid"

definition DropDay :: "Registry \<Rightarrow> string \<Rightarrow> Registry" where
  "DropDay r day =
     r\<lparr>invertedByDay := AList.delete day (invertedByDay r),
       persisted := AList.delete day (persisted r)\<rparr>"

text \<open>The union over the days of the IDs indexed under the matcher's key.\<close>

definition candidates :: "Registry \<Rightarrow> Matcher \<Rightarrow> uint64 list" where
  "candidates r m =
     (let key = labelKey (m_name m) (m_value m)
      in remdups (concat (map (\<lambda>(day, idx). gm_get idx key) (invertedByDay r))))"

text \<open>The loop over the matchers; \<open>None\<close> is the first iteration (\<open>i == 0\<close>).\<close>

fun match_loop :: "Registry \<Rightarrow> uint64 list option \<Rightarrow> Matcher list \<Rightarrow> uint64 list" where
  "match_loop r ids [] = (case ids of None \<Rightarrow> [] | Some xs \<Rightarrow> sort xs)"
| "match_loop r ids (m # ms) =
     (let cand = candidates r m in
      if cand = [] then []
      else case ids of
             None \<Rightarrow> match_loop r (Some cand) ms
           | Some xs \<Rightarrow> match_loop r (Some (filter (\<lambda>sid. sid \<in> set cand) xs)) ms)"

definition Match :: "Registry \<Rightarrow> Matcher list \<Rightarrow> uint64 list" where
  "Match r matchers = match_loop r None matchers"

section \<open>Canonical keys identify label sets\<close>

definition label_sep_free :: "Label \<Rightarrow> bool" where
  "label_sep_free l \<longleftrightarrow> nameValueSep \<notin> set (label_name l) \<and> labelPairSep \<notin> set (label_value l)"

lemma sortedLabels_mset: "sortedLabels a = sortedLabels b \<longleftrightarrow> mset a = mset b"
  unfolding sortedLabels_def by (metis mset_sort properties_for_sort sorted_sort)

lemma sortedLabels_idem [simp]: "sortedLabels (sortedLabels ls) = sortedLabels ls"
  by (simp add: sortedLabels_def sorted_sort_id)

lemma sorted_sortedLabels [simp]: "sorted (sortedLabels ls)"
  by (simp add: sortedLabels_def)

lemma set_sortedLabels [simp]: "set (sortedLabels ls) = set ls"
  by (simp add: sortedLabels_def)

lemma sortedLabels_sorted: "sorted ls \<Longrightarrow> sortedLabels ls = ls"
  by (simp add: sortedLabels_def sorted_sort_id)

lemma CanonicalKey_sortedLabels [simp]: "CanonicalKey (sortedLabels ls) = CanonicalKey ls"
  by (simp add: CanonicalKey_def)

lemma joined_labels_inject:
  assumes "\<forall>l \<in> set xs \<union> set ys. label_sep_free l"
    and "concat (map (\<lambda>l. label_name l @ [nameValueSep] @ label_value l @ [labelPairSep]) xs)
       = concat (map (\<lambda>l. label_name l @ [nameValueSep] @ label_value l @ [labelPairSep]) ys)"
  shows "xs = ys"
  using assms
proof (induction xs arbitrary: ys)
  case Nil
  then show ?case by (cases ys) auto
next
  case (Cons x xs)
  then obtain y ys' where ys: "ys = y # ys'" by (cases ys) auto
  from Cons.prems ys have free: "label_sep_free x" "label_sep_free y" by auto
  with Cons.prems(2) ys have "label_name x = label_name y" and "label_value x = label_value y"
    and "concat (map (\<lambda>l. label_name l @ [nameValueSep] @ label_value l @ [labelPairSep]) xs)
       = concat (map (\<lambda>l. label_name l @ [nameValueSep] @ label_value l @ [labelPairSep]) ys')"
    by (auto simp: label_sep_free_def append_sep_inject)
  with Cons.IH[of ys'] Cons.prems(1) ys show ?case by (auto intro: Label.expand)
qed

lemma CanonicalKey_eq_iff:
  assumes "\<forall>l \<in> set a \<union> set b. label_sep_free l"
  shows "CanonicalKey a = CanonicalKey b \<longleftrightarrow> mset a = mset b"
proof
  assume "CanonicalKey a = CanonicalKey b"
  then have "sortedLabels a = sortedLabels b"
    unfolding CanonicalKey_def using assms by (intro joined_labels_inject) auto
  then show "mset a = mset b" by (simp add: sortedLabels_mset)
next
  assume "mset a = mset b"
  then show "CanonicalKey a = CanonicalKey b"
    by (simp add: CanonicalKey_def flip: sortedLabels_mset)
qed

lemma labelKey_eq_iff:
  "nameValueSep \<notin> set n \<Longrightarrow> nameValueSep \<notin> set n' \<Longrightarrow>
   labelKey n v = labelKey n' v' \<longleftrightarrow> n = n' \<and> v = v'"
  by (simp add: labelKey_def append_sep_inject)

section \<open>The registry invariant\<close>

text \<open>
  The forward map is a naming: sorted label sets under positive IDs, no two IDs with the same
  canonical key; \<open>byKey\<close> is its inverse, and every ID lies below \<open>nextID\<close>.
\<close>

definition naming_ok :: "(uint64 \<rightharpoonup> Label list) \<Rightarrow> bool" where
  "naming_ok N \<longleftrightarrow>
     (\<forall>i ls. N i = Some ls \<longrightarrow> sorted ls \<and> 0 < i) \<and>
     (\<forall>i j ls ls'. N i = Some ls \<longrightarrow> N j = Some ls' \<longrightarrow> CanonicalKey ls = CanonicalKey ls' \<longrightarrow> i = j)"

definition registry_ok :: "Registry \<Rightarrow> bool" where
  "registry_ok r \<longleftrightarrow>
     gm_wf (names r) \<and> gm_wf (byKey r) \<and> gm_wf (pending r) \<and> naming_ok (map_of (names r)) \<and>
     (\<forall>k i. map_of (byKey r) k = Some i \<longleftrightarrow>
        (\<exists>ls. map_of (names r) i = Some ls \<and> CanonicalKey ls = k)) \<and>
     (\<forall>i ls. map_of (names r) i = Some ls \<longrightarrow> i < nextID r) \<and>
     (\<forall>i ls. map_of (pending r) i = Some ls \<longrightarrow> map_of (names r) i = Some ls) \<and>
     0 < nextID r"

lemma registry_ok_New [simp]: "registry_ok NewRegistry"
  by (simp add: registry_ok_def NewRegistry_def naming_ok_def)

lemma registry_ok_byKey:
  "registry_ok r \<Longrightarrow> map_of (byKey r) (CanonicalKey ls) = Some i \<Longrightarrow>
   \<exists>ls'. map_of (names r) i = Some ls' \<and> CanonicalKey ls' = CanonicalKey ls"
  by (auto simp: registry_ok_def)

lemma registry_ok_inv_byKey:
  "registry_ok r \<Longrightarrow> map_of (names r) i = Some ls \<Longrightarrow> map_of (byKey r) (CanonicalKey ls) = Some i"
  by (auto simp: registry_ok_def)

lemma registry_ok_fresh: "registry_ok r \<Longrightarrow> map_of (names r) (nextID r) = None"
  by (metis less_irrefl not_None_eq registry_ok_def)

lemma word_less_Suc: "x + 1 \<noteq> 0 \<Longrightarrow> i \<le> x \<Longrightarrow> i < x + (1 :: uint64)"
  by (simp add: word_less_nat_alt word_le_nat_alt unatSuc add.commute)

subsection \<open>Resolve\<close>

text \<open>The two outcomes of \<open>Resolve\<close>: a known label set, or a registration.\<close>

lemma Resolve_cases:
  assumes "Resolve r ls = (i, r')"
  obtains (known) "map_of (byKey r) (CanonicalKey ls) = Some i" "r' = r"
  | (fresh) "map_of (byKey r) (CanonicalKey ls) = None" "i = nextID r"
      "r' = r\<lparr>nextID := nextID r + 1, byKey := AList.update (CanonicalKey ls) i (byKey r),
        names := AList.update i (sortedLabels ls) (names r),
        pending := AList.update i (sortedLabels ls) (pending r)\<rparr>"
  using assms by (auto simp: Resolve_def Let_def split: option.splits)

lemma Resolve_byKey: "Resolve r ls = (i, r') \<Longrightarrow> map_of (byKey r') (CanonicalKey ls) = Some i"
  by (erule Resolve_cases) simp_all

lemma Resolve_byKey_mono:
  "Resolve r ls = (i, r') \<Longrightarrow> map_of (byKey r) k = Some j \<Longrightarrow> map_of (byKey r') k = Some j"
  by (erule Resolve_cases) auto

lemma naming_ok_extend:
  assumes "naming_ok N" and "N i = None" and "sorted ls" and "0 < i"
    and "\<And>j ls'. N j = Some ls' \<Longrightarrow> CanonicalKey ls' \<noteq> CanonicalKey ls"
  shows "naming_ok (N(i \<mapsto> ls))"
  using assms unfolding naming_ok_def by (auto split: if_splits) metis+

lemma Resolve_ok:
  assumes ok: "registry_ok r" and res: "Resolve r ls = (i, r')" and room: "nextID r + 1 \<noteq> 0"
  shows "registry_ok r'"
  using res
proof (cases rule: Resolve_cases)
  case known
  with ok show ?thesis by simp
next
  case fresh
  have new: "map_of (names r) i = None" using registry_ok_fresh[OF ok] fresh(2) by simp
  have key: "CanonicalKey ls' \<noteq> CanonicalKey ls" if "map_of (names r) j = Some ls'" for j ls'
    using registry_ok_inv_byKey[OF ok that] fresh(1) by auto
  have "naming_ok ((map_of (names r))(i \<mapsto> sortedLabels ls))"
    using ok new key fresh(2) by (intro naming_ok_extend) (auto simp: registry_ok_def)
  moreover have "j < nextID r + 1" if "map_of (names r) j = Some ls'" for j ls'
  proof -
    from ok that have "j < nextID r" unfolding registry_ok_def by blast
    then show ?thesis by (intro word_less_Suc[OF room]) simp
  qed
  moreover have "i < nextID r + 1" using fresh(2) word_less_Suc[OF room] by simp
  moreover have "map_of (pending r) i = None"
    using ok new by (metis not_None_eq option.distinct(1) registry_ok_def)
  moreover have "0 < nextID r + 1" using room by (simp add: word_gt_0)
  ultimately show ?thesis
    using ok new key fresh(1) unfolding fresh(3) registry_ok_def by auto
qed

text \<open>A run of registrations, as the ingest path issues them one by one.\<close>

fun resolve_all :: "Registry \<Rightarrow> Label list list \<Rightarrow> uint64 list \<times> Registry" where
  "resolve_all r [] = ([], r)"
| "resolve_all r (ls # lss) =
     (let (i, r1) = Resolve r ls; (ids, r2) = resolve_all r1 lss in (i # ids, r2))"

lemma Resolve_nextID:
  "Resolve r ls = (i, r') \<Longrightarrow> unat (nextID r) + n < 2 ^ 64 - 1 \<Longrightarrow>
   unat (nextID r') \<le> unat (nextID r) + 1"
  by (erule Resolve_cases) (auto simp: unat_word_ariths)

lemma room_unat: "unat x < 2 ^ 64 - 1 \<Longrightarrow> x + 1 \<noteq> (0 :: uint64)"
proof
  assume a: "unat x < 2 ^ 64 - 1" and z: "x + 1 = 0"
  have "unat (x + 1) = (unat x + 1) mod 2 ^ 64" by (simp add: unat_word_ariths)
  with a z show False by simp
qed

lemma resolve_all_ok:
  "registry_ok r \<Longrightarrow> unat (nextID r) + length lss < 2 ^ 64 \<Longrightarrow> resolve_all r lss = (ids, r') \<Longrightarrow>
   registry_ok r' \<and> length ids = length lss \<and>
   (\<forall>k j. map_of (byKey r) k = Some j \<longrightarrow> map_of (byKey r') k = Some j) \<and>
   (\<forall>n < length lss. map_of (byKey r') (CanonicalKey (lss ! n)) = Some (ids ! n))"
proof (induction lss arbitrary: r ids r')
  case Nil
  then show ?case by simp
next
  case (Cons ls lss)
  obtain i r1 where r1: "Resolve r ls = (i, r1)" by fastforce
  obtain ids' where ids: "resolve_all r1 lss = (ids', r')" "ids = i # ids'"
    using Cons.prems(3) r1 by (auto split: prod.splits)
  have room: "nextID r + 1 \<noteq> 0" using Cons.prems(2) by (intro room_unat) simp
  have "unat (nextID r1) + length lss < 2 ^ 64"
    using Resolve_nextID[OF r1, of 0] Cons.prems(2) by simp
  from Cons.IH[OF Resolve_ok[OF Cons.prems(1) r1 room] this ids(1)]
  show ?case
    using Resolve_byKey[OF r1] Resolve_byKey_mono[OF r1] ids(2)
    by (auto simp: less_Suc_eq_0_disj)
qed

subsection \<open>Replaying the forward segments\<close>

text \<open>\<open>loadRegistry\<close> passes every record of every segment to \<open>LoadEntries\<close>, one at a time.\<close>

definition replay_forward :: "Registry \<Rightarrow> (uint64 \<times> Label list) list \<Rightarrow> Registry" where
  "replay_forward r recs = foldl (\<lambda>r (sid, labels). LoadEntries r [(sid, labels)]) r recs"

lemma replay_forward_simps [simp]:
  "replay_forward r [] = r"
  "replay_forward r ((sid, ls) # recs) = replay_forward (LoadEntries r [(sid, ls)]) recs"
  by (simp_all add: replay_forward_def)

lemma LoadEntries_single:
  assumes ok: "registry_ok r" and N: "naming_ok ((map_of (names r))(i \<mapsto> sortedLabels ls))"
    and old: "map_of (names r) i = None \<or> map_of (names r) i = Some (sortedLabels ls)"
    and room: "i + 1 \<noteq> 0"
  defines "r' \<equiv> LoadEntries r [(i, ls)]"
  shows "registry_ok r' \<and> map_of (names r') = (map_of (names r))(i \<mapsto> sortedLabels ls) \<and>
    nextID r' = max (nextID r) (i + 1)"
proof (cases "map_of (byKey r) (CanonicalKey ls) = Some i")
  case True
  then have "map_of (names r) i = Some (sortedLabels ls)"
    using registry_ok_byKey[OF ok True] old by auto
  moreover from this have "i < nextID r" using ok unfolding registry_ok_def by blast
  moreover have "nextID r \<noteq> 0" using ok unfolding registry_ok_def by auto
  then have "r' = r" using True by (simp add: r'_def LoadEntries_def load_entry_def)
  ultimately show ?thesis using ok inc_le[of i "nextID r"] by (auto simp: max_def)
next
  case False
  have fresh: "map_of (names r) i = None"
    using old registry_ok_inv_byKey[OF ok, of i "sortedLabels ls"] False by auto
  have key: "map_of (names r) j \<noteq> Some ls'" if "CanonicalKey ls' = CanonicalKey ls" for j ls'
    using N fresh that unfolding naming_ok_def by (metis CanonicalKey_sortedLabels fun_upd_other
        fun_upd_same option.distinct(1))
  have i0: "0 < i" using N by (auto simp: naming_ok_def)
  have r': "r' = r\<lparr>names := AList.update i (sortedLabels ls) (names r),
      byKey := AList.update (CanonicalKey ls) i (byKey r), nextID := max (nextID r) (i + 1)\<rparr>"
    using False room i0 inc_le[of i "nextID r"]
    by (auto simp: r'_def LoadEntries_def load_entry_def Let_def max_def not_less
        dest: word_less_Suc[OF room] intro: order.antisym)
  have lt: "j < max (nextID r) (i + 1)" if "map_of (names r) j = Some ls'" for j ls'
  proof -
    from ok that have "j < nextID r" unfolding registry_ok_def by blast
    then show ?thesis by (simp add: less_max_iff_disj)
  qed
  have "i < max (nextID r) (i + 1)" using word_less_Suc[OF room, of i] by (simp add: less_max_iff_disj)
  moreover have "map_of (byKey r) (CanonicalKey ls) = None"
    using registry_ok_byKey[OF ok] key by (metis not_None_eq)
  moreover have "map_of (pending r) i = None"
    using ok fresh by (metis not_None_eq option.distinct(1) registry_ok_def)
  ultimately have "registry_ok r'"
    using ok N fresh key lt unfolding r' registry_ok_def
    by (auto simp: less_max_iff_disj)
  then show ?thesis by (simp add: r')
qed

text \<open>
  Replaying any list of records of one naming (in any order, with repetitions) yields that
  naming restricted to the replayed IDs, and continues the IDs past the maximum.
\<close>

lemma naming_ok_sub: "naming_ok N \<Longrightarrow> M \<subseteq>\<^sub>m N \<Longrightarrow> naming_ok M"
  unfolding naming_ok_def map_le_def by (metis domI)

lemma replay_forward_ok:
  assumes "naming_ok N" and "\<And>i. N i \<noteq> None \<Longrightarrow> i + 1 \<noteq> 0"
  shows "registry_ok r \<Longrightarrow> map_of (names r) \<subseteq>\<^sub>m N \<Longrightarrow> \<forall>(i, ls) \<in> set recs. N i = Some ls \<Longrightarrow>
    registry_ok (replay_forward r recs) \<and>
    (\<forall>i. map_of (names (replay_forward r recs)) i
       = (if i \<in> fst ` set recs then N i else map_of (names r) i)) \<and>
    (\<forall>b. nextID r \<le> b \<longrightarrow> (\<forall>i \<in> fst ` set recs. i + 1 \<le> b) \<longrightarrow>
       nextID (replay_forward r recs) \<le> b)"
proof (induction recs arbitrary: r)
  case Nil
  then show ?case by simp
next
  case (Cons rec recs)
  obtain i ls where [simp]: "rec = (i, ls)" by (cases rec)
  from Cons.prems(3) have Ni: "N i = Some ls" by simp
  then have srt: "sortedLabels ls = ls"
    using assms(1) by (intro sortedLabels_sorted) (auto simp: naming_ok_def)
  have sub: "(map_of (names r))(i \<mapsto> sortedLabels ls) \<subseteq>\<^sub>m N"
    using Cons.prems(2) Ni srt by (auto simp: map_le_def)
  have old: "map_of (names r) i = None \<or> map_of (names r) i = Some (sortedLabels ls)"
  proof (cases "map_of (names r) i")
    case (Some a)
    with Cons.prems(2) have "N i = Some a" by (auto simp: map_le_def dom_def)
    with Ni srt Some show ?thesis by simp
  qed simp
  from LoadEntries_single[OF Cons.prems(1) naming_ok_sub[OF assms(1) sub] old]
  have l: "registry_ok (LoadEntries r [(i, ls)])"
    "map_of (names (LoadEntries r [(i, ls)])) = (map_of (names r))(i \<mapsto> ls)"
    "nextID (LoadEntries r [(i, ls)]) = max (nextID r) (i + 1)"
    using assms(2)[of i] Ni srt by simp_all
  let ?r = "LoadEntries r [(i, ls)]"
  have "map_of (names ?r) \<subseteq>\<^sub>m N" using l(2) sub srt by simp
  from Cons.IH[OF l(1) this] Cons.prems(3)
  have IH: "registry_ok (replay_forward ?r recs)"
    "\<And>j. map_of (names (replay_forward ?r recs)) j
       = (if j \<in> fst ` set recs then N j else map_of (names ?r) j)"
    "\<And>b. nextID ?r \<le> b \<Longrightarrow> (\<forall>j \<in> fst ` set recs. j + 1 \<le> b) \<Longrightarrow>
       nextID (replay_forward ?r recs) \<le> b"
    by auto
  have "map_of (names (replay_forward r (rec # recs))) j
      = (if j \<in> fst ` set (rec # recs) then N j else map_of (names r) j)" for j
    using IH(2)[of j] l(2) Ni by auto
  moreover have "nextID (replay_forward r (rec # recs)) \<le> b"
    if "nextID r \<le> b" and "\<forall>j \<in> fst ` set (rec # recs). j + 1 \<le> b" for b
    using IH(3)[of b] that l(3) by simp
  ultimately show ?case using IH(1) by simp
qed

lemma registry_ext:
  assumes "registry_ok r" and "registry_ok r'" and "map_of (names r') = map_of (names r)"
  shows "map_of (byKey r') = map_of (byKey r)"
proof
  fix k
  have "map_of (byKey r') k = Some i \<longleftrightarrow> map_of (byKey r) k = Some i" for i
    using assms unfolding registry_ok_def by simp
  then show "map_of (byKey r') k = map_of (byKey r) k" by (metis option.exhaust)
qed

section \<open>The inverted index\<close>

definition inv_ids :: "Registry \<Rightarrow> string \<Rightarrow> string \<Rightarrow> uint64 list" where
  "inv_ids r day k =
     (case map_of (invertedByDay r) day of None \<Rightarrow> [] | Some idx \<Rightarrow> gm_get idx k)"

definition label_keys :: "Label list \<Rightarrow> string set" where
  "label_keys ls = (\<lambda>l. labelKey (label_name l) (label_value l)) ` set ls"

text \<open>
  The index reflects a set \<open>X\<close> of (day, series) pairs when a day's entry of a label key holds
  exactly the series of that day that carry the label.
\<close>

definition index_reflects :: "Registry \<Rightarrow> (string \<times> uint64) set \<Rightarrow> bool" where
  "index_reflects r X \<longleftrightarrow>
     gm_wf (invertedByDay r) \<and> (\<forall>(day, i) \<in> X. map_of (names r) i \<noteq> None) \<and>
     (\<forall>day k. set (inv_ids r day k)
        = {i. (day, i) \<in> X \<and> (\<exists>ls. map_of (names r) i = Some ls \<and> k \<in> label_keys ls)})"

lemma set_add_label_ids:
  "set (gm_get (foldl (add_label_id i) idx ls) k)
     = set (gm_get idx k) \<union> (if k \<in> label_keys ls then {i} else {})"
proof (induction ls arbitrary: idx)
  case Nil
  then show ?case by (simp add: label_keys_def)
next
  case (Cons l ls)
  then show ?case
    by (cases "k = labelKey (label_name l) (label_value l)")
      (auto simp: label_keys_def add_label_id_def Let_def)
qed

lemma inv_ids_addInverted:
  "set (inv_ids (addInvertedLocked r day i ls) d k)
     = set (inv_ids r d k) \<union> (if d = day \<and> k \<in> label_keys ls then {i} else {})"
  by (auto simp: inv_ids_def addInvertedLocked_def Let_def set_add_label_ids split: option.splits)

lemma addInverted_frame [simp]:
  "names (addInvertedLocked r day i ls) = names r"
  "byKey (addInvertedLocked r day i ls) = byKey r"
  "nextID (addInvertedLocked r day i ls) = nextID r"
  "pending (addInvertedLocked r day i ls) = pending r"
  "persisted (addInvertedLocked r day i ls) = persisted r"
  by (simp_all add: addInvertedLocked_def Let_def)

lemma markPersisted_frame [simp]:
  "names (markPersistedLocked r day i) = names r"
  "byKey (markPersistedLocked r day i) = byKey r"
  "nextID (markPersistedLocked r day i) = nextID r"
  "pending (markPersistedLocked r day i) = pending r"
  "invertedByDay (markPersistedLocked r day i) = invertedByDay r"
  by (simp_all add: markPersistedLocked_def)

lemma inv_ids_markPersisted [simp]: "inv_ids (markPersistedLocked r day i) = inv_ids r"
  by (simp add: inv_ids_def fun_eq_iff)

lemma inv_ids_cong: "invertedByDay r' = invertedByDay r \<Longrightarrow> inv_ids r' = inv_ids r"
  by (simp add: inv_ids_def fun_eq_iff)

lemma inv_ids_DropDay: "inv_ids (DropDay r day) d k = (if d = day then [] else inv_ids r d k)"
  by (simp add: inv_ids_def DropDay_def)

lemma addInverted_reflects:
  assumes "index_reflects r X" and "map_of (names r) i = Some ls"
  shows "index_reflects (addInvertedLocked r day i ls) (insert (day, i) X)"
  using assms unfolding index_reflects_def inv_ids_addInverted
  by (auto simp: addInvertedLocked_def Let_def)

lemma IndexForDay_reflects:
  assumes "index_reflects r X" and "map_of (names r) i = Some ls"
  shows "index_reflects (IndexForDay r day i) (insert (day, i) X)"
  using addInverted_reflects[OF assms] assms(2) by (simp add: IndexForDay_def gm_get_def)

lemma LoadInvertedEntry_reflects:
  assumes "index_reflects r X" and "map_of (names r) i = Some ls"
  shows "index_reflects (LoadInvertedEntry r day i ls) (insert (day, i) X)"
  using addInverted_reflects[OF assms, of day]
  by (simp add: LoadInvertedEntry_def index_reflects_def)

lemma DropDay_reflects:
  assumes "index_reflects r X"
  shows "index_reflects (DropDay r day) {(d, i) \<in> X. d \<noteq> day}"
  using assms unfolding index_reflects_def inv_ids_DropDay
  by (auto simp: DropDay_def)

lemma Resolve_reflects:
  assumes "index_reflects r X" and "registry_ok r" and "Resolve r ls = (i, r')"
  shows "index_reflects r' X"
  using assms(3)
proof (cases rule: Resolve_cases)
  case fresh
  have new: "(day, i) \<notin> X" for day
    using assms(1) registry_ok_fresh[OF assms(2)] fresh(2) by (auto simp: index_reflects_def)
  have "inv_ids r' = inv_ids r" using fresh(3) by (intro inv_ids_cong) simp
  then show ?thesis
    using assms(1) new unfolding index_reflects_def by (auto simp: fresh(3))
qed (simp add: assms(1))

lemma index_reflects_New [simp]: "index_reflects NewRegistry {}"
  by (simp add: index_reflects_def NewRegistry_def inv_ids_def)

subsection \<open>Match\<close>

definition matcher_key :: "Matcher \<Rightarrow> string" where
  "matcher_key m = labelKey (m_name m) (m_value m)"

lemma distinct_candidates [simp]: "distinct (candidates r m)"
  by (simp add: candidates_def)

lemma set_candidates:
  assumes "gm_wf (invertedByDay r)"
  shows "set (candidates r m) = (\<Union>day. set (inv_ids r day (matcher_key m)))"
proof -
  have inv: "i \<in> set (inv_ids r day k)
      \<longleftrightarrow> (\<exists>idx. (day, idx) \<in> set (invertedByDay r) \<and> i \<in> set (gm_get idx k))" for i day k
    by (cases "map_of (invertedByDay r) day") (auto simp: inv_ids_def set_entries[OF assms])
  have "set (candidates r m) = (\<Union>(day, idx) \<in> set (invertedByDay r). set (gm_get idx (matcher_key m)))"
    by (auto simp: candidates_def matcher_key_def)
  then show ?thesis using inv by (simp add: set_eq_iff Bex_def split_paired_Ex)
qed

lemma match_loop_spec:
  "distinct xs \<Longrightarrow>
   sorted (match_loop r (Some xs) ms) \<and> distinct (match_loop r (Some xs) ms) \<and>
   set (match_loop r (Some xs) ms) = {i \<in> set xs. \<forall>m \<in> set ms. i \<in> set (candidates r m)}"
proof (induction ms arbitrary: xs)
  case Nil
  then show ?case by simp
next
  case (Cons m ms)
  show ?case
  proof (cases "candidates r m = []")
    case True
    then show ?thesis by simp
  next
    case False
    with Cons show ?thesis by (auto simp: Let_def)
  qed
qed

lemma Match_spec:
  assumes "index_reflects r X" and "ms \<noteq> []"
  shows "sorted (Match r ms) \<and> distinct (Match r ms) \<and>
    set (Match r ms) = {i. (\<exists>day. (day, i) \<in> X) \<and>
      (\<exists>ls. map_of (names r) i = Some ls \<and> (\<forall>m \<in> set ms. matcher_key m \<in> label_keys ls))}"
proof -
  have wf: "gm_wf (invertedByDay r)" using assms(1) by (simp add: index_reflects_def)
  have c: "set (candidates r m) = {i. (\<exists>day. (day, i) \<in> X) \<and>
      (\<exists>ls. map_of (names r) i = Some ls \<and> matcher_key m \<in> label_keys ls)}" for m
    using assms(1) unfolding set_candidates[OF wf] index_reflects_def by blast
  obtain m ms' where ms: "ms = m # ms'" using assms(2) by (cases ms) auto
  have "sorted (Match r ms) \<and> distinct (Match r ms) \<and>
    set (Match r ms) = {i \<in> set (candidates r m). \<forall>m \<in> set ms'. i \<in> set (candidates r m)}"
    using match_loop_spec[of "candidates r m" r ms'] ms by (auto simp: Match_def Let_def)
  moreover have "{i \<in> set (candidates r m). \<forall>m \<in> set ms'. i \<in> set (candidates r m)}
      = {i. (\<exists>day. (day, i) \<in> X) \<and>
      (\<exists>ls. map_of (names r) i = Some ls \<and> (\<forall>m \<in> set ms. matcher_key m \<in> label_keys ls))}"
    (is "?A = ?B")
  proof (rule set_eqI)
    fix i
    show "i \<in> ?A \<longleftrightarrow> i \<in> ?B" by (cases "map_of (names r) i") (auto simp: c ms)
  qed
  ultimately show ?thesis by simp
qed

lemma Match_empty [simp]: "Match r [] = []"
  by (simp add: Match_def)

text \<open>With names free of the separator, a key matches exactly the label it was built from.\<close>

lemma matcher_key_in_labels:
  assumes "\<forall>l \<in> set ls. nameValueSep \<notin> set (label_name l)" and "nameValueSep \<notin> set (m_name m)"
  shows "matcher_key m \<in> label_keys ls \<longleftrightarrow> Label (m_name m) (m_value m) \<in> set ls"
  using assms by (force simp: matcher_key_def label_keys_def labelKey_eq_iff image_iff
      intro: Label.expand)

subsection \<open>Persisted pairs and pending entries\<close>

lemma persisted_MarkIndexed:
  "set (gm_get (persisted (MarkIndexed r day ids)) d)
     = set (gm_get (persisted r) d) \<union> (if d = day then set ids else {})"
proof (induction ids arbitrary: r)
  case Nil
  then show ?case by (simp add: MarkIndexed_def)
next
  case (Cons i ids)
  then show ?case
    by (cases "d = day") (auto simp: MarkIndexed_def markPersistedLocked_def)
qed

lemma MarkIndexed_frame [simp]:
  "names (MarkIndexed r day ids) = names r"
  "byKey (MarkIndexed r day ids) = byKey r"
  "nextID (MarkIndexed r day ids) = nextID r"
  "pending (MarkIndexed r day ids) = pending r"
  "invertedByDay (MarkIndexed r day ids) = invertedByDay r"
  by (induction ids arbitrary: r) (simp_all add: MarkIndexed_def)

lemma UnindexedIDs_after_mark: "UnindexedIDs (MarkIndexed r day ids) day ids = []"
  by (simp add: UnindexedIDs_def persisted_MarkIndexed)

lemma Drain_Track_pending:
  assumes "registry_ok r" and "DrainPending r = (p, r')"
  shows "map_of (pending (TrackPending r' p)) = map_of (pending r)"
proof -
  have "map_of (foldl (\<lambda>p (sid, labels). AList.update sid labels p) q p) i
      = (case map_of p i of None \<Rightarrow> map_of q i | Some ls \<Rightarrow> Some ls)"
    if "gm_wf p" for q i and p :: "(uint64, Label list) gomap"
    using that by (induction p arbitrary: q) (auto split: option.splits simp: rev_image_eqI)
  with assms show ?thesis
    by (auto simp: DrainPending_def TrackPending_def registry_ok_def fun_eq_iff
        split: if_splits option.splits)
qed

end
