(* ===== verification/IndexDB.thy ===== *)
theory IndexDB
  imports Varint Decimal Series
begin

text \<open>
  The segment format of \<open>storage/indexdb.go\<close>: encoding of registry entries, replay of a
  segment with tolerance of a torn tail, and the numbering of segment files.
\<close>

section \<open>Strings on the wire\<close>

definition string_bytes :: "string \<Rightarrow> bytes" where
  "string_bytes s = map (\<lambda>c. of_nat (of_char c)) s"

definition bytes_string :: "bytes \<Rightarrow> string" where
  "bytes_string bs = map (\<lambda>b. char_of (unat b)) bs"

lemma bytes_string_bytes [simp]: "bytes_string (string_bytes s) = s"
proof -
  have "unat (of_nat (of_char c) :: byte) = of_char c" for c :: char
    by (simp add: unat_of_nat take_bit_eq_mod)
  then show ?thesis by (induction s) (simp_all add: bytes_string_def string_bytes_def)
qed

lemma length_string_bytes [simp]: "length (string_bytes s) = length s"
  by (simp add: string_bytes_def)

definition putString :: "string \<Rightarrow> bytes" where
  "putString s = append_uvarint (of_nat (length s)) @ string_bytes s"

definition br_str :: "byteReader \<Rightarrow> (string \<times> byteReader) res" where
  "br_str r =
     rbind (br_uvarint r) (\<lambda>(l, r).
       if length r < unat l then Inl ErrUnexpectedEOF
       else Inr (bytes_string (take (unat l) r), drop (unat l) r))"

section \<open>Records and segments\<close>

definition indexdbSegMagic :: bytes where
  "indexdbSegMagic = string_bytes ''MMIDX001''"

definition put_label :: "Label \<Rightarrow> bytes" where
  "put_label l = putString (label_name l) @ putString (label_value l)"

definition br_label :: "byteReader \<Rightarrow> (Label \<times> byteReader) res" where
  "br_label r =
     rbind (br_str r) (\<lambda>(name, r). rbind (br_str r) (\<lambda>(val, r). Inr (Label name val, r)))"

text \<open>The write loop \<open>for i, id := range ids\<close>; \<open>first\<close> is \<open>i == 0\<close>.\<close>

fun encode_records :: "bool \<Rightarrow> uint64 \<Rightarrow> (uint64 \<times> Label list) list \<Rightarrow> bytes" where
  "encode_records first prev [] = []"
| "encode_records first prev ((sid, labels) # recs) =
     (let delta = (if first then sid else sid - prev) in
      append_uvarint delta @ append_uvarint (of_nat (length labels))
        @ concat (map put_label labels) @ encode_records False sid recs)"

text \<open>The entries in the order they are written: ascending IDs.\<close>

definition sorted_entries :: "(uint64, Label list) gomap \<Rightarrow> (uint64 \<times> Label list) list" where
  "sorted_entries entries = map (\<lambda>sid. (sid, gm_get entries sid)) (sort (map fst entries))"

definition segment_bytes :: "(uint64, Label list) gomap \<Rightarrow> bytes" where
  "segment_bytes entries = indexdbSegMagic @ encode_records True 0 (sorted_entries entries)"

text \<open>
  \<open>readIndexRecord\<close>; \<open>make([]Label, 0, n)\<close> allocates 32 bytes per label and panics on a
  count no address space holds.
\<close>

definition readIndexRecord :: "uint64 \<Rightarrow> byteReader \<Rightarrow> ((uint64 \<times> Label list) \<times> byteReader) res" where
  "readIndexRecord prev r =
     rbind (br_uvarint r) (\<lambda>(delta, r).
       rbind (br_uvarint r) (\<lambda>(n, r).
         if \<not> makeslice_ok 32 n then Inl (Panic ''makeslice: cap out of range'')
         else rbind (read_n (unat n) br_label r) (\<lambda>(labels, r).
           Inr ((prev + delta, labels), r))))"

subsection \<open>Every record consumes input\<close>

lemma br_uvarint_shrinks: "br_uvarint r = Inr (v, r') \<Longrightarrow> length r' < length r"
  by (cases r) (auto simp: br_uvarint_def uvarint_def split: if_splits prod.splits)

lemma br_str_shrinks: "br_str r = Inr (s, r') \<Longrightarrow> length r' < length r"
  by (auto simp: br_str_def rbind_Inr_iff split: if_splits dest!: br_uvarint_shrinks)

lemma br_label_shrinks: "br_label r = Inr (l, r') \<Longrightarrow> length r' < length r"
  by (auto simp: br_label_def rbind_Inr_iff dest!: br_str_shrinks)

lemma read_n_labels_shrinks: "read_n n br_label r = Inr (ls, r') \<Longrightarrow> length r' \<le> length r"
  by (induction n arbitrary: r ls) (fastforce simp: rbind_Inr_iff dest: br_label_shrinks)+

lemma readIndexRecord_shrinks: "readIndexRecord prev r = Inr (rec, r') \<Longrightarrow> length r' < length r"
  by (auto simp: readIndexRecord_def rbind_Inr_iff split: if_splits
      dest!: br_uvarint_shrinks read_n_labels_shrinks)

text \<open>
  The loop of \<open>readIndexSegment\<close>: the records passed to the callback, in order. An
  unexpected end of file stops the replay without an error.
\<close>

function decode_records :: "uint64 \<Rightarrow> byteReader \<Rightarrow> (uint64 \<times> Label list) list res" where
  "decode_records prev r =
     (if r = [] then Inr []
      else case readIndexRecord prev r of
        Inl e \<Rightarrow> (if e = ErrUnexpectedEOF then Inr [] else Inl e)
      | Inr (rec, r') \<Rightarrow> rbind (decode_records (fst rec) r') (\<lambda>recs. Inr (rec # recs)))"
  by pat_completeness auto
termination
  by (relation "measure (length \<circ> snd)") (auto dest: readIndexRecord_shrinks)

declare decode_records.simps [simp del]

definition decode_segment :: "bytes \<Rightarrow> (uint64 \<times> Label list) list res" where
  "decode_segment data =
     (if length data < length indexdbSegMagic
         \<or> take (length indexdbSegMagic) data \<noteq> indexdbSegMagic
      then Inl (ErrMsg ''bad magic'')
      else decode_records 0 (drop (length indexdbSegMagic) data))"

section \<open>Segment file names\<close>

text \<open>\<open>filepath.Ext\<close> of a name without slashes: from the last dot on.\<close>

definition Ext :: "string \<Rightarrow> string" where
  "Ext s = (if CHR ''.'' \<in> set s
            then CHR ''.'' # rev (takeWhile (\<lambda>c. c \<noteq> CHR ''.'') (rev s)) else [])"

definition indexSegmentName :: "int \<Rightarrow> string" where
  "indexSegmentName sq = sprintf06d sq @ ''.seg''"

text \<open>
  The selection of \<open>listIndexSegments\<close>: the directory's entries with their is-directory flag
  give the segment names, sorted as strings, and the leftover \<open>.tmp\<close> files to remove.
\<close>

definition segment_names :: "(string \<times> bool) list \<Rightarrow> string list" where
  "segment_names entries = sort [nm. (nm, isdir) \<leftarrow> entries, \<not> isdir, Ext nm = ''.seg'']"

definition segment_tmps :: "(string \<times> bool) list \<Rightarrow> string list" where
  "segment_tmps entries = [nm. (nm, isdir) \<leftarrow> entries, \<not> isdir, Ext nm = ''.tmp'']"

definition seq_after :: "string list \<Rightarrow> int res" where
  "seq_after nms =
     (if nms = [] then Inr 1
      else
        (let lst = last nms in
         case Atoi (take (length lst - length ''.seg'') lst) of
           None \<Rightarrow> Inl (ErrMsg ''bad segment name'')
         | Some n \<Rightarrow> Inr (goint (n + 1))))"

section \<open>Round trip and torn tails\<close>

definition string_ok :: "string \<Rightarrow> bool" where
  "string_ok s \<longleftrightarrow> length s < 2 ^ 64"

definition label_ok :: "Label \<Rightarrow> bool" where
  "label_ok l \<longleftrightarrow> string_ok (label_name l) \<and> string_ok (label_value l)"

definition record_ok :: "uint64 \<times> Label list \<Rightarrow> bool" where
  "record_ok rec \<longleftrightarrow> list_all label_ok (snd rec) \<and> length (snd rec) \<le> 2 ^ 43"

definition put_record :: "uint64 \<Rightarrow> uint64 \<times> Label list \<Rightarrow> bytes" where
  "put_record prev rec = append_uvarint (fst rec - prev) @
     append_uvarint (of_nat (length (snd rec))) @ concat (map put_label (snd rec))"

interpretation st: prefix_codec putString br_str string_ok
proof unfold_locales
  fix s rest
  assume "string_ok s"
  then have "unat (of_nat (length s) :: uint64) = length s"
    by (simp add: string_ok_def unat_of_nat_u64)
  then show "br_str (putString s @ rest) = Inr (s, rest)"
    by (simp add: br_str_def putString_def uv.dec_enc)
next
  fix s p
  assume "string_ok s" and torn: "strict_prefix p (putString s)"
  then have len: "unat (of_nat (length s) :: uint64) = length s"
    by (simp add: string_ok_def unat_of_nat_u64)
  from torn[unfolded putString_def] show "br_str p = Inl ErrUnexpectedEOF"
  proof (cases rule: strict_prefix_append_cases)
    case 1
    then show ?thesis by (simp add: br_str_def uv.dec_torn)
  next
    case (2 q)
    then have "length q < length s" by (auto dest: prefix_length_less)
    with 2(1) len show ?thesis by (simp add: br_str_def uv.dec_enc)
  qed
qed

interpretation st2: prefix_codec2 putString br_str string_ok putString br_str string_ok
  by unfold_locales

interpretation lb: prefix_codec put_label br_label label_ok
proof unfold_locales
  fix l rest
  assume "label_ok l"
  then show "br_label (put_label l @ rest) = Inr (l, rest)"
    using st2.pair_dec_enc[where f = Label and a = "label_name l" and b = "label_value l" and rest = rest]
    by (cases l) (simp add: label_ok_def br_label_def put_label_def)
next
  fix l p
  assume "label_ok l" and "strict_prefix p (put_label l)"
  then show "br_label p = Inl ErrUnexpectedEOF"
    using st2.pair_dec_torn[where f = Label and a = "label_name l" and b = "label_value l" and p = p]
    by (cases l) (simp add: label_ok_def br_label_def put_label_def)
qed

lemma record_count:
  assumes "record_ok rec"
  shows "unat (of_nat (length (snd rec)) :: uint64) = length (snd rec)"
    and "makeslice_ok 32 (of_nat (length (snd rec)))"
  using assms by (auto simp: record_ok_def intro!: unat_of_nat_u64 makeslice_ok_of_nat)

interpretation rc: prefix_codec "put_record prev" "readIndexRecord prev" record_ok for prev
proof unfold_locales
  fix rec rest
  assume ok: "record_ok rec"
  then have "list_all label_ok (snd rec)" by (simp add: record_ok_def)
  from lb.read_n_enc[OF this] record_count[OF ok]
  show "readIndexRecord prev (put_record prev rec @ rest) = Inr (rec, rest)"
    by (simp add: readIndexRecord_def put_record_def uv.dec_enc)
next
  fix rec p
  assume ok: "record_ok rec" and torn: "strict_prefix p (put_record prev rec)"
  then have ls: "list_all label_ok (snd rec)" by (simp add: record_ok_def)
  from torn[unfolded put_record_def] show "readIndexRecord prev p = Inl ErrUnexpectedEOF"
  proof (cases rule: strict_prefix_append_cases)
    case 1
    then show ?thesis by (simp add: readIndexRecord_def uv.dec_torn)
  next
    case q: (2 q)
    from q(2) show ?thesis
    proof (cases rule: strict_prefix_append_cases)
      case 1
      with q(1) show ?thesis by (simp add: readIndexRecord_def uv.dec_enc uv.dec_torn)
    next
      case (2 u)
      with q(1) lb.read_n_torn[OF ls 2(2)] record_count[OF ok] show ?thesis
        by (simp add: readIndexRecord_def uv.dec_enc)
    qed
  qed
qed

text \<open>The writer's first record is a delta from 0, so one chunk form covers all of them.\<close>

lemma encode_records_Cons:
  "(first \<longrightarrow> prev = 0) \<Longrightarrow>
   encode_records first prev (rec # recs) = put_record prev rec @ encode_records False (fst rec) recs"
  by (cases rec) (auto simp: put_record_def Let_def)

lemma put_record_nonempty [simp]: "put_record prev rec \<noteq> []"
  by (simp add: put_record_def)

lemma decode_records_nonempty:
  "r \<noteq> [] \<Longrightarrow> readIndexRecord prev r = Inr (rec, r') \<Longrightarrow>
   decode_records prev r = rbind (decode_records (fst rec) r') (\<lambda>recs. Inr (rec # recs))"
  by (subst decode_records.simps) simp

lemma decode_records_encode:
  "(first \<longrightarrow> prev = 0) \<Longrightarrow> list_all record_ok recs \<Longrightarrow>
   decode_records prev (encode_records first prev recs) = Inr recs"
proof (induction recs arbitrary: first prev)
  case Nil
  then show ?case by (simp add: decode_records.simps)
next
  case (Cons rec recs)
  then show ?case
    by (simp add: encode_records_Cons rc.dec_enc decode_records_nonempty del: encode_records.simps(2))
qed

text \<open>
  Replaying any prefix of the record area yields exactly the records it holds whole.
\<close>

lemma decode_records_torn:
  "(first \<longrightarrow> prev = 0) \<Longrightarrow> list_all record_ok recs \<Longrightarrow> prefix p (encode_records first prev recs) \<Longrightarrow>
   \<exists>k \<le> length recs. decode_records prev p = Inr (take k recs) \<and>
     prefix (encode_records first prev (take k recs)) p \<and>
     (k < length recs \<longrightarrow> \<not> prefix (encode_records first prev (take (Suc k) recs)) p)"
proof (induction recs arbitrary: first prev p)
  case Nil
  then show ?case by (simp add: decode_records.simps)
next
  case (Cons rec recs)
  let ?tail = "encode_records False (fst rec) recs"
  have enc: "encode_records first prev (rec # xs) = put_record prev rec @ encode_records False (fst rec) xs" for xs
    using Cons.prems(1) by (rule encode_records_Cons)
  show ?case
  proof (cases "prefix (put_record prev rec) p")
    case True
    then obtain q where p: "p = put_record prev rec @ q" by (auto simp: prefix_def)
    with Cons.prems(3) enc have q: "prefix q ?tail" by simp
    from Cons.prems(2) have "list_all record_ok recs" by simp
    from Cons.IH[OF _ this q] obtain k where k: "k \<le> length recs"
      "decode_records (fst rec) q = Inr (take k recs)"
      "prefix (encode_records False (fst rec) (take k recs)) q"
      "k < length recs \<longrightarrow> \<not> prefix (encode_records False (fst rec) (take (Suc k) recs)) q" by auto
    have "decode_records prev p = Inr (rec # take k recs)"
      using Cons.prems(2) p k(2) by (simp add: rc.dec_enc decode_records_nonempty)
    with k p show ?thesis by (intro exI[of _ "Suc k"]) (simp add: enc del: encode_records.simps(2))
  next
    case False
    with Cons.prems(3) enc have torn: "strict_prefix p (put_record prev rec)"
      by (auto simp: strict_prefix_def prefix_append)
    have "decode_records prev p = Inr []"
      using Cons.prems(2) rc.dec_torn[OF _ torn]
      by (cases "p = []") (simp_all add: decode_records.simps)
    with False show ?thesis by (intro exI[of _ 0]) (simp add: enc del: encode_records.simps(2))
  qed
qed

lemma map_fst_sorted_entries [simp]: "map fst (sorted_entries es) = sort (map fst es)"
  by (simp add: sorted_entries_def o_def)

lemma set_sorted_entries: "gm_wf es \<Longrightarrow> set (sorted_entries es) = set es"
  by (force simp: sorted_entries_def gm_get_def set_entries[symmetric] split: option.splits
      dest: map_of_SomeD map_of_is_SomeI)

lemma map_of_sorted_entries: "gm_wf es \<Longrightarrow> map_of (sorted_entries es) = map_of es"
  by (intro map_of_inject_set[THEN iffD2]) (simp_all add: set_sorted_entries)

lemma decode_segment_bytes:
  assumes "list_all record_ok (sorted_entries es)"
  shows "decode_segment (segment_bytes es) = Inr (sorted_entries es)"
  using decode_records_encode[OF _ assms, of True 0]
  by (simp add: decode_segment_def segment_bytes_def)

section \<open>Numbering of segments\<close>

lemma append_less_iff:
  "length xs = length ys \<Longrightarrow> xs @ us < ys @ us \<longleftrightarrow> xs < (ys :: 'a :: linorder list)"
  by (induction xs ys rule: list_induct2) auto

text \<open>Up to 999999 the names have one width, so that they sort as the numbers they spell.\<close>

lemma indexSegmentName_less_iff:
  assumes "0 \<le> a" "a < 10 ^ 6" "0 \<le> b" "b < (10 ^ 6 :: int)"
  shows "indexSegmentName a < indexSegmentName b \<longleftrightarrow> a < b"
proof -
  have n: "nat a < 10 ^ 6" "nat b < 10 ^ 6" using assms by (simp_all add: nat_less_iff)
  then show ?thesis
    using assms by (auto simp: indexSegmentName_def sprintf06d_def append_less_iff length_fmt06d fmt06d_less_iff)
qed

lemma last_sorted_Max: "xs \<noteq> [] \<Longrightarrow> sorted xs \<Longrightarrow> last xs = Max (set xs)"
proof (induction xs rule: rev_induct)
  case (snoc x xs)
  then show ?case by (intro Max_eqI[symmetric]) (auto simp: sorted_append)
qed simp

lemma Atoi_segment:
  "0 \<le> n \<Longrightarrow> n < 2 ^ 63 \<Longrightarrow>
   Atoi (take (length (indexSegmentName n) - length ''.seg'') (indexSegmentName n)) = Some n"
  by (simp add: indexSegmentName_def Atoi_sprintf06d)

lemma seq_after_last:
  assumes "sorted nms" and "set nms = indexSegmentName ` S" and "m \<in> S" and "0 \<le> m" and "m < 2 ^ 63 - 1"
    and "\<And>n. n \<in> S \<Longrightarrow> indexSegmentName n \<le> indexSegmentName m"
  shows "seq_after nms = Inr (m + 1)"
proof -
  have ne: "nms \<noteq> []" using assms(2,3) by auto
  have "last nms = Max (set nms)" by (rule last_sorted_Max[OF ne assms(1)])
  also have "\<dots> = indexSegmentName m"
    by (intro Max_eqI List.finite_set) (use assms(2,3,6) in auto)
  finally have l: "last nms = indexSegmentName m" .
  have "goint (m + 1) = m + 1" using assms(4,5) by (intro goint_id) simp_all
  then show ?thesis
    unfolding seq_after_def Let_def l using Atoi_segment[of m] assms(4,5) ne by simp
qed

lemma seq_after_Max:
  assumes "sorted nms" and "set nms = indexSegmentName ` S" and "S \<noteq> {}" and "finite S"
    and "\<And>n. n \<in> S \<Longrightarrow> 0 < n \<and> n < 10 ^ 6"
  shows "seq_after nms = Inr (Max S + 1)"
proof (rule seq_after_last[OF assms(1,2)])
  show m: "Max S \<in> S" using assms(3,4) by simp
  show "0 \<le> Max S" "Max S < 2 ^ 63 - 1" using assms(5)[OF m] by simp_all
  fix n assume n: "n \<in> S"
  then have "n \<le> Max S" using assms(4) by simp
  then show "indexSegmentName n \<le> indexSegmentName (Max S)"
    using indexSegmentName_less_iff[of "Max S" n] assms(5)[OF n] assms(5)[OF m] by (simp add: not_less[symmetric])
qed

lemma fmt06d_million: "fmt06d 1000000 = ''1000000''" "fmt06d 999999 = ''999999''"
proof -
  have "digit_char 0 = CHR ''0''" "digit_char (Suc 0) = CHR ''1''" "digit_char 9 = CHR ''9''"
    by code_simp+
  then show "fmt06d 1000000 = ''1000000''" "fmt06d 999999 = ''999999''"
    by (simp_all add: fmt06d_def dec_string.simps zpad_def)
qed

text \<open>From 1000000 on they do not, and the name of the last segment is handed out again.\<close>

lemma seq_after_million:
  assumes "sorted nms" and "set nms = indexSegmentName ` S" and "S \<subseteq> {1..1000000}" and "999999 \<in> S"
  shows "seq_after nms = Inr 1000000"
proof -
  have "seq_after nms = Inr (999999 + 1)"
  proof (rule seq_after_last[OF assms(1,2,4)])
    fix n assume "n \<in> S"
    then consider "0 < n" "n \<le> 999999" | "n = 1000000" using assms(3) by force
    then show "indexSegmentName n \<le> indexSegmentName 999999"
    proof cases
      case 1
      then show ?thesis using indexSegmentName_less_iff[of 999999 n] by (simp add: not_less[symmetric])
    next
      case 2
      have "indexSegmentName 1000000 = ''1000000.seg''" "indexSegmentName 999999 = ''999999.seg''"
        by (simp_all add: indexSegmentName_def sprintf06d_def fmt06d_million)
      then have "indexSegmentName 1000000 \<le> indexSegmentName 999999"
        by (simp add: less_char_def)
      then show ?thesis using 2 by simp
    qed
  qed simp_all
  then show ?thesis by simp
qed

end
