(* ===== verification/FileSystem.thy ===== *)
theory FileSystem
  imports Prelude
begin

text \<open>
  The part of the \<open>os\<close> package the storage engine uses, over a tree of directories and files,
  with the two things the engine must survive: a system call may fail at any point, possibly
  half done, and the runtime chooses the order in which a map is visited and in which an
  unstable sort leaves equal keys.

  A path is the list of its components and \<open>[]\<close> the root, which is always a directory.
  A file holds bytes or the JSON text of a value (\<open>'j\<close>, the documents the program marshals):
  \<open>json.Unmarshal\<close> gives the marshalled value back and rejects anything else.

  The world counts the system calls and has a fault for each of them. A crash before the
  \<open>k\<close>-th call is the schedule in which every call from the \<open>k\<close>-th on fails, since the program
  changes no file any more; a statement for every schedule covers all crashes and all failing
  disks. A completed call is durable: what a power loss does to the page cache is not modelled.
\<close>

section \<open>Files and directories\<close>

type_synonym path = "string list"

datatype 'j content = Bytes bytes | Json 'j

datatype 'j node = Dir | File "'j content"

type_synonym 'j fs = "(path, 'j node) gomap"

definition lookup :: "'j fs \<Rightarrow> path \<Rightarrow> 'j node option" where
  "lookup fs p = (if p = [] then Some Dir else map_of fs p)"

definition children :: "'j fs \<Rightarrow> path \<Rightarrow> (string \<times> bool) list" where
  "children fs p =
     map (\<lambda>nm. (nm, lookup fs (p @ [nm]) = Some Dir))
       (sort (remdups [last q. (q, nd) \<leftarrow> fs, q \<noteq> [] \<and> butlast q = p]))"

text \<open>The error of a path that does not exist: a file among its ancestors is \<open>ENOTDIR\<close>.\<close>

definition missing_err :: "'j fs \<Rightarrow> path \<Rightarrow> goerr" where
  "missing_err fs p =
     (if list_all (\<lambda>q. case lookup fs q of Some (File c) \<Rightarrow> False | _ \<Rightarrow> True) (prefixes p)
      then ErrNotExist else ErrIO)"

definition subtree_move :: "path \<Rightarrow> path \<Rightarrow> 'j fs \<Rightarrow> 'j fs" where
  "subtree_move src dst fs =
     [(dst @ drop (length src) q, nd). (q, nd) \<leftarrow> fs, prefix src q]
       @ filter (\<lambda>(q, nd). \<not> prefix src q \<and> \<not> prefix dst q) fs"

definition subtree_delete :: "path \<Rightarrow> 'j fs \<Rightarrow> 'j fs" where
  "subtree_delete p fs = filter (\<lambda>(q, nd). \<not> prefix p q) fs"

definition make_dirs :: "path \<Rightarrow> 'j fs \<Rightarrow> 'j fs" where
  "make_dirs p fs =
     foldl (\<lambda>fs q. if lookup fs q = None then AList.update q Dir fs else fs) fs (prefixes p)"

lemma lookup_Nil [simp]: "lookup fs [] = Some Dir"
  by (simp add: lookup_def)

lemma lookup_update [simp]:
  "p \<noteq> [] \<Longrightarrow> lookup (AList.update p nd fs) q = (if q = p then Some nd else lookup fs q)"
  by (simp add: lookup_def)

lemma lookup_subtree_delete:
  "p \<noteq> [] \<Longrightarrow> lookup (subtree_delete p fs) q = (if prefix p q then None else lookup fs q)"
proof -
  have "map_of (filter (\<lambda>(q, nd). \<not> prefix p q) fs) q = (if prefix p q then None else map_of fs q)"
    by (induction fs) auto
  then show "p \<noteq> [] \<Longrightarrow> ?thesis" by (auto simp: lookup_def subtree_delete_def)
qed

lemma lookup_subtree_move:
  assumes "src \<noteq> []" and "dst \<noteq> []"
  shows "lookup (subtree_move src dst fs) q =
    (if prefix dst q then
       (case lookup fs (src @ drop (length dst) q) of
          None \<Rightarrow> None | Some nd \<Rightarrow> Some nd)
     else if prefix src q then None else lookup fs q)"
proof -
  have moved: "map_of [(dst @ drop (length src) q, nd). (q, nd) \<leftarrow> fs, prefix src q] k =
      (if prefix dst k then map_of fs (src @ drop (length dst) k) else None)" for k
    by (induction fs) (auto simp: prefix_def)
  have rest: "map_of (filter (\<lambda>(q, nd). \<not> prefix src q \<and> \<not> prefix dst q) fs) k =
      (if prefix src k \<or> prefix dst k then None else map_of fs k)" for k
    by (induction fs) auto
  show ?thesis
    using assms by (auto simp: lookup_def subtree_move_def map_add_def moved rest split: option.splits)
qed

lemma lookup_make_dirs_list:
  "lookup (foldl (\<lambda>fs q. if lookup fs q = None then AList.update q Dir fs else fs) fs ps) q =
   (case lookup fs q of None \<Rightarrow> if q \<in> set ps then Some Dir else None | Some nd \<Rightarrow> Some nd)"
proof (induction ps arbitrary: fs)
  case Nil
  then show ?case by (simp split: option.splits)
next
  case (Cons p ps)
  then show ?case by (cases "p = []") (auto simp: Cons split: option.splits)
qed

lemma lookup_make_dirs:
  "lookup (make_dirs p fs) q =
   (case lookup fs q of None \<Rightarrow> if prefix q p then Some Dir else None | Some nd \<Rightarrow> Some nd)"
  unfolding make_dirs_def lookup_make_dirs_list by simp

section \<open>The world\<close>

text \<open>
  \<open>Fail\<close>: the call fails and has no effect. \<open>Torn n\<close>: a write fails after \<open>n\<close> bytes.
  \<open>Partial keep\<close>: \<open>RemoveAll\<close> fails and leaves the entries of \<open>keep\<close> with their ancestors.
  \<open>w_perm\<close> is the runtime's choice of an order, by the time of the choice and the thing ordered.
\<close>

datatype fault = NoFault | Fail | Torn nat | Partial "path list"

record 'j world =
  w_fs :: "'j fs"
  w_clock :: nat
  w_fault :: "nat \<Rightarrow> fault"
  w_perm :: "nat \<Rightarrow> nat \<Rightarrow> nat \<Rightarrow> nat list"

definition healthy :: "'j world \<Rightarrow> bool" where
  "healthy w \<longleftrightarrow> (\<forall>k \<ge> w_clock w. w_fault w k = NoFault)"

definition quiet_world :: "'j fs \<Rightarrow> 'j world" where
  "quiet_world fs = \<lparr>w_fs = fs, w_clock = 0, w_fault = (\<lambda>_. NoFault), w_perm = (\<lambda>_ _ n. [0..<n])\<rparr>"

lemma quiet_world_simps [simp]:
  "w_fs (quiet_world fs) = fs" "w_clock (quiet_world fs) = 0" "w_fault (quiet_world fs) k = NoFault"
  "healthy (quiet_world fs)"
  by (simp_all add: quiet_world_def healthy_def)

text \<open>An arbitrary order of a list, the order of \<open>range\<close> over a map.\<close>

definition shuffle :: "'j world \<Rightarrow> nat \<Rightarrow> 'a list \<Rightarrow> 'a list" where
  "shuffle w salt xs =
     (let p = w_perm w (w_clock w) salt (length xs) in
      if sort p = [0..<length xs] then map ((!) xs) p else xs)"

lemma mset_shuffle [simp]: "mset (shuffle w salt xs) = mset xs"
proof (cases "sort (w_perm w (w_clock w) salt (length xs)) = [0..<length xs]")
  case True
  then have "mset (w_perm w (w_clock w) salt (length xs)) = mset [0..<length xs]"
    by (metis mset_sort)
  then have "mset (map ((!) xs) (w_perm w (w_clock w) salt (length xs))) = mset (map ((!) xs) [0..<length xs])"
    by (metis mset_map)
  then show ?thesis using True by (simp add: shuffle_def map_nth)
next
  case False
  then show ?thesis by (simp add: shuffle_def)
qed

lemma set_shuffle [simp]: "set (shuffle w salt xs) = set xs"
  by (metis mset_shuffle set_mset_mset)

lemma length_shuffle [simp]: "length (shuffle w salt xs) = length xs"
  by (metis mset_shuffle size_mset)

lemma distinct_shuffle [simp]: "distinct (shuffle w salt xs) = distinct xs"
  by (metis mset_shuffle mset_eq_imp_distinct_iff)

section \<open>Fallible computations with files\<close>

type_synonym ('j, 'a) io = "'j world \<Rightarrow> 'a res \<times> 'j world"

definition io_return :: "'a \<Rightarrow> ('j, 'a) io" where
  "io_return x = (\<lambda>w. (Inr x, w))"

definition io_fail :: "goerr \<Rightarrow> ('j, 'a) io" where
  "io_fail e = (\<lambda>w. (Inl e, w))"

definition io_lift :: "'a res \<Rightarrow> ('j, 'a) io" where
  "io_lift r = (\<lambda>w. (r, w))"

definition io_bind :: "('j, 'a) io \<Rightarrow> ('a \<Rightarrow> ('j, 'b) io) \<Rightarrow> ('j, 'b) io" where
  "io_bind m f = (\<lambda>w. case m w of (Inl e, w') \<Rightarrow> (Inl e, w') | (Inr x, w') \<Rightarrow> f x w')"

text \<open>\<open>if err := m; err != nil { h; return err }\<close>; a panic unwinds without running \<open>h\<close>.\<close>

definition is_panic :: "goerr \<Rightarrow> bool" where
  "is_panic e = (case e of Panic s \<Rightarrow> True | _ \<Rightarrow> False)"

definition io_on_error :: "('j, 'a) io \<Rightarrow> ('j, unit) io \<Rightarrow> ('j, 'a) io" where
  "io_on_error m h =
     (\<lambda>w. case m w of
        (Inl e, w') \<Rightarrow> (Inl e, if is_panic e then w' else snd (h w'))
      | (Inr x, w') \<Rightarrow> (Inr x, w'))"

text \<open>A call whose error is dropped.\<close>

definition io_ignore :: "('j, 'a) io \<Rightarrow> ('j, unit) io" where
  "io_ignore m = (\<lambda>w. (Inr (), snd (m w)))"

primrec io_each :: "('a \<Rightarrow> ('j, unit) io) \<Rightarrow> 'a list \<Rightarrow> ('j, unit) io" where
  "io_each f [] = io_return ()"
| "io_each f (x # xs) = io_bind (f x) (\<lambda>_. io_each f xs)"

primrec io_fold :: "('s \<Rightarrow> 'a \<Rightarrow> ('j, 's) io) \<Rightarrow> 's \<Rightarrow> 'a list \<Rightarrow> ('j, 's) io" where
  "io_fold f s [] = io_return s"
| "io_fold f s (x # xs) = io_bind (f s x) (\<lambda>s'. io_fold f s' xs)"

section \<open>System calls\<close>

definition sys :: "(fault \<Rightarrow> 'j fs \<Rightarrow> 'a res \<times> 'j fs) \<Rightarrow> ('j, 'a) io" where
  "sys f = (\<lambda>w. case f (w_fault w (w_clock w)) (w_fs w) of
     (r, fs') \<Rightarrow> (r, w\<lparr>w_fs := fs', w_clock := Suc (w_clock w)\<rparr>))"

definition mkdirAll :: "path \<Rightarrow> ('j, unit) io" where
  "mkdirAll p = sys (\<lambda>fault fs.
     if \<not> list_all (\<lambda>q. case lookup fs q of Some (File c) \<Rightarrow> False | _ \<Rightarrow> True) (prefixes p)
     then (Inl ErrIO, fs)
     else case fault of
       NoFault \<Rightarrow> (Inr (), make_dirs p fs)
     | Torn n \<Rightarrow> (Inl ErrIO, make_dirs (take n p) fs)
     | _ \<Rightarrow> (Inl ErrIO, fs))"

text \<open>\<open>os.ReadDir\<close> sorts the entries by name.\<close>

definition readDir :: "path \<Rightarrow> ('j, (string \<times> bool) list) io" where
  "readDir p = sys (\<lambda>fault fs.
     (if fault \<noteq> NoFault then Inl ErrIO
      else case lookup fs p of
        None \<Rightarrow> Inl (missing_err fs p)
      | Some (File c) \<Rightarrow> Inl ErrIO
      | Some Dir \<Rightarrow> Inr (children fs p), fs))"

definition readFile :: "path \<Rightarrow> ('j, 'j content) io" where
  "readFile p = sys (\<lambda>fault fs.
     (if fault \<noteq> NoFault then Inl ErrIO
      else case lookup fs p of
        None \<Rightarrow> Inl (missing_err fs p)
      | Some Dir \<Rightarrow> Inl ErrIO
      | Some (File c) \<Rightarrow> Inr c, fs))"

text \<open>A torn JSON text does not parse, unless all of it was written before the error.\<close>

primrec torn_content :: "nat \<Rightarrow> 'j content \<Rightarrow> 'j content" where
  "torn_content n (Bytes bs) = Bytes (take n bs)"
| "torn_content n (Json j) = (if n = 0 then Bytes [] else Json j)"

definition write_check :: "'j fs \<Rightarrow> path \<Rightarrow> goerr option" where
  "write_check fs p =
     (if p = [] \<or> lookup fs p = Some Dir then Some ErrIO
      else case lookup fs (butlast p) of
        None \<Rightarrow> Some (missing_err fs (butlast p))
      | Some (File c) \<Rightarrow> Some ErrIO
      | Some Dir \<Rightarrow> None)"

definition writeFile :: "path \<Rightarrow> 'j content \<Rightarrow> ('j, unit) io" where
  "writeFile p c = sys (\<lambda>fault fs.
     case write_check fs p of
       Some e \<Rightarrow> (Inl e, fs)
     | None \<Rightarrow>
         (case fault of
            NoFault \<Rightarrow> (Inr (), AList.update p (File c) fs)
          | Torn n \<Rightarrow> (Inl ErrIO, AList.update p (File (torn_content n c)) fs)
          | _ \<Rightarrow> (Inl ErrIO, fs)))"

text \<open>
  \<open>os.OpenFile(p, O_CREATE|O_WRONLY|O_TRUNC)\<close>, and then what one writes through a
  \<open>bufio.Writer\<close>: the file receives a prefix of the bytes when a flush of the buffer fails.
\<close>

definition createFile :: "path \<Rightarrow> ('j, unit) io" where
  "createFile p = sys (\<lambda>fault fs.
     case write_check fs p of
       Some e \<Rightarrow> (Inl e, fs)
     | None \<Rightarrow>
         if fault = NoFault then (Inr (), AList.update p (File (Bytes [])) fs) else (Inl ErrIO, fs))"

definition appendFile :: "path \<Rightarrow> bytes \<Rightarrow> ('j, unit) io" where
  "appendFile p bs = sys (\<lambda>fault fs.
     case lookup fs p of
       Some (File (Bytes old)) \<Rightarrow>
         (case fault of
            NoFault \<Rightarrow> (Inr (), AList.update p (File (Bytes (old @ bs))) fs)
          | Torn n \<Rightarrow> (Inl ErrIO, AList.update p (File (Bytes (old @ take n bs))) fs)
          | _ \<Rightarrow> (Inl ErrIO, fs))
     | _ \<Rightarrow> (Inl ErrIO, fs))"

text \<open>\<open>File.Sync\<close> and \<open>File.Close\<close>: no effect on the tree, but they may fail.\<close>

definition syncFile :: "path \<Rightarrow> ('j, unit) io" where
  "syncFile p = sys (\<lambda>fault fs. (if fault = NoFault then Inr () else Inl ErrIO, fs))"

definition closeFile :: "path \<Rightarrow> ('j, unit) io" where
  "closeFile p = sys (\<lambda>fault fs. (if fault = NoFault then Inr () else Inl ErrIO, fs))"

text \<open>
  \<open>os.Rename\<close> is atomic. It replaces a file by a file, and moves a directory with all it holds
  to a name that is free or an empty directory.
\<close>

definition rename :: "path \<Rightarrow> path \<Rightarrow> ('j, unit) io" where
  "rename src dst = sys (\<lambda>fault fs.
     if fault \<noteq> NoFault \<or> src = [] \<or> dst = [] then (Inl ErrIO, fs)
     else case lookup fs src of
       None \<Rightarrow> (Inl (missing_err fs src), fs)
     | Some nd \<Rightarrow>
         if src = dst then (Inr (), fs)
         else if lookup fs (butlast dst) \<noteq> Some Dir then (Inl ErrNotExist, fs)
         else if prefix src dst then (Inl ErrIO, fs)
         else (case lookup fs dst of
             None \<Rightarrow> (Inr (), subtree_move src dst fs)
           | Some Dir \<Rightarrow>
               if nd = Dir \<and> children fs dst = [] then (Inr (), subtree_move src dst fs)
               else (Inl ErrIO, fs)
           | Some (File c) \<Rightarrow>
               if nd = Dir then (Inl ErrIO, fs) else (Inr (), subtree_move src dst fs)))"

definition removeAll :: "path \<Rightarrow> ('j, unit) io" where
  "removeAll p = sys (\<lambda>fault fs.
     if p = [] then (Inl ErrIO, fs)
     else case fault of
       NoFault \<Rightarrow> (Inr (), subtree_delete p fs)
     | Partial keep \<Rightarrow>
         (Inl ErrIO, filter (\<lambda>(q, nd). prefix p q \<longrightarrow>
            list_ex (\<lambda>k. lookup fs k \<noteq> None \<and> prefix q k) keep) fs)
     | _ \<Rightarrow> (Inl ErrIO, fs))"

definition remove :: "path \<Rightarrow> ('j, unit) io" where
  "remove p = sys (\<lambda>fault fs.
     if fault \<noteq> NoFault \<or> p = [] then (Inl ErrIO, fs)
     else case lookup fs p of
       None \<Rightarrow> (Inl (missing_err fs p), fs)
     | Some Dir \<Rightarrow> if children fs p = [] then (Inr (), AList.delete p fs) else (Inl ErrIO, fs)
     | Some (File c) \<Rightarrow> (Inr (), AList.delete p fs))"

text \<open>
  \<open>File.ReadAt(buf, off)\<close> with \<open>len(buf) = n\<close> on the file's bytes: all of \<open>n\<close> or an error.
\<close>

definition readAt :: "bytes \<Rightarrow> nat \<Rightarrow> int64 \<Rightarrow> bytes res" where
  "readAt data n off =
     (if sint off < 0 then Inl (ErrMsg ''negative offset'')
      else if n = 0 then Inr []
      else if nat (sint off) + n \<le> length data then Inr (take n (drop (nat (sint off)) data))
      else Inl (ErrMsg ''EOF''))"

end
