(* ===== verification/FileLogic.thy ===== *)
theory FileLogic
  imports FileSystem
begin

text \<open>
  Reasoning about computations with files: what a computation may touch whatever fails
  (\<open>confined\<close>), what a successful call has done, and that a call on a healthy disk succeeds.
\<close>

named_theorems confined_rules \<open>computations that touch only what they are allowed to\<close>
named_theorems io_defs \<open>the combinators of fallible computations\<close>

lemmas io_combinators [io_defs] =
  io_return_def io_fail_def io_lift_def io_bind_def io_on_error_def io_ignore_def

section \<open>Running computations\<close>

lemma io_run:
  "io_return x w = (Inr x, w)"
  "io_fail e w = (Inl e, w)"
  "io_lift r w = (r, w)"
  "io_ignore m w = (Inr (), snd (m w))"
  by (simp_all add: io_defs)

lemma io_bind_run:
  "m w = (Inr x, w') \<Longrightarrow> io_bind m f w = f x w'"
  "m w = (Inl e, w') \<Longrightarrow> io_bind m f w = (Inl e, w')"
  by (simp_all add: io_bind_def)

lemma io_bind_Inr_iff:
  "io_bind m f w = (Inr y, w2) \<longleftrightarrow> (\<exists>x w1. m w = (Inr x, w1) \<and> f x w1 = (Inr y, w2))"
  by (auto simp: io_bind_def split: prod.splits sum.splits)

lemma io_bind_assoc: "io_bind (io_bind m f) g = io_bind m (\<lambda>x. io_bind (f x) g)"
  by (rule ext) (simp add: io_bind_def split: prod.splits sum.splits)

lemma io_on_error_Inr_iff:
  "io_on_error m h w = (Inr x, w') \<longleftrightarrow> m w = (Inr x, w')"
  by (auto simp: io_on_error_def split: prod.splits sum.splits)

lemma io_on_error_run: "m w = (Inr x, w') \<Longrightarrow> io_on_error m h w = (Inr x, w')"
  by (simp add: io_on_error_Inr_iff)

section \<open>What a computation may touch\<close>

definition env_same :: "'j world \<Rightarrow> 'j world \<Rightarrow> bool" where
  "env_same w w' \<longleftrightarrow> w_fault w' = w_fault w \<and> w_perm w' = w_perm w \<and> w_clock w \<le> w_clock w'"

lemma env_same_refl [simp]: "env_same w w"
  by (simp add: env_same_def)

lemma env_same_trans: "env_same w1 w2 \<Longrightarrow> env_same w2 w3 \<Longrightarrow> env_same w1 w3"
  by (auto simp: env_same_def)

lemma healthy_env: "healthy w \<Longrightarrow> env_same w w' \<Longrightarrow> healthy w'"
  by (auto simp: healthy_def env_same_def)

text \<open>Every directory on the way to \<open>d\<close> exists.\<close>

definition dirs_to :: "'j fs \<Rightarrow> path \<Rightarrow> bool" where
  "dirs_to fs d \<longleftrightarrow> (\<forall>q. prefix q d \<longrightarrow> lookup fs q = Some Dir)"

lemma dirs_to_self: "dirs_to fs d \<Longrightarrow> lookup fs d = Some Dir"
  by (simp add: dirs_to_def)

lemma dirs_to_prefix: "dirs_to fs d \<Longrightarrow> prefix e d \<Longrightarrow> dirs_to fs e"
  by (auto simp: dirs_to_def intro: prefix_order.trans)

lemma dirs_to_snoc: "dirs_to fs (d @ [x]) \<longleftrightarrow> dirs_to fs d \<and> lookup fs (d @ [x]) = Some Dir"
  by (auto simp: dirs_to_def)

text \<open>
  \<open>confined d P m\<close>: where the directories down to \<open>d\<close> exist, \<open>m\<close> keeps them and leaves every
  path outside \<open>P\<close> as it was, whatever faults happen.
\<close>

definition step_confined :: "path \<Rightarrow> (path \<Rightarrow> bool) \<Rightarrow> 'j world \<Rightarrow> 'j world \<Rightarrow> bool" where
  "step_confined d P w w' \<longleftrightarrow> env_same w w' \<and>
     (dirs_to (w_fs w) d \<longrightarrow> dirs_to (w_fs w') d \<and>
        (\<forall>q. \<not> P q \<longrightarrow> lookup (w_fs w') q = lookup (w_fs w) q))"

definition confined :: "path \<Rightarrow> (path \<Rightarrow> bool) \<Rightarrow> ('j, 'a) io \<Rightarrow> bool" where
  "confined d P m \<longleftrightarrow> (\<forall>w. step_confined d P w (snd (m w)))"

lemma step_confined_refl [simp]: "step_confined d P w w"
  by (simp add: step_confined_def)

lemma step_confined_trans:
  "step_confined d P w1 w2 \<Longrightarrow> step_confined d P w2 w3 \<Longrightarrow> step_confined d P w1 w3"
  by (auto simp: step_confined_def intro: env_same_trans)

lemma confinedD:
  assumes "confined d P m" and "m w = (r, w')" and "dirs_to (w_fs w) d"
  shows "dirs_to (w_fs w') d" and "\<not> P q \<Longrightarrow> lookup (w_fs w') q = lookup (w_fs w) q"
  using assms by (auto simp: confined_def step_confined_def dest!: spec[of _ w])

lemma confined_env: "confined d P m \<Longrightarrow> m w = (r, w') \<Longrightarrow> env_same w w'"
  by (auto simp: confined_def step_confined_def dest!: spec[of _ w])

lemma confined_mono: "confined d P m \<Longrightarrow> (\<And>q. P q \<Longrightarrow> Q q) \<Longrightarrow> confined d Q m"
  unfolding confined_def step_confined_def by blast

lemma confined_return [confined_rules]: "confined d P (io_return x)"
  and confined_fail [confined_rules]: "confined d P (io_fail e)"
  and confined_lift [confined_rules]: "confined d P (io_lift r)"
  by (simp_all add: confined_def io_run)

lemma confined_bind [confined_rules]:
  assumes "confined d P m" and "\<And>x. confined d P (f x)"
  shows "confined d P (io_bind m f)"
  unfolding confined_def
proof
  fix w
  obtain r w1 where m: "m w = (r, w1)" by (cases "m w")
  have "step_confined d P w w1" using assms(1) m by (metis confined_def snd_conv)
  moreover have "step_confined d P w1 (snd (f x w1))" for x using assms(2) by (simp add: confined_def)
  ultimately show "step_confined d P w (snd (io_bind m f w))"
    using m by (cases r) (auto simp: io_bind_def intro: step_confined_trans)
qed

lemma confined_on_error [confined_rules]:
  assumes "confined d P m" and "confined d P h"
  shows "confined d P (io_on_error m h)"
  unfolding confined_def
proof
  fix w
  obtain r w1 where m: "m w = (r, w1)" by (cases "m w")
  have "step_confined d P w w1" using assms(1) m by (metis confined_def snd_conv)
  moreover have "step_confined d P w1 (snd (h w1))" using assms(2) by (simp add: confined_def)
  ultimately show "step_confined d P w (snd (io_on_error m h w))"
    using m by (cases r) (auto simp: io_on_error_def intro: step_confined_trans)
qed

lemma confined_ignore [confined_rules]: "confined d P m \<Longrightarrow> confined d P (io_ignore m)"
  by (simp add: confined_def io_run)

lemma confined_each [confined_rules]:
  "(\<And>x. x \<in> set xs \<Longrightarrow> confined d P (f x)) \<Longrightarrow> confined d P (io_each f xs)"
  by (induction xs) (auto intro!: confined_rules)

lemma confined_fold [confined_rules]:
  "(\<And>x s. x \<in> set xs \<Longrightarrow> confined d P (f s x)) \<Longrightarrow> confined d P (io_fold f s xs)"
  by (induction xs arbitrary: s) (auto intro!: confined_rules)

lemma confined_if [confined_rules]:
  "(b \<Longrightarrow> confined d P m) \<Longrightarrow> (\<not> b \<Longrightarrow> confined d P m') \<Longrightarrow> confined d P (if b then m else m')"
  by simp

subsection \<open>System calls\<close>

lemma sys_run:
  "sys f w = (fst (f (w_fault w (w_clock w)) (w_fs w)),
     w\<lparr>w_fs := snd (f (w_fault w (w_clock w)) (w_fs w)), w_clock := Suc (w_clock w)\<rparr>)"
  by (simp add: sys_def split: prod.splits)

lemma confined_sys:
  assumes "\<And>fault fs. dirs_to fs d \<Longrightarrow>
     dirs_to (snd (f fault fs)) d \<and> (\<forall>q. \<not> P q \<longrightarrow> lookup (snd (f fault fs)) q = lookup fs q)"
  shows "confined d P (sys f)"
  using assms by (simp add: confined_def step_confined_def sys_run env_same_def)

lemma confined_pure_sys: "(\<And>fault fs. snd (f fault fs) = fs) \<Longrightarrow> confined d P (sys f)"
  by (rule confined_sys) simp

lemma confined_readDir [confined_rules]: "confined d P (readDir p)"
  and confined_readFile [confined_rules]: "confined d P (readFile p)"
  and confined_syncFile [confined_rules]: "confined d P (syncFile p)"
  and confined_closeFile [confined_rules]: "confined d P (closeFile p)"
  unfolding readDir_def readFile_def syncFile_def closeFile_def
  by (rule confined_pure_sys, simp)+

lemma put_file_dirs [intro]:
  "lookup fs p \<noteq> Some Dir \<Longrightarrow> dirs_to fs d \<Longrightarrow> dirs_to (AList.update p nd fs) d"
  by (cases "p = []") (auto simp: dirs_to_def)

lemma put_file_other [intro]:
  "lookup fs p \<noteq> Some Dir \<Longrightarrow> P p \<Longrightarrow> \<not> P q \<Longrightarrow> lookup (AList.update p nd fs) q = lookup fs q"
  by (cases "p = []") auto

lemma write_check_None:
  "write_check fs p = None \<longleftrightarrow>
     p \<noteq> [] \<and> lookup fs p \<noteq> Some Dir \<and> lookup fs (butlast p) = Some Dir"
  by (auto simp: write_check_def split: option.splits node.splits)

lemma confined_writeFile [confined_rules]: "P p \<Longrightarrow> confined d P (writeFile p c)"
  unfolding writeFile_def
  by (rule confined_sys)
    (auto split: option.splits fault.splits simp: write_check_None)

lemma confined_createFile [confined_rules]: "P p \<Longrightarrow> confined d P (createFile p)"
  unfolding createFile_def
  by (rule confined_sys)
    (auto split: option.splits simp: write_check_None)

lemma confined_appendFile [confined_rules]: "P p \<Longrightarrow> confined d P (appendFile p bs)"
  unfolding appendFile_def
  by (rule confined_sys)
    (auto split: option.splits node.splits content.splits fault.splits)

lemma dirs_to_move:
  assumes "src \<noteq> []" "dst \<noteq> []" "\<not> prefix src d" "\<not> prefix dst d" "dirs_to fs d"
  shows "dirs_to (subtree_move src dst fs) d"
proof -
  have "\<not> prefix src q" "\<not> prefix dst q" if "prefix q d" for q
    using that assms(3,4) by (auto intro: prefix_order.trans)
  then show ?thesis using assms by (simp add: dirs_to_def lookup_subtree_move)
qed

lemma confined_rename [confined_rules]:
  assumes "\<not> prefix src d" and "\<not> prefix dst d"
    and "\<And>q. prefix src q \<Longrightarrow> P q" and "\<And>q. prefix dst q \<Longrightarrow> P q"
  shows "confined d P (rename src dst)"
proof -
  have mv: "dirs_to (subtree_move src dst fs) d \<and>
      (\<forall>q. \<not> P q \<longrightarrow> lookup (subtree_move src dst fs) q = lookup fs q)"
    if "src \<noteq> []" "dst \<noteq> []" "dirs_to fs d" for fs :: "'a fs"
    using that assms(3,4) dirs_to_move[OF that(1,2) assms(1,2) that(3)]
    by (auto simp: lookup_subtree_move)
  show ?thesis
    unfolding rename_def
    by (rule confined_sys) (auto split: option.splits node.splits simp: mv)
qed

lemma lookup_filter_keep:
  assumes "p \<noteq> []" and "\<not> prefix p q"
  shows "lookup (filter (\<lambda>(q, nd). prefix p q \<longrightarrow> R q) fs) q = lookup fs q"
proof -
  have "map_of (filter (\<lambda>(q, nd). prefix p q \<longrightarrow> R q) fs) q = map_of fs q"
    using assms(2) by (induction fs) auto
  then show ?thesis by (simp add: lookup_def)
qed

lemma confined_removeAll [confined_rules]:
  assumes "\<not> prefix p d" and "\<And>q. prefix p q \<Longrightarrow> P q"
  shows "confined d P (removeAll p)"
proof -
  have nd: "\<not> prefix p q" if "prefix q d" for q
    using that assms(1) by (auto intro: prefix_order.trans)
  have np: "\<not> prefix p q" if "\<not> P q" for q
    using that assms(2) by blast
  show ?thesis
    unfolding removeAll_def
    by (rule confined_sys)
      (use nd np in \<open>auto split: fault.splits simp: dirs_to_def lookup_filter_keep lookup_subtree_delete\<close>)
qed

lemma lookup_delete: "p \<noteq> [] \<Longrightarrow> lookup (AList.delete p fs) q = (if q = p then None else lookup fs q)"
  by (simp add: lookup_def)

lemma confined_remove [confined_rules]:
  assumes "\<not> prefix p d" and "P p"
  shows "confined d P (remove p)"
proof -
  have "p \<noteq> q" if "prefix q d" for q using that assms(1) by auto
  then show ?thesis
    unfolding remove_def
    by (intro confined_sys)
      (use assms(2) in \<open>auto split: option.splits node.splits simp: dirs_to_def lookup_delete\<close>)
qed

lemma confined_mkdirAll [confined_rules]:
  assumes "prefix d p" and "\<And>q. prefix q p \<Longrightarrow> \<not> prefix q d \<Longrightarrow> P q"
  shows "confined d P (mkdirAll p)"
proof -
  have mk: "dirs_to (make_dirs p' fs) d \<and> (\<forall>q. \<not> P q \<longrightarrow> lookup (make_dirs p' fs) q = lookup fs q)"
    if "dirs_to fs d" and "prefix p' p" for fs :: "'a fs" and p'
  proof
    show "dirs_to (make_dirs p' fs) d"
      using that(1) by (simp add: dirs_to_def lookup_make_dirs)
    have "lookup (make_dirs p' fs) q = lookup fs q" if "\<not> P q" for q
    proof (cases "prefix q p'")
      case True
      then have "prefix q d" using assms(2)[of q] that \<open>prefix p' p\<close> by (auto intro: prefix_order.trans)
      then show ?thesis using \<open>dirs_to fs d\<close> by (simp add: dirs_to_def lookup_make_dirs)
    next
      case False
      then show ?thesis by (simp add: lookup_make_dirs split: option.splits)
    qed
    then show "\<forall>q. \<not> P q \<longrightarrow> lookup (make_dirs p' fs) q = lookup fs q" by blast
  qed
  show ?thesis
    unfolding mkdirAll_def
    by (rule confined_sys) (use mk in \<open>auto split: fault.splits simp: take_is_prefix\<close>)
qed

section \<open>Computations that only read\<close>

text \<open>
  \<open>yields fs m Q\<close>: run on the file system \<open>fs\<close>, \<open>m\<close> changes no file, its result satisfies \<open>Q\<close>
  unless a system call failed (then it is \<open>ErrIO\<close>), and on a healthy disk it satisfies \<open>Q\<close>.
\<close>

definition yields :: "'j fs \<Rightarrow> ('j, 'a) io \<Rightarrow> ('a res \<Rightarrow> bool) \<Rightarrow> bool" where
  "yields fs m Q \<longleftrightarrow> (\<forall>w r w'. w_fs w = fs \<longrightarrow> m w = (r, w') \<longrightarrow>
     w_fs w' = fs \<and> env_same w w' \<and> (Q r \<or> r = Inl ErrIO) \<and> (healthy w \<longrightarrow> Q r))"

named_theorems yields_rules \<open>what a reading computation yields\<close>

lemma yieldsD:
  assumes "yields (w_fs w) m Q" and "m w = (r, w')"
  shows "w_fs w' = w_fs w" and "env_same w w'" and "Q r \<or> r = Inl ErrIO" and "healthy w \<Longrightarrow> Q r"
  using assms unfolding yields_def by blast+

lemma yields_Inr: "yields (w_fs w) m Q \<Longrightarrow> m w = (Inr x, w') \<Longrightarrow> Q (Inr x)"
  using yieldsD(3)[of w m Q "Inr x" w'] by simp

lemma yields_mono: "yields fs m Q \<Longrightarrow> (\<And>r. Q r \<Longrightarrow> R r) \<Longrightarrow> yields fs m R"
  unfolding yields_def by blast

lemma yields_return [yields_rules]: "Q (Inr x) \<Longrightarrow> yields fs (io_return x) Q"
  and yields_fail [yields_rules]: "Q (Inl e) \<Longrightarrow> yields fs (io_fail e) Q"
  and yields_lift [yields_rules]: "Q r \<Longrightarrow> yields fs (io_lift r) Q"
  by (simp_all add: yields_def io_run)

lemma yields_bind:
  assumes m: "yields fs m Q" and f: "\<And>x. Q (Inr x) \<Longrightarrow> yields fs (f x) R"
    and e: "\<And>e. Q (Inl e) \<Longrightarrow> R (Inl e)"
  shows "yields fs (io_bind m f) R"
  unfolding yields_def
proof (intro allI impI)
  fix w r w'
  assume w: "w_fs w = fs" and run: "io_bind m f w = (r, w')"
  obtain r1 w1 where m1: "m w = (r1, w1)" by (cases "m w")
  note q = yieldsD[OF m[folded w] m1]
  show "w_fs w' = fs \<and> env_same w w' \<and> (R r \<or> r = Inl ErrIO) \<and> (healthy w \<longrightarrow> R r)"
  proof (cases r1)
    case (Inl er)
    then have "r = Inl er" "w' = w1" using run m1 by (simp_all add: io_bind_def)
    with q e[of er] Inl w show ?thesis by auto
  next
    case (Inr x)
    have "f x w1 = (r, w')" using run m1 Inr by (simp add: io_bind_def)
    moreover have "yields (w_fs w1) (f x) R" using f[of x] q(1,3) Inr w by simp
    ultimately show ?thesis
      using yieldsD[of w1 "f x" R r w'] q w by (auto intro: env_same_trans healthy_env)
  qed
qed

lemma yields_bind_eq:
  "yields fs m (\<lambda>r. r = Inr x) \<Longrightarrow> yields fs (f x) R \<Longrightarrow> yields fs (io_bind m f) R"
  by (erule yields_bind) auto

lemma yields_bind_err:
  "yields fs m (\<lambda>r. r = Inl e) \<Longrightarrow> R (Inl e) \<Longrightarrow> yields fs (io_bind m f) R"
  by (erule yields_bind) auto

lemma yields_world: "(\<And>w0. yields fs (f w0) Q) \<Longrightarrow> yields fs (\<lambda>w. f w w) Q"
  by (simp add: yields_def)

lemma yields_readFile [yields_rules]:
  "lookup fs p = Some (File c) \<Longrightarrow> yields fs (readFile p) (\<lambda>r. r = Inr c)"
  by (auto simp: yields_def readFile_def sys_def env_same_def healthy_def)

lemma yields_fold:
  assumes "I [] s"
    and "\<And>ys x zs s. xs = ys @ x # zs \<Longrightarrow> I ys s \<Longrightarrow>
      yields fs (f s x) (\<lambda>r. \<exists>s'. r = Inr s' \<and> I (ys @ [x]) s')"
  shows "yields fs (io_fold f s xs) (\<lambda>r. \<exists>s'. r = Inr s' \<and> I xs s')"
  using assms
proof (induction xs arbitrary: I s)
  case Nil
  then show ?case by (auto intro: yields_return)
next
  case (Cons x xs)
  have "yields fs (f s x) (\<lambda>r. \<exists>s'. r = Inr s' \<and> I ([] @ [x]) s')"
    by (rule Cons.prems(2)[of "[]" x xs]) (use Cons.prems(1) in simp_all)
  moreover have "yields fs (io_fold f s' xs) (\<lambda>r. \<exists>s''. r = Inr s'' \<and> I (x # xs) s'')" if "I [x] s'" for s'
  proof (rule Cons.IH[of "\<lambda>ys. I (x # ys)"])
    show "I [x] s'" by (rule that)
    fix ys y zs s
    assume "xs = ys @ y # zs" and "I (x # ys) s"
    then show "yields fs (f s y) (\<lambda>r. \<exists>s'. r = Inr s' \<and> I (x # ys @ [y]) s')"
      using Cons.prems(2)[of "x # ys" y zs s] by simp
  qed
  ultimately show ?case unfolding io_fold.simps by (elim yields_bind) auto
qed

text \<open>\<open>reads_only m\<close>: \<open>m\<close> changes no file, whatever it finds.\<close>

definition reads_only :: "('j, 'a) io \<Rightarrow> bool" where
  "reads_only m \<longleftrightarrow> (\<forall>w. w_fs (snd (m w)) = w_fs w \<and> env_same w (snd (m w)))"

lemma reads_onlyD: "reads_only m \<Longrightarrow> m w = (r, w') \<Longrightarrow> w_fs w' = w_fs w \<and> env_same w w'"
  by (metis reads_only_def snd_conv)

lemma reads_only_simps [yields_rules]:
  "reads_only (io_return x)" "reads_only (io_fail e)" "reads_only (io_lift r)"
  "reads_only (readFile p)" "reads_only (readDir p)"
  by (simp_all add: reads_only_def io_run readFile_def readDir_def sys_run env_same_def)

lemma reads_only_bind [yields_rules]:
  assumes "reads_only m" and "\<And>x. reads_only (f x)"
  shows "reads_only (io_bind m f)"
  unfolding reads_only_def
proof
  fix w
  obtain r w1 where m: "m w = (r, w1)" by (cases "m w")
  have "w_fs (snd (f x w1)) = w_fs w1 \<and> env_same w1 (snd (f x w1))" for x
    using assms(2) by (simp add: reads_only_def)
  then show "w_fs (snd (io_bind m f w)) = w_fs w \<and> env_same w (snd (io_bind m f w))"
    using reads_onlyD[OF assms(1) m] m
    by (cases r) (auto simp: io_bind_def intro: env_same_trans)
qed

lemma reads_only_fold [yields_rules]:
  "(\<And>s x. reads_only (f s x)) \<Longrightarrow> reads_only (io_fold f s xs)"
  by (induction xs arbitrary: s) (auto intro!: yields_rules)

lemma reads_only_world: "(\<And>w0. reads_only (f w0)) \<Longrightarrow> reads_only (\<lambda>w. f w w)"
  by (simp add: reads_only_def)

lemma reads_only_confined: "reads_only m \<Longrightarrow> confined d P m"
  by (simp add: reads_only_def confined_def step_confined_def)

section \<open>What a successful call has done\<close>

lemma sys_Inr:
  "sys f w = (Inr x, w') \<longleftrightarrow>
     (\<exists>fs'. f (w_fault w (w_clock w)) (w_fs w) = (Inr x, fs') \<and>
       w' = w\<lparr>w_fs := fs', w_clock := Suc (w_clock w)\<rparr>)"
  by (auto simp: sys_def split: prod.splits)

lemma writeFile_Inr:
  "writeFile p c w = (Inr u, w') \<Longrightarrow>
   p \<noteq> [] \<and> w_fs w' = AList.update p (File c) (w_fs w)"
  by (auto simp: writeFile_def sys_Inr write_check_None split: option.splits fault.splits)

lemma rename_Inr:
  "rename src dst w = (Inr u, w') \<Longrightarrow>
   src \<noteq> [] \<and> dst \<noteq> [] \<and> lookup (w_fs w) src \<noteq> None \<and>
   w_fs w' = (if src = dst then w_fs w else subtree_move src dst (w_fs w))"
  by (auto simp: rename_def sys_Inr split: option.splits if_splits node.splits)

lemma readFile_Inr:
  "readFile p w = (Inr c, w') \<Longrightarrow> lookup (w_fs w) p = Some (File c) \<and> w_fs w' = w_fs w"
  by (auto simp: readFile_def sys_Inr split: option.splits if_splits node.splits)

lemma readFile_fs [simp]: "w_fs (snd (readFile p w)) = w_fs w"
  by (simp add: readFile_def sys_run)

lemma readDir_fs [simp]: "w_fs (snd (readDir p w)) = w_fs w"
  by (simp add: readDir_def sys_run)

section \<open>Calls on a healthy disk succeed\<close>

lemma healthy_now: "healthy w \<Longrightarrow> w_fault w (w_clock w) = NoFault"
  by (simp add: healthy_def)

definition ticked :: "'j world \<Rightarrow> 'j fs \<Rightarrow> 'j world" where
  "ticked w fs = w\<lparr>w_fs := fs, w_clock := Suc (w_clock w)\<rparr>"

lemma ticked_simps [simp]:
  "w_fs (ticked w fs) = fs" "w_clock (ticked w fs) = Suc (w_clock w)"
  "w_fault (ticked w fs) = w_fault w" "w_perm (ticked w fs) = w_perm w"
  "healthy w \<Longrightarrow> healthy (ticked w fs)" "env_same w (ticked w fs)"
  by (simp_all add: ticked_def healthy_def env_same_def)

lemma writeFile_healthy:
  "healthy w \<Longrightarrow> p \<noteq> [] \<Longrightarrow> lookup (w_fs w) p \<noteq> Some Dir \<Longrightarrow>
   lookup (w_fs w) (butlast p) = Some Dir \<Longrightarrow>
   writeFile p c w = (Inr (), ticked w (AList.update p (File c) (w_fs w)))"
  by (simp add: writeFile_def sys_def healthy_now write_check_None[THEN iffD2] ticked_def)

lemma readFile_healthy:
  "healthy w \<Longrightarrow> lookup (w_fs w) p = Some (File c) \<Longrightarrow> readFile p w = (Inr c, ticked w (w_fs w))"
  by (simp add: readFile_def sys_def healthy_now ticked_def)

lemma readFile_missing:
  "healthy w \<Longrightarrow> lookup (w_fs w) p = None \<Longrightarrow> dirs_to (w_fs w) (butlast p) \<Longrightarrow>
   readFile p w = (Inl ErrNotExist, ticked w (w_fs w))"
proof -
  assume a: "healthy w" "lookup (w_fs w) p = None" "dirs_to (w_fs w) (butlast p)"
  have "missing_err (w_fs w) p = ErrNotExist"
  proof -
    have "(case lookup (w_fs w) q of Some (File c) \<Rightarrow> False | _ \<Rightarrow> True)" if "prefix q p" for q
    proof (cases "q = p")
      case False
      then have "prefix q (butlast p)"
        using that by (metis append_butlast_last_id prefix_bot.extremum prefix_order.eq_iff prefix_snoc)
      then show ?thesis using a(3) by (simp add: dirs_to_def)
    qed (simp add: a(2))
    then show ?thesis by (simp add: missing_err_def list_all_iff)
  qed
  then show ?thesis using a by (simp add: readFile_def sys_def healthy_now ticked_def)
qed

lemma mkdirAll_healthy:
  "healthy w \<Longrightarrow> (\<And>q c. prefix q p \<Longrightarrow> lookup (w_fs w) q \<noteq> Some (File c)) \<Longrightarrow>
   mkdirAll p w = (Inr (), ticked w (make_dirs p (w_fs w)))"
  by (auto simp: mkdirAll_def sys_def healthy_now ticked_def list_all_iff
      split: option.splits node.splits)

lemma dirs_to_make_dirs:
  "(\<And>q c. prefix q p \<Longrightarrow> lookup fs q \<noteq> Some (File c)) \<Longrightarrow> dirs_to (make_dirs p fs) p"
proof -
  assume nf: "\<And>q c. prefix q p \<Longrightarrow> lookup fs q \<noteq> Some (File c)"
  have "lookup (make_dirs p fs) q = Some Dir" if "prefix q p" for q
  proof (cases "lookup fs q")
    case None
    then show ?thesis using that by (simp add: lookup_make_dirs)
  next
    case (Some nd)
    then show ?thesis using nf[OF that] by (cases nd) (simp_all add: lookup_make_dirs)
  qed
  then show ?thesis by (simp add: dirs_to_def)
qed

lemma mkdirAll_Inr: "mkdirAll p w = (Inr u, w') \<Longrightarrow> dirs_to (w_fs w') p"
proof -
  assume "mkdirAll p w = (Inr u, w')"
  then have l: "list_all (\<lambda>q. case lookup (w_fs w) q of Some (File c) \<Rightarrow> False | _ \<Rightarrow> True) (prefixes p)"
    and fs: "w_fs w' = make_dirs p (w_fs w)"
    by (auto simp: mkdirAll_def sys_Inr split: if_splits fault.splits)
  have "lookup (w_fs w) q \<noteq> Some (File c)" if "prefix q p" for q c
  proof
    assume f: "lookup (w_fs w) q = Some (File c)"
    have "q \<in> set (prefixes p)" using that by simp
    then have "case lookup (w_fs w) q of Some (File c) \<Rightarrow> False | _ \<Rightarrow> True"
      using l by (simp only: list_all_iff)
    then show False by (simp add: f)
  qed
  then show ?thesis unfolding fs by (rule dirs_to_make_dirs)
qed

lemma rename_healthy:
  "healthy w \<Longrightarrow> src \<noteq> [] \<Longrightarrow> dst \<noteq> [] \<Longrightarrow> src \<noteq> dst \<Longrightarrow> \<not> prefix src dst \<Longrightarrow>
   lookup (w_fs w) (butlast dst) = Some Dir \<Longrightarrow>
   (lookup (w_fs w) src = Some nd \<and> lookup (w_fs w) dst = None) \<or>
   (lookup (w_fs w) src = Some (File c) \<and> lookup (w_fs w) dst = Some (File c')) \<Longrightarrow>
   rename src dst w = (Inr (), ticked w (subtree_move src dst (w_fs w)))"
  by (auto simp: rename_def sys_def healthy_now ticked_def)

lemma removeAll_healthy:
  "healthy w \<Longrightarrow> p \<noteq> [] \<Longrightarrow> removeAll p w = (Inr (), ticked w (subtree_delete p (w_fs w)))"
  by (simp add: removeAll_def sys_def healthy_now ticked_def)

lemma readDir_healthy:
  "healthy w \<Longrightarrow> lookup (w_fs w) p = Some Dir \<Longrightarrow>
   readDir p w = (Inr (children (w_fs w) p), ticked w (w_fs w))"
  by (simp add: readDir_def sys_def healthy_now ticked_def)

subsection \<open>Directory listings\<close>

lemma set_child_names:
  "set [last q. (q, nd) \<leftarrow> fs, q \<noteq> [] \<and> butlast q = p] = {nm. lookup fs (p @ [nm]) \<noteq> None}"
proof -
  have "lookup fs (p @ [nm]) \<noteq> None \<longleftrightarrow> p @ [nm] \<in> fst ` set fs" for nm
    by (simp add: lookup_def map_of_eq_None_iff)
  moreover have "set [last q. (q, nd) \<leftarrow> fs, q \<noteq> [] \<and> butlast q = p] = {nm. p @ [nm] \<in> fst ` set fs}"
    by (force simp: image_iff) 
  ultimately show ?thesis by simp
qed

lemma in_children:
  "(nm, isdir) \<in> set (children fs p) \<longleftrightarrow>
   lookup fs (p @ [nm]) \<noteq> None \<and> isdir = (lookup fs (p @ [nm]) = Some Dir)"
  unfolding children_def set_map set_sort set_remdups set_child_names by auto

lemma children_names: "sorted (map fst (children fs p)) \<and> distinct (map fst (children fs p))"
  by (simp add: children_def o_def)

text \<open>A listing depends on nothing but the entries of the directory.\<close>

lemma children_cong:
  assumes "\<And>nm. lookup fs' (p @ [nm]) = lookup fs (p @ [nm])"
  shows "children fs' p = children fs p"
proof -
  have "sort (remdups [last q. (q, nd) \<leftarrow> fs', q \<noteq> [] \<and> butlast q = p])
      = sort (remdups [last q. (q, nd) \<leftarrow> fs, q \<noteq> [] \<and> butlast q = p])"
    by (rule sorted_distinct_set_unique) (simp_all only: sorted_sort distinct_sort distinct_remdups
        set_sort set_remdups set_child_names assms)
  then show ?thesis unfolding children_def assms by simp
qed

section \<open>Outcomes under any fault\<close>

lemma mkdirAll_outcome:
  assumes "mkdirAll p w = (r, w')" and "\<And>q c. prefix q p \<Longrightarrow> lookup (w_fs w) q \<noteq> Some (File c)"
  shows "env_same w w'" and "r = Inr () \<or> r = Inl ErrIO" and "healthy w \<Longrightarrow> r = Inr ()"
    and "r = Inr () \<Longrightarrow> w_fs w' = make_dirs p (w_fs w)"
proof -
  show "env_same w w'" using assms(1) by (auto simp: mkdirAll_def sys_run env_same_def)
  show "r = Inr () \<or> r = Inl ErrIO"
    using assms(1) by (auto simp: mkdirAll_def sys_run split: fault.splits if_splits)
  show "healthy w \<Longrightarrow> r = Inr ()" using mkdirAll_healthy[of w p] assms by simp
  show "r = Inr () \<Longrightarrow> w_fs w' = make_dirs p (w_fs w)"
    using assms(1) by (auto simp: mkdirAll_def sys_run split: fault.splits if_splits)
qed

lemma mkdirAll_effect:
  assumes "mkdirAll p w = (r, w')"
  shows "lookup (w_fs w') q = lookup (w_fs w) q \<or>
    (prefix q p \<and> lookup (w_fs w) q = None \<and> lookup (w_fs w') q = Some Dir)"
proof -
  have "prefix q (take n p) \<Longrightarrow> prefix q p" for n
    using take_is_prefix prefix_order.trans by blast
  then show ?thesis
    using assms by (auto simp: mkdirAll_def sys_run lookup_make_dirs split: fault.splits if_splits option.splits)
qed

lemma readDir_outcome:
  assumes "readDir p w = (r, w')" and "dirs_to (w_fs w) p"
  shows "w_fs w' = w_fs w" and "env_same w w'" and "r = Inr (children (w_fs w) p) \<or> r = Inl ErrIO"
    and "healthy w \<Longrightarrow> r = Inr (children (w_fs w) p)"
proof -
  show "w_fs w' = w_fs w" "env_same w w'" using reads_onlyD[OF reads_only_simps(5) assms(1)] by auto
  have "lookup (w_fs w) p = Some Dir" using assms(2) by (rule dirs_to_self)
  then show "r = Inr (children (w_fs w) p) \<or> r = Inl ErrIO" "healthy w \<Longrightarrow> r = Inr (children (w_fs w) p)"
    using assms(1) by (auto simp: readDir_def sys_run healthy_now split: if_splits)
qed

section \<open>Errors that are no panics\<close>

definition no_panic :: "('j, 'a) io \<Rightarrow> bool" where
  "no_panic m \<longleftrightarrow> (\<forall>w e. fst (m w) = Inl e \<longrightarrow> \<not> is_panic e)"

named_theorems no_panic_rules \<open>computations that do not panic\<close>

lemma no_panicD: "no_panic m \<Longrightarrow> m w = (Inl e, w') \<Longrightarrow> \<not> is_panic e"
  unfolding no_panic_def by (metis fst_conv)

lemma is_panic_simps [simp]:
  "\<not> is_panic ErrIO" "\<not> is_panic ErrNotExist" "\<not> is_panic (ErrMsg s)" "is_panic (Panic s)"
  "\<not> is_panic ErrUnexpectedEOF"
  by (simp_all add: is_panic_def)

lemma missing_err_no_panic [simp]: "\<not> is_panic (missing_err fs p)"
  by (simp add: missing_err_def)

lemma no_panic_return [no_panic_rules]: "no_panic (io_return x)"
  by (simp add: no_panic_def io_return_def)

lemma no_panic_bind [no_panic_rules]:
  "no_panic m \<Longrightarrow> (\<And>x. no_panic (f x)) \<Longrightarrow> no_panic (io_bind m f)"
  by (auto simp: no_panic_def io_bind_def split: prod.splits sum.splits) (metis fst_conv)+

lemma no_panic_on_error [no_panic_rules]: "no_panic m \<Longrightarrow> no_panic (io_on_error m h)"
  by (auto simp: no_panic_def io_on_error_def split: prod.splits sum.splits) (metis fst_conv)+

lemma no_panic_sys:
  "(\<And>fault fs e. fst (f fault fs) = Inl e \<Longrightarrow> \<not> is_panic e) \<Longrightarrow> no_panic (sys f)"
  by (simp add: no_panic_def sys_run)

lemma no_panic_calls [no_panic_rules]:
  "no_panic (mkdirAll p)" "no_panic (writeFile p c)" "no_panic (rename p q)" "no_panic (removeAll p)"
  "no_panic (readDir p)" "no_panic (readFile p)"
proof -
  have wc: "write_check fs p = Some e \<Longrightarrow> \<not> is_panic e" for fs :: "'j fs" and e
    by (auto simp: write_check_def split: if_splits option.splits node.splits)
  show "no_panic (mkdirAll p)" "no_panic (rename p q)" "no_panic (removeAll p)" "no_panic (readDir p)" "no_panic (readFile p)"
    unfolding mkdirAll_def rename_def removeAll_def readDir_def readFile_def
    by (rule no_panic_sys, auto split: if_splits fault.splits option.splits node.splits)+
  show "no_panic (writeFile p c)"
    unfolding writeFile_def
    by (rule no_panic_sys) (auto split: fault.splits option.splits dest: wc)
qed

section \<open>Computations below one directory\<close>

text \<open>
  \<open>touches A fs fs'\<close>: nothing but the tree below \<open>A\<close> has changed, and missing directories on the
  way to it.
\<close>

definition touches :: "path \<Rightarrow> 'j fs \<Rightarrow> 'j fs \<Rightarrow> bool" where
  "touches A fs fs' \<longleftrightarrow> (\<forall>q. lookup fs' q = lookup fs q \<or> strict_prefix A q \<or>
     (prefix q A \<and> lookup fs q = None \<and> lookup fs' q = Some Dir))"

lemma touches_refl [simp]: "touches A fs fs"
  by (simp add: touches_def)

lemma touches_trans: "touches A fs1 fs2 \<Longrightarrow> touches A fs2 fs3 \<Longrightarrow> touches A fs1 fs3"
  unfolding touches_def by metis

definition apart :: "path \<Rightarrow> path \<Rightarrow> bool" where
  "apart A B \<longleftrightarrow> \<not> prefix A B \<and> \<not> prefix B A"

lemma touches_apart:
  assumes "touches A fs fs'" and "apart A B"
  shows "prefix B q \<Longrightarrow> lookup fs' q = lookup fs q"
    and "prefix q B \<Longrightarrow> lookup fs' q = lookup fs q \<or> (lookup fs q = None \<and> lookup fs' q = Some Dir)"
proof -
  assume B: "prefix B q"
  have "\<not> strict_prefix A q"
    using B assms(2) by (auto simp: apart_def strict_prefix_def dest: prefix_same_cases)
  moreover have "\<not> prefix q A" using B assms(2) by (auto simp: apart_def intro: prefix_order.trans)
  ultimately show "lookup fs' q = lookup fs q" using assms(1) by (auto simp: touches_def)
next
  assume "prefix q B"
  then have "\<not> strict_prefix A q" using assms(2) by (auto simp: apart_def strict_prefix_def intro: prefix_order.trans)
  then show "lookup fs' q = lookup fs q \<or> (lookup fs q = None \<and> lookup fs' q = Some Dir)"
    using assms(1) by (auto simp: touches_def)
qed

lemma touches_dirs:
  assumes "touches A fs fs'" and "\<not> strict_prefix A d" and "dirs_to fs d"
  shows "dirs_to fs' d"
  unfolding dirs_to_def
proof (intro allI impI)
  fix q assume q: "prefix q d"
  then have "\<not> strict_prefix A q" using assms(2) by (auto simp: strict_prefix_def dest: prefix_order.trans prefix_order.antisym)
  moreover have "lookup fs q = Some Dir" using assms(3) q by (simp add: dirs_to_def)
  ultimately show "lookup fs' q = Some Dir"
    using assms(1) unfolding touches_def by (metis option.distinct(1))
qed

lemma confined_touches:
  assumes "confined d P m" and "m w = (r, w')" and "dirs_to (w_fs w) d" and "\<And>q. P q \<Longrightarrow> strict_prefix A q"
  shows "touches A (w_fs w) (w_fs w')"
  using confinedD(2)[OF assms(1-3)] assms(4) unfolding touches_def by blast

end
