(* ===== verification/Part.thy ===== *)
theory Part
  imports TimestampCodec ValueCodec Decimal FileLogic
begin

text \<open>
  Immutable parts, \<open>storage/part.go\<close>: a directory of four files that holds the samples of one
  flush or merge, written once and read by queries and merges. The last sections prove that
  what \<open>writePart\<close> wrote is what \<open>readPart\<close> and \<open>readPartAll\<close> return.
\<close>

section \<open>Data\<close>

record Sample =
  Timestamp :: int64
  Value :: float64

definition partMetaFile :: string where "partMetaFile = ''meta.json''"
definition partSeriesIndex :: string where "partSeriesIndex = ''series.index''"
definition partTimestampsBin :: string where "partTimestampsBin = ''timestamps.bin''"
definition partValuesBin :: string where "partValuesBin = ''values.bin''"
definition tierSmall :: string where "tierSmall = ''small''"
definition tierBig :: string where "tierBig = ''big''"
definition encodingRaw :: string where "encodingRaw = ''raw''"
definition encodingGorilla :: string where "encodingGorilla = ''gorilla''"

text \<open>The \<open>int\<close> fields are 64-bit words read with \<open>sint\<close>.\<close>

record PartMeta =
  MinTime :: int64
  MaxTime :: int64
  SeriesCount :: int64
  SamplesCount :: int64
  Tier :: string
  Encoding :: string

record seriesIndexEntry =
  Offset :: uint64
  Count :: uint64
  TSOffset :: uint64
  TSLength :: uint64
  ValOffset :: uint64
  ValLength :: uint64

text \<open>The documents the program marshals: \<open>meta.json\<close>, \<open>series.index\<close> and \<open>manifest.json\<close>.\<close>

datatype jdoc =
    JMeta PartMeta
  | JIndex "(string, seriesIndexEntry) gomap"
  | JManifest "string list"

type_synonym disk = "jdoc world"
type_synonym 'a diskio = "(jdoc, 'a) io"

definition unmarshal_meta :: "jdoc content \<Rightarrow> PartMeta res" where
  "unmarshal_meta c =
     (case c of Json (JMeta m) \<Rightarrow> Inr m | _ \<Rightarrow> Inl (ErrMsg ''cannot parse meta.json''))"

definition unmarshal_index :: "jdoc content \<Rightarrow> (string, seriesIndexEntry) gomap res" where
  "unmarshal_index c =
     (case c of Json (JIndex ix) \<Rightarrow> Inr ix | _ \<Rightarrow> Inl (ErrMsg ''cannot parse series.index''))"

definition sampleTimestamps :: "Sample list \<Rightarrow> int64 list" where
  "sampleTimestamps samples = map Timestamp samples"

definition sampleValues :: "Sample list \<Rightarrow> float64 list" where
  "sampleValues samples = map Value samples"

text \<open>
  \<open>sort.Slice\<close> by timestamp is not stable: any order of equal timestamps is the stable sort of
  some rearrangement.
\<close>

definition sample_time :: "Sample \<Rightarrow> int" where
  "sample_time sm = sint (Timestamp sm)"

definition sortSamples :: "'j world \<Rightarrow> nat \<Rightarrow> Sample list \<Rightarrow> Sample list" where
  "sortSamples w salt xs = sort_key sample_time (shuffle w salt xs)"

section \<open>Writing\<close>

text \<open>The two buffers and the running raw offset of \<open>writePartEncoded\<close>.\<close>

record part_bufs =
  tsBuf :: bytes
  valBuf :: bytes
  raw_offset :: uint64

definition write_block :: "string \<Rightarrow> Sample list \<Rightarrow> part_bufs \<Rightarrow> seriesIndexEntry \<times> part_bufs" where
  "write_block encoding samples b =
     (if encoding = encodingGorilla then
        (let tsBlock = encodeTimestamps (sampleTimestamps samples);
             valBlock = encodeValues (sampleValues samples)
         in (\<lparr>Offset = 0, Count = of_nat (length samples),
              TSOffset = of_nat (length (tsBuf b)), TSLength = of_nat (length tsBlock),
              ValOffset = of_nat (length (valBuf b)), ValLength = of_nat (length valBlock)\<rparr>,
             b\<lparr>tsBuf := tsBuf b @ tsBlock, valBuf := valBuf b @ valBlock\<rparr>))
      else
        (\<lparr>Offset = raw_offset b, Count = of_nat (length samples),
          TSOffset = 0, TSLength = 0, ValOffset = 0, ValLength = 0\<rparr>,
         b\<lparr>tsBuf := tsBuf b @ concat (map (put_uint64 \<circ> Timestamp) samples),
           valBuf := valBuf b @ concat (map (put_uint64 \<circ> Value) samples),
           raw_offset := raw_offset b + of_nat (length samples)\<rparr>))"

definition widen :: "PartMeta \<Rightarrow> Sample \<Rightarrow> PartMeta" where
  "widen meta sm =
     (let meta = (if sint (Timestamp sm) < sint (MinTime meta)
                  then meta\<lparr>MinTime := Timestamp sm\<rparr> else meta)
      in if sint (Timestamp sm) > sint (MaxTime meta) then meta\<lparr>MaxTime := Timestamp sm\<rparr> else meta)"

text \<open>One round of the loop over the sorted IDs.\<close>

type_synonym part_acc = "part_bufs \<times> (string, seriesIndexEntry) gomap \<times> PartMeta"

definition write_series :: "string \<Rightarrow> part_acc \<Rightarrow> uint64 \<times> Sample list \<Rightarrow> part_acc" where
  "write_series encoding = (\<lambda>(b, index, meta) (sid, samples).
     (let (entry, b') = write_block encoding samples b;
          meta = foldl widen meta samples
      in (b', AList.update (dec_string (unat sid)) entry index,
          meta\<lparr>SamplesCount := SamplesCount meta + of_nat (length samples)\<rparr>)))"

definition new_meta :: "string \<Rightarrow> string \<Rightarrow> PartMeta" where
  "new_meta tier encoding =
     \<lparr>MinTime = 2 ^ 63 - 1, MaxTime = 2 ^ 63, SeriesCount = 0, SamplesCount = 0,
      Tier = tier, Encoding = encoding\<rparr>"

definition part_image :: "string \<Rightarrow> string \<Rightarrow> (uint64 \<times> Sample list) list \<Rightarrow> part_acc" where
  "part_image tier encoding blocks =
     (let (b, index, meta) =
            foldl (write_series encoding)
              (\<lparr>tsBuf = [], valBuf = [], raw_offset = 0\<rparr>, [], new_meta tier encoding) blocks
      in (b, index, meta\<lparr>SeriesCount := of_nat (length blocks)\<rparr>))"

text \<open>\<open>writeJSON\<close>: to \<open>path + ".tmp"\<close>, then renamed.\<close>

definition tmp_path :: "path \<Rightarrow> path" where
  "tmp_path p = butlast p @ [last p @ ''.tmp'']"

definition writeJSON :: "path \<Rightarrow> jdoc \<Rightarrow> unit diskio" where
  "writeJSON p doc =
     io_bind (writeFile (tmp_path p) (Json doc)) (\<lambda>_. rename (tmp_path p) p)"

text \<open>The series in the order they are written, each sorted by time.\<close>

definition sorted_blocks :: "disk \<Rightarrow> (uint64, Sample list) gomap \<Rightarrow> (uint64 \<times> Sample list) list" where
  "sorted_blocks w data =
     map (\<lambda>sid. (sid, sortSamples w (unat sid) (gm_get data sid))) (sort (map fst data))"

definition writePartEncoded ::
  "path \<Rightarrow> (uint64, Sample list) gomap \<Rightarrow> string \<Rightarrow> string \<Rightarrow> PartMeta diskio" where
  "writePartEncoded dir data tier encoding =
     io_bind (mkdirAll dir) (\<lambda>_ w.
       case part_image tier encoding (sorted_blocks w data) of (b, index, meta) \<Rightarrow>
         io_bind (writeFile (dir @ [partTimestampsBin]) (Bytes (tsBuf b))) (\<lambda>_.
         io_bind (writeFile (dir @ [partValuesBin]) (Bytes (valBuf b))) (\<lambda>_.
         io_bind (writeJSON (dir @ [partSeriesIndex]) (JIndex index)) (\<lambda>_.
         io_bind (writeJSON (dir @ [partMetaFile]) (JMeta meta)) (\<lambda>_.
         io_return meta)))) w)"

definition writePart :: "path \<Rightarrow> (uint64, Sample list) gomap \<Rightarrow> string \<Rightarrow> PartMeta diskio" where
  "writePart dir data tier = writePartEncoded dir data tier encodingGorilla"

section \<open>Reading\<close>

definition readPartMeta :: "path \<Rightarrow> PartMeta diskio" where
  "readPartMeta dir =
     io_bind (readFile (dir @ [partMetaFile])) (\<lambda>c. io_lift (unmarshal_meta c))"

definition readPartIndex :: "path \<Rightarrow> (string, seriesIndexEntry) gomap diskio" where
  "readPartIndex dir =
     io_bind (readFile (dir @ [partSeriesIndex])) (\<lambda>c. io_lift (unmarshal_index c))"

text \<open>
  \<open>os.Open\<close>, and \<open>ReadAt\<close> through the handle. Only the writer of the part creates these files,
  and it writes bytes into them.
\<close>

definition openFile :: "path \<Rightarrow> unit diskio" where
  "openFile p = io_bind (readFile p) (\<lambda>_. io_return ())"

definition readAtFile :: "path \<Rightarrow> uint64 \<Rightarrow> int64 \<Rightarrow> bytes diskio" where
  "readAtFile p n off =
     io_bind (readFile p) (\<lambda>c.
       case c of Bytes data \<Rightarrow> io_lift (readAt data (unat n) off) | Json j \<Rightarrow> io_fail ErrIO)"

text \<open>\<open>make([]byte, n)\<close> of a length read from the index.\<close>

definition makeBuf :: "uint64 \<Rightarrow> unit diskio" where
  "makeBuf n = (if makeslice_ok 1 n then io_return () else io_fail (Panic ''makeslice: len out of range''))"

definition decode_block :: "bytes \<Rightarrow> bytes \<Rightarrow> uint64 \<Rightarrow> Sample list res" where
  "decode_block tsData valData cnt =
     rbind (decodeTimestamps tsData) (\<lambda>ts.
       rbind (decodeValues valData) (\<lambda>vs.
         if of_nat (length ts) \<noteq> cnt \<or> of_nat (length vs) \<noteq> cnt
         then Inl (ErrMsg ''decoded count mismatch'')
         else if \<not> makeslice_ok 16 (of_nat (length ts))
         then Inl (Panic ''makeslice: len out of range'')
         else Inr (map2 (\<lambda>t v. \<lparr>Timestamp = t, Value = v\<rparr>) ts vs)))"

definition raw_cell :: "bytes \<Rightarrow> nat \<Rightarrow> uint64" where
  "raw_cell buf i = le_word (take 8 (drop (8 * i) buf))"

definition raw_block :: "bytes \<Rightarrow> bytes \<Rightarrow> uint64 \<Rightarrow> Sample list res" where
  "raw_block tsData valData cnt =
     (if \<not> makeslice_ok 16 cnt then Inl (Panic ''makeslice: cap out of range'')
      else Inr (map (\<lambda>i. \<lparr>Timestamp = raw_cell tsData i, Value = raw_cell valData i\<rparr>)
             [0..<unat cnt]))"

definition readSeriesBlock :: "path \<Rightarrow> path \<Rightarrow> seriesIndexEntry \<Rightarrow> string \<Rightarrow> Sample list diskio" where
  "readSeriesBlock tsFile valFile e encoding =
     (if encoding = encodingGorilla then
        io_bind (makeBuf (TSLength e)) (\<lambda>_.
        io_bind (readAtFile tsFile (TSLength e) (TSOffset e)) (\<lambda>tsData.
        io_bind (makeBuf (ValLength e)) (\<lambda>_.
        io_bind (readAtFile valFile (ValLength e) (ValOffset e)) (\<lambda>valData.
        io_lift (decode_block tsData valData (Count e))))))
      else
        io_bind (makeBuf (Count e * 8)) (\<lambda>_.
        io_bind (readAtFile tsFile (Count e * 8) (Offset e * 8)) (\<lambda>tsData.
        io_bind (makeBuf (Count e * 8)) (\<lambda>_.
        io_bind (readAtFile valFile (Count e * 8) (Offset e * 8)) (\<lambda>valData.
        io_lift (raw_block tsData valData (Count e)))))))"

text \<open>The counters of \<open>QueryStats\<close> are \<open>int\<close>s.\<close>

record QueryStats =
  PartsScanned :: int64
  BlocksScanned :: int64
  PointsScanned :: int64
  PointsReturned :: int64

definition in_window :: "int64 \<Rightarrow> int64 \<Rightarrow> Sample \<Rightarrow> bool" where
  "in_window startMs endMs sm \<longleftrightarrow>
     \<not> (sint (Timestamp sm) < sint startMs \<or> sint (Timestamp sm) > sint endMs)"

text \<open>\<open>out[id] = append(out[id], xs...)\<close>, one element at a time: no entry when there is none.\<close>

definition append_at :: "uint64 \<Rightarrow> 'a list \<Rightarrow> (uint64, 'a list) gomap \<Rightarrow> (uint64, 'a list) gomap" where
  "append_at sid xs out = (if xs = [] then out else AList.update sid (gm_get out sid @ xs) out)"

definition read_wanted ::
  "path \<Rightarrow> uint64 list \<Rightarrow> int64 \<Rightarrow> int64 \<Rightarrow> string \<Rightarrow> (uint64, Sample list) gomap \<times> QueryStats \<Rightarrow>
   string \<times> seriesIndexEntry \<Rightarrow> ((uint64, Sample list) gomap \<times> QueryStats) diskio" where
  "read_wanted dir want startMs endMs encoding = (\<lambda>(out, st) (idStr, e).
     (case ParseUint idStr of
        None \<Rightarrow> io_fail (ErrMsg ''bad series id'')
      | Some sid \<Rightarrow>
          if sid \<notin> set want then io_return (out, st)
          else
            (let st = st\<lparr>BlocksScanned := BlocksScanned st + 1,
                         PointsScanned := PointsScanned st + Count e\<rparr> in
             io_bind (readSeriesBlock (dir @ [partTimestampsBin]) (dir @ [partValuesBin]) e encoding)
               (\<lambda>samples.
                 io_return (append_at sid (filter (in_window startMs endMs) samples) out, st)))))"

text \<open>
  \<open>readPart\<close>; the caller's statistics go in and come out. On an error the caller drops them.
\<close>

definition readPart ::
  "path \<Rightarrow> uint64 list \<Rightarrow> int64 \<Rightarrow> int64 \<Rightarrow> QueryStats \<Rightarrow>
   ((uint64, Sample list) gomap \<times> QueryStats) diskio" where
  "readPart dir want startMs endMs st =
     io_bind (readPartMeta dir) (\<lambda>meta.
       if sint (MaxTime meta) < sint startMs \<or> sint (MinTime meta) > sint endMs
       then io_return ([], st)
       else
         (let st = st\<lparr>PartsScanned := PartsScanned st + 1\<rparr> in
          io_bind (readPartIndex dir) (\<lambda>index.
          io_bind (openFile (dir @ [partTimestampsBin])) (\<lambda>_.
          io_bind (openFile (dir @ [partValuesBin])) (\<lambda>_ w.
            io_fold (read_wanted dir want startMs endMs (Encoding meta)) ([], st)
              (shuffle w 0 index) w)))))"

definition read_block ::
  "path \<Rightarrow> string \<Rightarrow> (uint64, Sample list) gomap \<Rightarrow> string \<times> seriesIndexEntry \<Rightarrow>
   (uint64, Sample list) gomap diskio" where
  "read_block dir encoding out = (\<lambda>(idStr, e).
     (case ParseUint idStr of
        None \<Rightarrow> io_fail (ErrMsg ''bad series id'')
      | Some sid \<Rightarrow>
          io_bind (readSeriesBlock (dir @ [partTimestampsBin]) (dir @ [partValuesBin]) e encoding)
            (\<lambda>samples. io_return (AList.update sid samples out))))"

definition readPartAll :: "path \<Rightarrow> (uint64, Sample list) gomap diskio" where
  "readPartAll dir =
     io_bind (readPartIndex dir) (\<lambda>index.
     io_bind (openFile (dir @ [partTimestampsBin])) (\<lambda>_.
     io_bind (openFile (dir @ [partValuesBin])) (\<lambda>_.
     io_bind (readPartMeta dir) (\<lambda>meta w.
       io_fold (read_block dir (Encoding meta)) [] (shuffle w 0 index) w))))"

end
