(* ===== verification/PartStore.thy ===== *)
theory PartStore
  imports Part
begin

text \<open>
  What a part holds: the abstraction of the four files of a part to its metadata and the samples
  of each series, and the proofs that the writer establishes it and the readers return it, for
  both block encodings.
\<close>

section \<open>A block of a part\<close>

text \<open>What \<open>readSeriesBlock\<close> computes from the contents of the two files.\<close>

definition block_of :: "string \<Rightarrow> bytes \<Rightarrow> bytes \<Rightarrow> seriesIndexEntry \<Rightarrow> Sample list res" where
  "block_of encoding T V e =
     (let (nt, ot, nv, ov) = (if encoding = encodingGorilla
            then (TSLength e, TSOffset e, ValLength e, ValOffset e)
            else (Count e * 8, Offset e * 8, Count e * 8, Offset e * 8))
      in if \<not> makeslice_ok 1 nt then Inl (Panic ''makeslice: len out of range'')
         else rbind (readAt T (unat nt) ot) (\<lambda>tsData.
           if \<not> makeslice_ok 1 nv then Inl (Panic ''makeslice: len out of range'')
           else rbind (readAt V (unat nv) ov) (\<lambda>valData.
             if encoding = encodingGorilla then decode_block tsData valData (Count e)
             else raw_block tsData valData (Count e))))"

lemma yields_readAtFile:
  "lookup fs p = Some (File (Bytes data)) \<Longrightarrow>
   yields fs (readAtFile p n off) (\<lambda>r. r = readAt data (unat n) off)"
  unfolding readAtFile_def
  by (rule yields_bind_eq[OF yields_readFile]) (auto intro: yields_lift)

lemma yields_makeBuf_then:
  "(makeslice_ok 1 n \<Longrightarrow> yields fs (f ()) (\<lambda>r. r = v)) \<Longrightarrow>
   yields fs (io_bind (makeBuf n) f)
     (\<lambda>r. r = (if \<not> makeslice_ok 1 n then Inl (Panic ''makeslice: len out of range'') else v))"
  unfolding makeBuf_def
  by (cases "makeslice_ok 1 n")
    (simp_all add: yields_bind_eq[OF yields_return] yields_bind_err[OF yields_fail])

lemma yields_then:
  assumes "yields fs m (\<lambda>r. r = v)" and "\<And>x. v = Inr x \<Longrightarrow> yields fs (f x) (\<lambda>r. r = g x)"
  shows "yields fs (io_bind m f) (\<lambda>r. r = rbind v g)"
  using assms(1) by (rule yields_bind) (use assms(2) in auto)

lemma yields_readSeriesBlock:
  assumes "lookup fs tf = Some (File (Bytes T))" and "lookup fs vf = Some (File (Bytes V))"
  shows "yields fs (readSeriesBlock tf vf e encoding) (\<lambda>r. r = block_of encoding T V e)"
proof -
  note steps = yields_makeBuf_then yields_then[OF yields_readAtFile[OF assms(1)]]
    yields_then[OF yields_readAtFile[OF assms(2)]] yields_lift
  have g: "yields fs
     (io_bind (makeBuf nt) (\<lambda>_. io_bind (readAtFile tf nt ot) (\<lambda>tsData.
        io_bind (makeBuf nv) (\<lambda>_. io_bind (readAtFile vf nv ov) (\<lambda>valData.
        io_lift (h tsData valData))))))
     (\<lambda>r. r = (if \<not> makeslice_ok 1 nt then Inl (Panic ''makeslice: len out of range'')
         else rbind (readAt T (unat nt) ot) (\<lambda>tsData.
           if \<not> makeslice_ok 1 nv then Inl (Panic ''makeslice: len out of range'')
           else rbind (readAt V (unat nv) ov) (\<lambda>valData. h tsData valData))))" for nt ot nv ov h
    by (intro steps refl)
  show ?thesis
  proof (cases "encoding = encodingGorilla")
    case True
    show ?thesis
      unfolding readSeriesBlock_def block_of_def eqTrueI[OF True] if_True Let_def prod.case by (rule g)
  next
    case False
    then have "(encoding = encodingGorilla) = False" by simp
    then show ?thesis
      unfolding readSeriesBlock_def block_of_def Let_def by (simp only: if_False prod.case) (rule g)
  qed
qed

lemma reads_only_readSeriesBlock: "reads_only (readSeriesBlock tf vf e encoding)"
  by (auto simp: readSeriesBlock_def makeBuf_def readAtFile_def intro!: yields_rules split: content.splits)

section \<open>What a part holds\<close>

definition id_name :: "uint64 \<Rightarrow> string" where
  "id_name sid = dec_string (unat sid)"

lemma ParseUint_id_name [simp]: "ParseUint (id_name sid) = Some sid"
  by (simp add: id_name_def)

lemma id_name_inj [simp]: "id_name a = id_name b \<longleftrightarrow> a = b"
  by (metis ParseUint_id_name option.inject)

text \<open>
  \<open>stored_part fs dir meta data\<close>: the directory's files are those of a part with this metadata
  whose series have these samples.
\<close>

definition stored_part ::
  "jdoc fs \<Rightarrow> path \<Rightarrow> PartMeta \<Rightarrow> (uint64, Sample list) gomap \<Rightarrow> bool" where
  "stored_part fs dir meta data \<longleftrightarrow> gm_wf data \<and>
     lookup fs (dir @ [partMetaFile]) = Some (File (Json (JMeta meta))) \<and>
     (\<exists>index T V.
        lookup fs (dir @ [partSeriesIndex]) = Some (File (Json (JIndex index))) \<and>
        lookup fs (dir @ [partTimestampsBin]) = Some (File (Bytes T)) \<and>
        lookup fs (dir @ [partValuesBin]) = Some (File (Bytes V)) \<and>
        gm_wf index \<and> fst ` set index = id_name ` fst ` set data \<and>
        (\<forall>sid samples. map_of data sid = Some samples \<longrightarrow>
           (\<exists>e. map_of index (id_name sid) = Some e \<and> Count e = of_nat (length samples) \<and>
              block_of (Encoding meta) T V e = Inr samples))) \<and>
     (\<forall>sid samples. map_of data sid = Some samples \<longrightarrow>
        (\<forall>sm \<in> set samples. sint (MinTime meta) \<le> sint (Timestamp sm) \<and>
           sint (Timestamp sm) \<le> sint (MaxTime meta)))"

text \<open>Only the files below the directory matter.\<close>

lemma stored_part_move:
  assumes "\<And>f. lookup fs' (dir' @ [f]) = lookup fs (dir @ [f])"
  shows "stored_part fs' dir' meta data \<longleftrightarrow> stored_part fs dir meta data"
  unfolding stored_part_def assms by (rule refl)

lemma stored_part_frame:
  "stored_part fs dir meta data \<Longrightarrow> (\<And>q. prefix dir q \<Longrightarrow> lookup fs' q = lookup fs q) \<Longrightarrow>
   stored_part fs' dir meta data"
  using stored_part_move[of fs' dir fs dir meta data] by simp

section \<open>Reading a part\<close>

lemma yields_readPartMeta:
  "stored_part fs dir meta data \<Longrightarrow> yields fs (readPartMeta dir) (\<lambda>r. r = Inr meta)"
  unfolding readPartMeta_def
  by (rule yields_bind_eq[OF yields_readFile])
    (auto simp: stored_part_def unmarshal_meta_def intro: yields_lift)

lemma yields_openFile:
  "lookup fs p = Some (File c) \<Longrightarrow> yields fs (openFile p) (\<lambda>r. r = Inr ())"
  unfolding openFile_def by (rule yields_bind_eq[OF yields_readFile]) (auto intro: yields_return)

lemma yields_readPartIndex:
  "lookup fs (dir @ [partSeriesIndex]) = Some (File (Json (JIndex index))) \<Longrightarrow>
   yields fs (readPartIndex dir) (\<lambda>r. r = Inr index)"
  unfolding readPartIndex_def
  by (rule yields_bind_eq[OF yields_readFile]) (auto simp: unmarshal_index_def intro: yields_lift)

text \<open>An entry of the index, met at any point of the iteration, leads to its series.\<close>

lemma stored_part_entry:
  assumes st: "stored_part fs dir meta data"
    and ix: "lookup fs (dir @ [partSeriesIndex]) = Some (File (Json (JIndex index)))"
    and "(idStr, e) \<in> set index"
  obtains sid samples where "idStr = id_name sid" and "map_of data sid = Some samples"
    and "Count e = of_nat (length samples)"
    and "yields fs (readSeriesBlock (dir @ [partTimestampsBin]) (dir @ [partValuesBin]) e (Encoding meta))
      (\<lambda>r. r = Inr samples)"
proof -
  have "\<exists>T V. lookup fs (dir @ [partTimestampsBin]) = Some (File (Bytes T)) \<and>
      lookup fs (dir @ [partValuesBin]) = Some (File (Bytes V)) \<and>
      gm_wf index \<and> fst ` set index = id_name ` fst ` set data \<and>
      (\<forall>sid samples. map_of data sid = Some samples \<longrightarrow>
        (\<exists>e. map_of index (id_name sid) = Some e \<and> Count e = of_nat (length samples) \<and>
           block_of (Encoding meta) T V e = Inr samples))"
    using st unfolding stored_part_def ix by (elim conjE exE) (simp only: option.inject node.inject content.inject jdoc.inject, blast)
  then obtain T V where tv: "lookup fs (dir @ [partTimestampsBin]) = Some (File (Bytes T))"
      "lookup fs (dir @ [partValuesBin]) = Some (File (Bytes V))"
    and wf: "gm_wf index" "fst ` set index = id_name ` fst ` set data"
    and blk: "\<And>sid samples. map_of data sid = Some samples \<Longrightarrow>
      \<exists>e. map_of index (id_name sid) = Some e \<and> Count e = of_nat (length samples) \<and>
        block_of (Encoding meta) T V e = Inr samples"
    by blast
  have "idStr \<in> id_name ` fst ` set data" using assms(3) wf(2) by force
  then obtain sid where sid: "idStr = id_name sid" "sid \<in> fst ` set data" by blast
  then obtain samples where s: "map_of data sid = Some samples"
    by (metis map_of_eq_None_iff not_None_eq)
  have "map_of index idStr = Some e" using assms(3) wf(1) by simp
  with blk[OF s] sid(1) have e: "Count e = of_nat (length samples)"
    "block_of (Encoding meta) T V e = Inr samples" by auto
  show thesis
    by (rule that[OF sid(1) s e(1)])
      (use yields_readSeriesBlock[OF tv, of e "Encoding meta"] e(2) in simp)
qed

lemma stored_part_index:
  assumes "stored_part fs dir meta data"
  obtains index T V where
    "lookup fs (dir @ [partSeriesIndex]) = Some (File (Json (JIndex index)))"
    "lookup fs (dir @ [partTimestampsBin]) = Some (File (Bytes T))"
    "lookup fs (dir @ [partValuesBin]) = Some (File (Bytes V))"
    "gm_wf index" "fst ` set index = id_name ` fst ` set data"
  using assms unfolding stored_part_def by (elim conjE exE) (rule that)

text \<open>The series whose entries the iteration has visited.\<close>

definition visited :: "(string \<times> seriesIndexEntry) list \<Rightarrow> uint64 set" where
  "visited ys = {sid. id_name sid \<in> fst ` set ys}"

lemma visited_simps [simp]:
  "visited [] = {}" "visited (ys @ [(id_name sid, e)]) = insert sid (visited ys)"
  by (auto simp: visited_def)

definition restrict_data :: "uint64 set \<Rightarrow> (uint64, Sample list) gomap \<Rightarrow> uint64 \<rightharpoonup> Sample list" where
  "restrict_data X data sid = (if sid \<in> X then map_of data sid else None)"

lemma yields_readPartAll:
  assumes st: "stored_part fs dir meta data"
  shows "yields fs (readPartAll dir) (\<lambda>r. \<exists>d. r = Inr d \<and> gm_wf d \<and> map_of d = map_of data)"
proof -
  obtain index T V where ix: "lookup fs (dir @ [partSeriesIndex]) = Some (File (Json (JIndex index)))"
    and tv: "lookup fs (dir @ [partTimestampsBin]) = Some (File (Bytes T))"
      "lookup fs (dir @ [partValuesBin]) = Some (File (Bytes V))"
    and wf: "gm_wf index" "fst ` set index = id_name ` fst ` set data"
    by (rule stored_part_index[OF st])
  define I where "I ys d \<longleftrightarrow> gm_wf d \<and> map_of d = restrict_data (visited ys) data" for ys d
  have fold: "yields fs (io_fold (read_block dir (Encoding meta)) [] (shuffle w 0 index))
      (\<lambda>r. \<exists>d. r = Inr d \<and> I (shuffle w 0 index) d)" for w :: disk
  proof (rule yields_fold)
    show "I [] []" by (auto simp: I_def restrict_data_def)
    fix ys x zs d
    assume sh: "shuffle w 0 index = ys @ x # zs" and inv: "I ys d"
    obtain idStr e where x: "x = (idStr, e)" by (cases x)
    have "set (shuffle w 0 index) = set (ys @ x # zs)" by (simp only: sh)
    then have "(idStr, e) \<in> set index" using x by auto
    from stored_part_entry[OF st ix this] obtain sid samples where s: "idStr = id_name sid"
      "map_of data sid = Some samples" and y: "yields fs (readSeriesBlock (dir @ [partTimestampsBin])
        (dir @ [partValuesBin]) e (Encoding meta)) (\<lambda>r. r = Inr samples)" by blast
    have v: "visited (ys @ [x]) = insert sid (visited ys)" unfolding x s(1) by simp
    have "map_of (AList.update sid samples d) = restrict_data (insert sid (visited ys)) data"
      using inv s(2) unfolding I_def by (simp add: restrict_data_def fun_eq_iff)
    then have "I (ys @ [x]) (AList.update sid samples d)"
      using inv unfolding I_def v by simp
    then have ret: "yields fs (io_return (AList.update sid samples d))
        (\<lambda>r. \<exists>d'. r = Inr d' \<and> I (ys @ [x]) d')" by (intro yields_return) blast
    show "yields fs (read_block dir (Encoding meta) d x) (\<lambda>r. \<exists>d'. r = Inr d' \<and> I (ys @ [x]) d')"
      unfolding read_block_def x s(1) prod.case ParseUint_id_name option.case
      by (rule yields_bind_eq[OF y]) (rule ret[unfolded x s(1)])
  qed
  have all: "restrict_data (visited (shuffle w 0 index)) data = map_of data" for w :: disk
  proof
    fix sid
    have "sid \<in> visited (shuffle w 0 index) \<longleftrightarrow> sid \<in> fst ` set data"
      using wf(2) inj_image_mem_iff[of id_name sid "fst ` set data"] by (simp add: visited_def inj_def)
    then show "restrict_data (visited (shuffle w 0 index)) data sid = map_of data sid"
      by (auto simp: restrict_data_def map_of_eq_None_iff[symmetric])
  qed
  have fin: "yields fs (\<lambda>w. io_fold (read_block dir (Encoding meta)) [] (shuffle w 0 index) w)
      (\<lambda>r. \<exists>d. r = Inr d \<and> gm_wf d \<and> map_of d = map_of data)"
    by (rule yields_world[where f = "\<lambda>w0. io_fold (read_block dir (Encoding meta)) [] (shuffle w0 0 index)"])
      (use fold[unfolded I_def all] in simp)
  show ?thesis
    unfolding readPartAll_def
    by (rule yields_bind_eq[OF yields_readPartIndex[OF ix]],
        rule yields_bind_eq[OF yields_openFile[OF tv(1)]],
        rule yields_bind_eq[OF yields_openFile[OF tv(2)]],
        rule yields_bind_eq[OF yields_readPartMeta[OF st]], rule fin)
qed

lemma reads_only_parts:
  "reads_only (readPartIndex dir)" "reads_only (readPartMeta dir)" "reads_only (openFile p)"
  unfolding readPartIndex_def readPartMeta_def openFile_def
  by (intro reads_only_bind reads_only_simps)+

lemma reads_only_read_block: "reads_only (read_block dir encoding out x)"
  unfolding read_block_def
  by (cases x; cases "ParseUint (fst x)")
    (simp_all add: reads_only_simps reads_only_bind reads_only_readSeriesBlock)

lemma reads_only_readPartAll: "reads_only (readPartAll dir)"
proof -
  have fold: "reads_only (\<lambda>w. io_fold (read_block dir enc) [] (shuffle w 0 index) w)" for enc index
    by (rule reads_only_world[where f = "\<lambda>w0. io_fold (read_block dir enc) [] (shuffle w0 0 index)"])
      (rule reads_only_fold, rule reads_only_read_block)
  show ?thesis unfolding readPartAll_def by (intro reads_only_bind reads_only_parts fold)
qed

section \<open>Reading a window of a part\<close>

text \<open>The samples of the wanted series in the window.\<close>

definition window_of ::
  "uint64 list \<Rightarrow> int64 \<Rightarrow> int64 \<Rightarrow> (uint64, Sample list) gomap \<Rightarrow> uint64 \<Rightarrow> Sample list" where
  "window_of want startMs endMs data sid =
     (if sid \<in> set want then filter (in_window startMs endMs) (gm_get data sid) else [])"

definition wanted_ids :: "uint64 list \<Rightarrow> (uint64, Sample list) gomap \<Rightarrow> uint64 list" where
  "wanted_ids want data = filter (\<lambda>sid. sid \<in> set want) (map fst data)"

lemma gm_get_append_at:
  "gm_get (append_at sid xs out) k = (if k = sid then gm_get out sid @ xs else gm_get out k)"
  by (cases "k = sid") (simp_all add: append_at_def)

lemma gm_wf_append_at [simp]: "gm_wf out \<Longrightarrow> gm_wf (append_at sid xs out)"
  by (simp add: append_at_def)

text \<open>Visiting a sequence of entries: the samples found and the counters advanced.\<close>

definition stats_after :: "QueryStats \<Rightarrow> Sample list list \<Rightarrow> QueryStats" where
  "stats_after st blocks = st\<lparr>BlocksScanned := BlocksScanned st + of_nat (length blocks),
     PointsScanned := PointsScanned st + of_nat (length (concat blocks))\<rparr>"

definition wanted_blocks ::
  "uint64 list \<Rightarrow> (uint64, Sample list) gomap \<Rightarrow> string list \<Rightarrow> Sample list list" where
  "wanted_blocks want data nms =
     [gm_get data sid. idStr \<leftarrow> nms, sid \<leftarrow> (case ParseUint idStr of None \<Rightarrow> [] | Some sid \<Rightarrow> [sid]),
        sid \<in> set want]"

lemma wanted_blocks_snoc:
  "wanted_blocks want data (nms @ [id_name sid]) =
     wanted_blocks want data nms @ (if sid \<in> set want then [gm_get data sid] else [])"
  by (simp add: wanted_blocks_def)

lemma wanted_blocks_ids:
  "wanted_blocks want data (map id_name ids) = map (gm_get data) (filter (\<lambda>sid. sid \<in> set want) ids)"
  by (induction ids) (simp_all add: wanted_blocks_def)

lemma stats_after_snoc:
  "stats_after st (bs @ [b]) = (stats_after st bs)\<lparr>
     BlocksScanned := BlocksScanned (stats_after st bs) + 1,
     PointsScanned := PointsScanned (stats_after st bs) + of_nat (length b)\<rparr>"
  by (simp add: stats_after_def add.commute add.left_commute)

definition window_inv ::
  "uint64 list \<Rightarrow> int64 \<Rightarrow> int64 \<Rightarrow> (uint64, Sample list) gomap \<Rightarrow> QueryStats \<Rightarrow>
   (string \<times> seriesIndexEntry) list \<Rightarrow> (uint64, Sample list) gomap \<times> QueryStats \<Rightarrow> bool" where
  "window_inv want startMs endMs data st ys = (\<lambda>(out, st').
     gm_wf out \<and> st' = stats_after st (wanted_blocks want data (map fst ys)) \<and>
     (\<forall>sid. gm_get out sid =
        (if sid \<in> visited ys then window_of want startMs endMs data sid else [])))"

lemma window_inv_step:
  assumes inv: "window_inv want startMs endMs data st ys (out, st')"
    and new: "sid \<notin> visited ys" and d: "map_of data sid = Some samples"
  shows "sid \<in> set want \<Longrightarrow> window_inv want startMs endMs data st (ys @ [(id_name sid, e)])
      (append_at sid (filter (in_window startMs endMs) samples) out,
       st'\<lparr>BlocksScanned := BlocksScanned st' + 1, PointsScanned := PointsScanned st' + of_nat (length samples)\<rparr>)"
    and "sid \<notin> set want \<Longrightarrow>
      window_inv want startMs endMs data st (ys @ [(id_name sid, e)]) (out, st')"
proof -
  have g: "gm_get data sid = samples" using d by (simp add: gm_get_def)
  show "sid \<in> set want \<Longrightarrow> window_inv want startMs endMs data st (ys @ [(id_name sid, e)])
      (append_at sid (filter (in_window startMs endMs) samples) out,
       st'\<lparr>BlocksScanned := BlocksScanned st' + 1, PointsScanned := PointsScanned st' + of_nat (length samples)\<rparr>)"
    using inv new g
    by (auto simp: window_inv_def gm_get_append_at window_of_def wanted_blocks_snoc stats_after_snoc)
  show "sid \<notin> set want \<Longrightarrow>
      window_inv want startMs endMs data st (ys @ [(id_name sid, e)]) (out, st')"
    using inv new by (auto simp: window_inv_def window_of_def wanted_blocks_snoc)
qed

lemma distinct_prefix_visited:
  assumes "distinct (map fst xs)" and "xs = ys @ (id_name sid, e) # zs"
  shows "sid \<notin> visited ys"
  using assms by (auto simp: visited_def)

text \<open>The counters do not depend on the order of the iteration.\<close>

lemma wanted_blocks_perm:
  assumes "mset ys = mset zs"
  shows "stats_after st (wanted_blocks want data ys) = stats_after st (wanted_blocks want data zs)"
proof -
  define f where "f = (\<lambda>idStr.
      [gm_get data sid. sid \<leftarrow> (case ParseUint idStr of None \<Rightarrow> [] | Some sid \<Rightarrow> [sid]), sid \<in> set want])"
  have wb: "wanted_blocks want data xs = concat (map f xs)" for xs
    by (simp add: wanted_blocks_def f_def)
  have perm: "mset (map (length \<circ> f) ys) = mset (map (length \<circ> f) zs)"
    "mset (map (length \<circ> concat \<circ> f) ys) = mset (map (length \<circ> concat \<circ> f) zs)"
    using assms by (metis mset_map)+
  have "length (concat (map f xs)) = sum_list (map (length \<circ> f) xs)"
    "length (concat (concat (map f xs))) = sum_list (map (length \<circ> concat \<circ> f) xs)" for xs
    by (induction xs) simp_all
  moreover have "sum_list (map (length \<circ> f) ys) = sum_list (map (length \<circ> f) zs)"
    "sum_list (map (length \<circ> concat \<circ> f) ys) = sum_list (map (length \<circ> concat \<circ> f) zs)"
    using perm by (metis sum_mset_sum_list)+
  ultimately show ?thesis by (simp add: stats_after_def wb)
qed

lemma reads_only_read_wanted: "reads_only (read_wanted dir want startMs endMs encoding s x)"
  unfolding read_wanted_def
  by (cases s; cases x; cases "ParseUint (fst x)")
    (simp_all add: reads_only_simps reads_only_bind reads_only_readSeriesBlock Let_def)

lemma reads_only_readPart: "reads_only (readPart dir want startMs endMs st)"
proof -
  have fold: "reads_only (\<lambda>w. io_fold (read_wanted dir want startMs endMs enc) s (shuffle w 0 index) w)"
    for enc s index
    by (rule reads_only_world[where f = "\<lambda>w0. io_fold (read_wanted dir want startMs endMs enc) s (shuffle w0 0 index)"])
      (rule reads_only_fold, rule reads_only_read_wanted)
  have rest: "reads_only (if b then io_return x else m)" if "reads_only m"
    for b and x :: "(uint64, Sample list) gomap \<times> QueryStats" and m :: "((uint64, Sample list) gomap \<times> QueryStats) diskio"
    using that by (simp add: reads_only_simps)
  show ?thesis
    unfolding readPart_def Let_def by (intro reads_only_bind reads_only_parts rest fold)
qed

lemma yields_read_wanted:
  assumes st: "stored_part fs dir meta data"
    and ix: "lookup fs (dir @ [partSeriesIndex]) = Some (File (Json (JIndex index)))"
    and x: "x \<in> set index" and new: "\<And>sid. fst x = id_name sid \<Longrightarrow> sid \<notin> visited ys"
    and inv: "window_inv want startMs endMs data st0 ys s"
  shows "yields fs (read_wanted dir want startMs endMs (Encoding meta) s x)
    (\<lambda>r. \<exists>s'. r = Inr s' \<and> window_inv want startMs endMs data st0 (ys @ [x]) s')"
proof -
  obtain idStr e where xe: "x = (idStr, e)" by (cases x)
  obtain out st' where s: "s = (out, st')" by (cases s)
  from stored_part_entry[OF st ix x[unfolded xe]] obtain sid samples where e: "idStr = id_name sid"
    "map_of data sid = Some samples" "Count e = of_nat (length samples)"
    and y: "yields fs (readSeriesBlock (dir @ [partTimestampsBin]) (dir @ [partValuesBin]) e (Encoding meta))
      (\<lambda>r. r = Inr samples)" by blast
  note step = window_inv_step[OF inv[unfolded s] new e(2), of e, folded e(1), folded xe]
  have new': "fst x = idStr" using xe by simp
  show ?thesis
  proof (cases "sid \<in> set want")
    case False
    show ?thesis
      unfolding read_wanted_def s xe e(1) prod.case ParseUint_id_name option.case
      using step(2)[OF new' False] False xe e(1) by (auto intro!: yields_return)
  next
    case True
    let ?st = "st'\<lparr>BlocksScanned := BlocksScanned st' + 1, PointsScanned := PointsScanned st' + of_nat (length samples)\<rparr>"
    have "yields fs (io_return (append_at sid (filter (in_window startMs endMs) samples) out, ?st))
        (\<lambda>r. \<exists>s'. r = Inr s' \<and> window_inv want startMs endMs data st0 (ys @ [x]) s')"
      using step(1)[OF new' True] by (intro yields_return) blast
    then have "yields fs (io_bind (readSeriesBlock (dir @ [partTimestampsBin]) (dir @ [partValuesBin]) e (Encoding meta))
          (\<lambda>samples. io_return (append_at sid (filter (in_window startMs endMs) samples) out, ?st)))
        (\<lambda>r. \<exists>s'. r = Inr s' \<and> window_inv want startMs endMs data st0 (ys @ [x]) s')"
      by (rule yields_bind_eq[OF y])
    then show ?thesis
      unfolding read_wanted_def s xe e(1) prod.case ParseUint_id_name option.case
      using True e(3) by (simp add: Let_def)
  qed
qed

lemma mset_distinct_set: "distinct xs \<Longrightarrow> distinct ys \<Longrightarrow> set xs = set ys \<Longrightarrow> mset xs = mset ys"
  by (simp add: set_eq_iff_mset_eq_distinct)

text \<open>The statistics of a part that is read, and of one that its metadata excludes.\<close>

definition read_stats ::
  "PartMeta \<Rightarrow> uint64 list \<Rightarrow> int64 \<Rightarrow> int64 \<Rightarrow> (uint64, Sample list) gomap \<Rightarrow> QueryStats \<Rightarrow> QueryStats" where
  "read_stats meta want startMs endMs data st =
     (if sint (MaxTime meta) < sint startMs \<or> sint (MinTime meta) > sint endMs then st
      else stats_after (st\<lparr>PartsScanned := PartsScanned st + 1\<rparr>)
             (map (gm_get data) (wanted_ids want data)))"

lemma window_pruned:
  assumes "stored_part fs dir meta data"
    and "sint (MaxTime meta) < sint startMs \<or> sint (MinTime meta) > sint endMs"
  shows "window_of want startMs endMs data sid = []"
proof -
  have "\<forall>sm \<in> set (gm_get data sid). sint (MinTime meta) \<le> sint (Timestamp sm) \<and>
      sint (Timestamp sm) \<le> sint (MaxTime meta)"
    using assms(1) unfolding stored_part_def by (auto simp: gm_get_def split: option.splits)
  then show ?thesis
    using assms(2) by (fastforce simp: window_of_def in_window_def filter_empty_conv)
qed

lemma yields_readPart:
  assumes st: "stored_part fs dir meta data"
  shows "yields fs (readPart dir want startMs endMs st0)
    (\<lambda>r. \<exists>out. r = Inr (out, read_stats meta want startMs endMs data st0) \<and> gm_wf out \<and>
       gm_get out = window_of want startMs endMs data)"
proof (cases "sint (MaxTime meta) < sint startMs \<or> sint (MinTime meta) > sint endMs")
  case True
  then have "gm_get [] = window_of want startMs endMs data"
    using window_pruned[OF st True] by (auto simp: fun_eq_iff)
  then show ?thesis
    unfolding readPart_def using True
    by (intro yields_bind_eq[OF yields_readPartMeta[OF st]]) (auto simp: read_stats_def intro!: yields_return)
next
  case False
  obtain index T V where ix: "lookup fs (dir @ [partSeriesIndex]) = Some (File (Json (JIndex index)))"
    and tv: "lookup fs (dir @ [partTimestampsBin]) = Some (File (Bytes T))"
      "lookup fs (dir @ [partValuesBin]) = Some (File (Bytes V))"
    and wf: "gm_wf index" "fst ` set index = id_name ` fst ` set data"
    by (rule stored_part_index[OF st])
  define st1 where "st1 = st0\<lparr>PartsScanned := PartsScanned st0 + 1\<rparr>"
  define I where "I = window_inv want startMs endMs data st1"
  have fold: "yields fs (io_fold (read_wanted dir want startMs endMs (Encoding meta)) ([], st1) (shuffle w 0 index))
      (\<lambda>r. \<exists>s'. r = Inr s' \<and> I (shuffle w 0 index) s')" for w :: disk
  proof (rule yields_fold)
    show "I [] ([], st1)" by (simp add: I_def window_inv_def stats_after_def wanted_blocks_def)
    fix ys x zs s
    assume sh: "shuffle w 0 index = ys @ x # zs" and inv: "I ys s"
    have "set (shuffle w 0 index) = set (ys @ x # zs)" by (simp only: sh)
    then have xin: "x \<in> set index" by simp
    have d: "distinct (map fst (shuffle w 0 index))"
      using wf(1) by (metis mset_map mset_shuffle mset_eq_imp_distinct_iff)
    have new: "sid \<notin> visited ys" if "fst x = id_name sid" for sid
      by (rule distinct_prefix_visited[OF d, where e = "snd x" and zs = zs])
        (use sh that in \<open>cases x; simp\<close>)
    from yields_read_wanted[OF st ix xin new inv[unfolded I_def]]
    show "yields fs (read_wanted dir want startMs endMs (Encoding meta) s x)
        (\<lambda>r. \<exists>s'. r = Inr s' \<and> I (ys @ [x]) s')" by (simp only: I_def)
  qed
  have names: "mset (map fst (shuffle w 0 index)) = mset (map id_name (map fst data))" for w :: disk
  proof -
    have "distinct (map id_name (map fst data))"
      using st by (simp add: stored_part_def distinct_map inj_on_def)
    moreover have "distinct (map fst index)" by (rule wf(1))
    ultimately have "mset (map fst index) = mset (map id_name (map fst data))"
      using wf(2) by (intro mset_distinct_set) (simp_all add: image_image)
    then show ?thesis by (metis mset_map mset_shuffle)
  qed
  have finish: "\<exists>out. s' = (out, read_stats meta want startMs endMs data st0) \<and> gm_wf out \<and>
       gm_get out = window_of want startMs endMs data" if "I (shuffle w 0 index) s'" for w :: disk and s'
  proof -
    obtain out st' where s: "s' = (out, st')" by (cases s')
    have i: "gm_wf out" "st' = stats_after st1 (wanted_blocks want data (map fst (shuffle w 0 index)))"
      "\<And>sid. gm_get out sid =
        (if sid \<in> visited (shuffle w 0 index) then window_of want startMs endMs data sid else [])"
      using that by (simp_all add: I_def window_inv_def s)
    have "st' = read_stats meta want startMs endMs data st0"
      using i(2) wanted_blocks_perm[OF names[of w], of st1 want data] wanted_blocks_ids[of want data "map fst data"] False
      by (simp add: read_stats_def st1_def wanted_ids_def)
    moreover have "window_of want startMs endMs data sid = []" if "sid \<notin> visited (shuffle w 0 index)" for sid
    proof -
      have "sid \<notin> fst ` set data" using that wf(2) by (auto simp: visited_def)
      then show ?thesis by (simp add: window_of_def gm_get_def map_of_eq_None_iff[THEN iffD2])
    qed
    ultimately show ?thesis using s i(1,3) by (auto simp: fun_eq_iff)
  qed
  have fin: "yields fs (\<lambda>w. io_fold (read_wanted dir want startMs endMs (Encoding meta)) ([], st1) (shuffle w 0 index) w)
      (\<lambda>r. \<exists>out. r = Inr (out, read_stats meta want startMs endMs data st0) \<and> gm_wf out \<and>
         gm_get out = window_of want startMs endMs data)"
  proof (rule yields_world[where f = "\<lambda>w0. io_fold (read_wanted dir want startMs endMs (Encoding meta)) ([], st1) (shuffle w0 0 index)"])
    fix w0 :: disk
    show "yields fs (io_fold (read_wanted dir want startMs endMs (Encoding meta)) ([], st1) (shuffle w0 0 index))
      (\<lambda>r. \<exists>out. r = Inr (out, read_stats meta want startMs endMs data st0) \<and> gm_wf out \<and>
         gm_get out = window_of want startMs endMs data)"
      using fold[of w0] by (rule yields_mono) (use finish[of w0] in blast)
  qed
  have rest: "yields fs
      (let st = st0\<lparr>PartsScanned := PartsScanned st0 + 1\<rparr>
       in io_bind (readPartIndex dir) (\<lambda>index. io_bind (openFile (dir @ [partTimestampsBin]))
            (\<lambda>_. io_bind (openFile (dir @ [partValuesBin]))
              (\<lambda>_ w. io_fold (read_wanted dir want startMs endMs (Encoding meta)) ([], st) (shuffle w 0 index) w))))
      (\<lambda>r. \<exists>out. r = Inr (out, read_stats meta want startMs endMs data st0) \<and> gm_wf out \<and>
         gm_get out = window_of want startMs endMs data)"
    unfolding Let_def st1_def[symmetric]
    by (rule yields_bind_eq[OF yields_readPartIndex[OF ix]],
        rule yields_bind_eq[OF yields_openFile[OF tv(1)]],
        rule yields_bind_eq[OF yields_openFile[OF tv(2)]], rule fin)
  show ?thesis
    unfolding readPart_def
    by (rule yields_bind_eq[OF yields_readPartMeta[OF st]]) (use False rest in \<open>simp only: if_False\<close>)
qed

end
