(* ===== verification/PartWrite.thy ===== *)
theory PartWrite
  imports PartStore
begin

text \<open>
  \<open>writePartEncoded\<close> establishes the abstraction of \<open>PartStore\<close>. What the two block encodings
  have to provide is the interface \<open>series_encoding\<close>; the raw and the gorilla encoding of the
  code are its instances.
\<close>

section \<open>The interface of a block encoding\<close>

text \<open>
  \<open>put\<close> appends the block of a series to the two buffers and describes it by an index entry;
  \<open>get\<close> finds the block again in any files that extend the buffers.
\<close>

definition no_bufs :: part_bufs where
  "no_bufs = \<lparr>tsBuf = [], valBuf = [], raw_offset = 0\<rparr>"

definition file_fits :: "bytes \<Rightarrow> bool" where
  "file_fits data \<longleftrightarrow> length data \<le> 2 ^ 48"

text \<open>A slice of 16-byte samples the runtime can allocate.\<close>

definition samples_fit :: "Sample list \<Rightarrow> bool" where
  "samples_fit samples \<longleftrightarrow> length samples \<le> 2 ^ 44"

lemma samples_fit_count:
  assumes "samples_fit samples"
  shows "unat (of_nat (length samples) :: uint64) = length samples"
    and "makeslice_ok 16 (of_nat (length samples))"
  using assms by (auto simp: samples_fit_def intro!: unat_of_nat_u64 makeslice_ok_of_nat)

type_synonym put_state = "part_bufs \<times> (string, seriesIndexEntry) gomap"

definition put_series ::
  "(Sample list \<Rightarrow> part_bufs \<Rightarrow> seriesIndexEntry \<times> part_bufs) \<Rightarrow> put_state \<Rightarrow>
   uint64 \<times> Sample list \<Rightarrow> put_state" where
  "put_series put = (\<lambda>(b, index) (sid, samples).
     (let (entry, b') = put samples b in (b', AList.update (id_name sid) entry index)))"

locale series_encoding =
  fixes put :: "Sample list \<Rightarrow> part_bufs \<Rightarrow> seriesIndexEntry \<times> part_bufs"
    and get :: "bytes \<Rightarrow> bytes \<Rightarrow> seriesIndexEntry \<Rightarrow> Sample list res"
    and bufs_ok :: "part_bufs \<Rightarrow> bool"
  assumes no_bufs_ok: "bufs_ok no_bufs"
    and put_ok: "bufs_ok b \<Longrightarrow> put samples b = (e, b') \<Longrightarrow> bufs_ok b'"
    and put_extends: "put samples b = (e, b') \<Longrightarrow> prefix (tsBuf b) (tsBuf b') \<and> prefix (valBuf b) (valBuf b')"
    and put_count: "put samples b = (e, b') \<Longrightarrow> Count e = of_nat (length samples)"
    and get_put: "bufs_ok b \<Longrightarrow> put samples b = (e, b') \<Longrightarrow> samples_fit samples \<Longrightarrow>
      prefix (tsBuf b') T \<Longrightarrow> prefix (valBuf b') V \<Longrightarrow> file_fits T \<Longrightarrow> file_fits V \<Longrightarrow>
      get T V e = Inr samples"
begin

lemma put_all_extends:
  "foldl (put_series put) (b, index) blocks = (b', index') \<Longrightarrow>
   prefix (tsBuf b) (tsBuf b') \<and> prefix (valBuf b) (valBuf b')"
proof (induction blocks arbitrary: b index)
  case Nil
  then show ?case by simp
next
  case (Cons x blocks)
  obtain sid samples where x: "x = (sid, samples)" by (cases x)
  obtain e b1 where p: "put samples b = (e, b1)" by (cases "put samples b")
  from Cons.prems have "foldl (put_series put) (b1, AList.update (id_name sid) e index) blocks = (b', index')"
    by (simp add: put_series_def x p)
  from Cons.IH[OF this] put_extends[OF p] show ?case by (auto intro: prefix_order.trans)
qed

lemma put_all_index:
  "foldl (put_series put) (b, index) blocks = (b', index') \<Longrightarrow> gm_wf index \<Longrightarrow>
   gm_wf index' \<and> fst ` set index' = fst ` set index \<union> id_name ` fst ` set blocks \<and>
   (\<forall>k. k \<notin> id_name ` fst ` set blocks \<longrightarrow> map_of index' k = map_of index k)"
proof (induction blocks arbitrary: b index)
  case Nil
  then show ?case by simp
next
  case (Cons x blocks)
  obtain sid samples where x: "x = (sid, samples)" by (cases x)
  obtain e b1 where p: "put samples b = (e, b1)" by (cases "put samples b")
  from Cons.prems have "foldl (put_series put) (b1, AList.update (id_name sid) e index) blocks = (b', index')"
    by (simp add: put_series_def x p)
  from Cons.IH[OF this] Cons.prems(2) show ?case
    by (auto simp: x dom_update image_set[symmetric] simp del: image_set)
qed

text \<open>Every block is found through its entry.\<close>

lemma put_all_get:
  "foldl (put_series put) (b, index) blocks = (b', index') \<Longrightarrow> gm_wf index \<Longrightarrow> bufs_ok b \<Longrightarrow>
   distinct (map fst blocks) \<Longrightarrow> (sid, samples) \<in> set blocks \<Longrightarrow> samples_fit samples \<Longrightarrow>
   prefix (tsBuf b') T \<Longrightarrow> prefix (valBuf b') V \<Longrightarrow> file_fits T \<Longrightarrow> file_fits V \<Longrightarrow>
   \<exists>e. map_of index' (id_name sid) = Some e \<and> Count e = of_nat (length samples) \<and>
     get T V e = Inr samples"
proof (induction blocks arbitrary: b index)
  case Nil
  then show ?case by simp
next
  case (Cons x blocks)
  obtain k xs where x: "x = (k, xs)" by (cases x)
  obtain e b1 where p: "put xs b = (e, b1)" by (cases "put xs b")
  let ?index = "AList.update (id_name k) e index"
  from Cons.prems(1) have f: "foldl (put_series put) (b1, ?index) blocks = (b', index')"
    by (simp add: put_series_def x p)
  have wf: "gm_wf ?index" using Cons.prems(2) by simp
  show ?case
  proof (cases "sid = k")
    case True
    have ts: "prefix (tsBuf b1) T" "prefix (valBuf b1) V"
      using put_all_extends[OF f] Cons.prems(7,8) by (auto intro: prefix_order.trans)
    have "samples = xs"
      using Cons.prems(4,5) True x by (force simp: image_iff)
    moreover have "id_name k \<notin> id_name ` fst ` set blocks"
      using Cons.prems(4) x by (force simp: image_iff)
    ultimately show ?thesis
      using True put_all_index[OF f wf] put_count[OF p]
        get_put[OF Cons.prems(3) p _ ts Cons.prems(9,10)] Cons.prems(6) by simp
  next
    case False
    with Cons.prems x show ?thesis
      by (intro Cons.IH[OF f wf put_ok[OF Cons.prems(3) p]]) auto
  qed
qed

end

section \<open>The gorilla encoding\<close>

lemma readAt_block:
  assumes "prefix (pre @ block) data" and "file_fits data"
  shows "readAt data (unat (of_nat (length block) :: uint64)) (of_nat (length pre)) = Inr block"
    and "makeslice_ok 1 (of_nat (length block))"
proof -
  obtain post where d: "data = pre @ block @ post" using assms(1) by (auto simp: prefix_def)
  have len: "length pre + length block \<le> 2 ^ 48" using assms(2) d by (simp add: file_fits_def)
  then have u: "unat (of_nat (length block) :: uint64) = length block"
    "unat (of_nat (length pre) :: uint64) = length pre" by (auto intro!: unat_of_nat_u64)
  have s: "sint (of_nat (length pre) :: uint64) = int (length pre)"
  proof -
    have "int (length pre) < 2 ^ 63" using len by simp
    then show ?thesis by (simp add: signed_of_nat signed_take_bit_int_eq_self)
  qed
  show "readAt data (unat (of_nat (length block) :: uint64)) (of_nat (length pre)) = Inr block"
    using d by (simp add: readAt_def u s)
  show "makeslice_ok 1 (of_nat (length block))" using len u(1) by (simp add: makeslice_ok_def)
qed

lemma map2_samples [simp]:
  "map2 (\<lambda>t v. \<lparr>Timestamp = t, Value = v\<rparr>) (map Timestamp xs) (map Value xs) = xs"
  by (induction xs) simp_all

lemma decode_block_encode:
  assumes "samples_fit samples"
  shows "decode_block (encodeTimestamps (sampleTimestamps samples)) (encodeValues (sampleValues samples))
    (of_nat (length samples)) = Inr samples"
proof -
  have "fits_slice (sampleTimestamps samples)" "fits_slice (sampleValues samples)"
    using assms by (simp_all add: samples_fit_def fits_slice_def sampleTimestamps_def sampleValues_def)
  note ts = tsb.decb_encb[OF this(1)] and vs = vsb.decb_encb[OF this(2)]
  have len: "length (sampleTimestamps samples) = length samples" "length (sampleValues samples) = length samples"
    by (simp_all add: sampleTimestamps_def sampleValues_def)
  show ?thesis
    unfolding decode_block_def ts vs rbind_simps len using samples_fit_count(2)[OF assms]
    by (simp add: sampleTimestamps_def sampleValues_def)
qed

interpretation gorilla: series_encoding "write_block encodingGorilla" "block_of encodingGorilla" "\<lambda>_. True"
proof unfold_locales
  fix samples b e b' T V
  assume p: "write_block encodingGorilla samples b = (e, b')" and fits: "samples_fit samples"
    and ext: "prefix (tsBuf b') T" "prefix (valBuf b') V" and ff: "file_fits T" "file_fits V"
  let ?ts = "encodeTimestamps (sampleTimestamps samples)" and ?vs = "encodeValues (sampleValues samples)"
  have b': "tsBuf b' = tsBuf b @ ?ts" "valBuf b' = valBuf b @ ?vs"
    and e: "TSOffset e = of_nat (length (tsBuf b))" "TSLength e = of_nat (length ?ts)"
      "ValOffset e = of_nat (length (valBuf b))" "ValLength e = of_nat (length ?vs)"
      "Count e = of_nat (length samples)"
    using p by (auto simp: write_block_def Let_def)
  note t = readAt_block[OF ext(1)[unfolded b'] ff(1)] and v = readAt_block[OF ext(2)[unfolded b'] ff(2)]
  show "block_of encodingGorilla T V e = Inr samples"
    unfolding block_of_def e using t v decode_block_encode[OF fits] by simp
qed (auto simp: write_block_def Let_def)

section \<open>The raw encoding\<close>

definition raw_ok :: "part_bufs \<Rightarrow> bool" where
  "raw_ok b \<longleftrightarrow> (\<exists>n. length (tsBuf b) = 8 * n \<and> length (valBuf b) = 8 * n \<and> raw_offset b = of_nat n)"

lemma length_concat_u64 [simp]: "length (concat (map (put_uint64 \<circ> f) xs)) = 8 * length xs"
  by (induction xs) simp_all

lemma raw_cell_concat:
  "i < length xs \<Longrightarrow> raw_cell (concat (map (put_uint64 \<circ> f) xs)) i = f (xs ! i)"
proof (induction xs arbitrary: i)
  case (Cons x xs)
  show ?case
  proof (cases i)
    case 0
    then show ?thesis by (simp add: raw_cell_def)
  next
    case (Suc j)
    then show ?thesis using Cons by (simp add: raw_cell_def)
  qed
qed simp

interpretation raw: series_encoding "write_block encodingRaw" "block_of encodingRaw" raw_ok
proof unfold_locales
  show "raw_ok no_bufs" by (auto simp: raw_ok_def no_bufs_def)
next
  fix samples b e b'
  assume "raw_ok b" and p: "write_block encodingRaw samples b = (e, b')"
  then obtain n where n: "length (tsBuf b) = 8 * n" "length (valBuf b) = 8 * n" "raw_offset b = of_nat n"
    by (auto simp: raw_ok_def)
  then show "raw_ok b'"
    using p unfolding raw_ok_def
    by (intro exI[of _ "n + length samples"]) (auto simp: write_block_def encodingRaw_def encodingGorilla_def)
next
  fix samples b e b' T V
  assume ok: "raw_ok b" and p: "write_block encodingRaw samples b = (e, b')" and fits: "samples_fit samples"
    and ext: "prefix (tsBuf b') T" "prefix (valBuf b') V" and ff: "file_fits T" "file_fits V"
  let ?ts = "concat (map (put_uint64 \<circ> Timestamp) samples)" and ?vs = "concat (map (put_uint64 \<circ> Value) samples)"
  from ok obtain n where n: "length (tsBuf b) = 8 * n" "length (valBuf b) = 8 * n" "raw_offset b = of_nat n"
    by (auto simp: raw_ok_def)
  have b': "tsBuf b' = tsBuf b @ ?ts" "valBuf b' = valBuf b @ ?vs"
    and e: "Offset e * 8 = of_nat (8 * n)" "Count e * 8 = of_nat (8 * length samples)"
      "Count e = of_nat (length samples)"
    using p n(3) by (auto simp: write_block_def encodingRaw_def encodingGorilla_def)
  note t = readAt_block[OF ext(1)[unfolded b'] ff(1), unfolded n length_concat_u64]
    and v = readAt_block[OF ext(2)[unfolded b'] ff(2), unfolded n length_concat_u64]
  note cnt = samples_fit_count[OF fits]
  have "raw_block ?ts ?vs (of_nat (length samples)) = Inr samples"
    using cnt by (auto simp: raw_block_def raw_cell_concat intro!: nth_equalityI)
  then show "block_of encodingRaw T V e = Inr samples"
    unfolding block_of_def e using t v by (simp add: encodingRaw_def encodingGorilla_def mult.commute[of _ 8])
qed (auto simp: write_block_def encodingRaw_def encodingGorilla_def)

section \<open>The image of a part\<close>

definition known_encoding :: "string \<Rightarrow> bool" where
  "known_encoding encoding \<longleftrightarrow> encoding = encodingGorilla \<or> encoding = encodingRaw"

lemma write_series_put:
  "foldl (write_series encoding) (b, index, meta) blocks = (b', index', meta') \<Longrightarrow>
   foldl (put_series (write_block encoding)) (b, index) blocks = (b', index')"
proof (induction blocks arbitrary: b index meta)
  case (Cons x blocks)
  then show ?case
    by (cases x) (auto simp: write_series_def put_series_def id_name_def Let_def split: prod.splits)
qed simp

subsection \<open>Metadata\<close>

definition covers :: "PartMeta \<Rightarrow> Sample list \<Rightarrow> bool" where
  "covers meta samples \<longleftrightarrow> (\<forall>sm \<in> set samples.
     sint (MinTime meta) \<le> sint (Timestamp sm) \<and> sint (Timestamp sm) \<le> sint (MaxTime meta))"

definition wider :: "PartMeta \<Rightarrow> PartMeta \<Rightarrow> bool" where
  "wider m m' \<longleftrightarrow> sint (MinTime m') \<le> sint (MinTime m) \<and> sint (MaxTime m) \<le> sint (MaxTime m') \<and>
     Encoding m' = Encoding m \<and> Tier m' = Tier m"

lemma wider_refl [simp]: "wider m m"
  by (simp add: wider_def)

lemma wider_trans: "wider a b \<Longrightarrow> wider b c \<Longrightarrow> wider a c"
  by (auto simp: wider_def)

lemma covers_wider: "covers m xs \<Longrightarrow> wider m m' \<Longrightarrow> covers m' xs"
  by (fastforce simp: covers_def wider_def)

lemma widen_covers: "wider m (widen m sm)" "covers (widen m sm) [sm]"
  by (auto simp: wider_def covers_def widen_def Let_def)

lemma foldl_widen: "wider m (foldl widen m xs) \<and> covers (foldl widen m xs) xs"
proof (induction xs arbitrary: m)
  case (Cons x xs)
  have "wider (widen m x) (foldl widen (widen m x) xs)" and c: "covers (foldl widen (widen m x) xs) xs"
    using Cons.IH by blast+
  with widen_covers[of m x] have "covers (foldl widen (widen m x) xs) [x]" by (blast intro: covers_wider)
  with c have "covers (foldl widen (widen m x) xs) (x # xs)" by (simp add: covers_def)
  then show ?case using Cons.IH[of "widen m x"] widen_covers(1)[of m x] by (auto intro: wider_trans)
qed (simp add: covers_def)

lemma write_series_meta:
  "foldl (write_series encoding) (b, index, meta) blocks = (b', index', meta') \<Longrightarrow>
   wider meta meta' \<and> (\<forall>(sid, samples) \<in> set blocks. covers meta' samples)"
proof (induction blocks arbitrary: b index meta)
  case (Cons x blocks)
  obtain sid samples where x: "x = (sid, samples)" by (cases x)
  obtain e b1 where p: "write_block encoding samples b = (e, b1)" by (cases "write_block encoding samples b")
  define m where "m = (foldl widen meta samples)\<lparr>SamplesCount := SamplesCount (foldl widen meta samples) + of_nat (length samples)\<rparr>"
  have m: "wider meta m" "covers m samples"
    using foldl_widen[of meta samples] by (simp_all add: m_def wider_def covers_def)
  from Cons.prems have "foldl (write_series encoding) (b1, AList.update (dec_string (unat sid)) e index, m) blocks = (b', index', meta')"
    by (simp add: write_series_def x p m_def Let_def)
  from Cons.IH[OF this] m show ?case by (auto simp: x intro: wider_trans covers_wider)
qed simp

text \<open>The counters.\<close>

lemma widen_counts [simp]:
  "SamplesCount (foldl widen m xs) = SamplesCount m" "SeriesCount (foldl widen m xs) = SeriesCount m"
  by (induction xs arbitrary: m) (simp_all add: widen_def Let_def)

lemma write_series_samples:
  "foldl (write_series encoding) (b, index, meta) blocks = (b', index', meta') \<Longrightarrow>
   SamplesCount meta' = SamplesCount meta + of_nat (length (concat (map snd blocks)))"
proof (induction blocks arbitrary: b index meta)
  case (Cons x blocks)
  then show ?case
    by (cases x) (auto simp: write_series_def Let_def split: prod.splits dest!: Cons.IH)
qed simp

subsection \<open>Size\<close>

definition block_room :: "Sample list \<Rightarrow> nat" where
  "block_room samples = 18 + 16 * length samples"

lemma write_block_size:
  "write_block encoding samples b = (e, b') \<Longrightarrow>
   length (tsBuf b') \<le> length (tsBuf b) + block_room samples \<and>
   length (valBuf b') \<le> length (valBuf b) + block_room samples"
  using encodeTimestamps_size[of "sampleTimestamps samples"] encodeValues_size[of "sampleValues samples"]
  by (auto simp: write_block_def block_room_def Let_def sampleTimestamps_def sampleValues_def split: if_splits)

lemma put_series_size:
  "foldl (put_series (write_block encoding)) (b, index) blocks = (b', index') \<Longrightarrow>
   length (tsBuf b') \<le> length (tsBuf b) + sum_list (map (block_room \<circ> snd) blocks) \<and>
   length (valBuf b') \<le> length (valBuf b) + sum_list (map (block_room \<circ> snd) blocks)"
proof (induction blocks arbitrary: b index)
  case (Cons x blocks)
  obtain sid samples where x: "x = (sid, samples)" by (cases x)
  obtain e b1 where p: "write_block encoding samples b = (e, b1)" by (cases "write_block encoding samples b")
  from Cons.prems have "foldl (put_series (write_block encoding)) (b1, AList.update (id_name sid) e index) blocks = (b', index')"
    by (simp add: put_series_def x p)
  from Cons.IH[OF this] write_block_size[OF p] show ?case by (simp add: x)
qed simp

text \<open>
  \<open>part_fits data\<close>: the two buffers, which the writer holds in memory, stay within the address
  space.
\<close>

definition part_fits :: "(uint64, Sample list) gomap \<Rightarrow> bool" where
  "part_fits data \<longleftrightarrow> sum_list (map (block_room \<circ> snd) data) \<le> 2 ^ 48"

lemma part_fits_samples:
  assumes "sum_list (map (block_room \<circ> snd) blocks) \<le> 2 ^ 48" and "(sid, samples) \<in> set blocks"
  shows "samples_fit samples"
proof -
  have "block_room samples \<in> set (map (block_room \<circ> snd) blocks)" using assms(2) by force
  then have "block_room samples \<le> 2 ^ 48" using assms(1) member_le_sum_list by fastforce
  then show ?thesis by (simp add: block_room_def samples_fit_def)
qed

subsection \<open>Files with the image hold the part\<close>

lemma encoding_instance:
  assumes "known_encoding encoding"
    and "foldl (put_series (write_block encoding)) (no_bufs, []) blocks = (b, index)"
    and "distinct (map fst blocks)" and "(sid, samples) \<in> set blocks"
    and "sum_list (map (block_room \<circ> snd) blocks) \<le> 2 ^ 48"
  shows "\<exists>e. map_of index (id_name sid) = Some e \<and> Count e = of_nat (length samples) \<and>
    block_of encoding (tsBuf b) (valBuf b) e = Inr samples"
proof -
  have ff: "file_fits (tsBuf b)" "file_fits (valBuf b)"
    using put_series_size[OF assms(2)] assms(5) by (simp_all add: file_fits_def no_bufs_def)
  have fit: "samples_fit samples" by (rule part_fits_samples[OF assms(5,4)])
  from assms(1) consider "encoding = encodingGorilla" | "encoding = encodingRaw"
    by (auto simp: known_encoding_def)
  then show ?thesis
  proof cases
    case 1
    show ?thesis
      using gorilla.put_all_get[OF assms(2)[unfolded 1] _ _ assms(3,4) fit _ _ ff] unfolding 1 by simp
  next
    case 2
    show ?thesis
      using raw.put_all_get[OF assms(2)[unfolded 2] _ raw.no_bufs_ok assms(3,4) fit _ _ ff] unfolding 2 by simp
  qed
qed

lemma part_image_stored:
  assumes enc: "known_encoding encoding" and d: "distinct (map fst blocks)"
    and fits: "sum_list (map (block_room \<circ> snd) blocks) \<le> 2 ^ 48"
    and img: "part_image tier encoding blocks = (b, index, meta)"
    and files: "lookup fs (dir @ [partTimestampsBin]) = Some (File (Bytes (tsBuf b)))"
      "lookup fs (dir @ [partValuesBin]) = Some (File (Bytes (valBuf b)))"
      "lookup fs (dir @ [partSeriesIndex]) = Some (File (Json (JIndex index)))"
      "lookup fs (dir @ [partMetaFile]) = Some (File (Json (JMeta meta)))"
  shows "stored_part fs dir meta blocks \<and> Tier meta = tier \<and> Encoding meta = encoding \<and>
    SeriesCount meta = of_nat (length blocks) \<and>
    SamplesCount meta = of_nat (length (concat (map snd blocks)))"
proof -
  obtain m where f: "foldl (write_series encoding) (no_bufs, [], new_meta tier encoding) blocks = (b, index, m)"
    and m: "meta = m\<lparr>SeriesCount := of_nat (length blocks)\<rparr>"
    using img by (auto simp: part_image_def no_bufs_def Let_def split: prod.splits)
  note p = write_series_put[OF f] and mt = write_series_meta[OF f] and sc = write_series_samples[OF f]
  have enc': "Encoding meta = encoding" "Tier meta = tier"
    using mt by (auto simp: m wider_def new_meta_def)
  have ix: "gm_wf index \<and> fst ` set index = id_name ` fst ` set blocks"
  proof (cases "encoding = encodingGorilla")
    case True
    show ?thesis using gorilla.put_all_index[OF p[unfolded True]] by simp
  next
    case False
    then have "encoding = encodingRaw" using enc by (simp add: known_encoding_def)
    then show ?thesis using raw.put_all_index[of no_bufs "[]" blocks b index] p by simp
  qed
  have blk: "\<exists>e. map_of index (id_name sid) = Some e \<and> Count e = of_nat (length samples) \<and>
      block_of (Encoding meta) (tsBuf b) (valBuf b) e = Inr samples"
    if "map_of blocks sid = Some samples" for sid samples
    unfolding enc' by (rule encoding_instance[OF enc p d map_of_SomeD[OF that] fits])
  have times: "\<forall>sm \<in> set samples. sint (MinTime meta) \<le> sint (Timestamp sm) \<and>
      sint (Timestamp sm) \<le> sint (MaxTime meta)" if "map_of blocks sid = Some samples" for sid samples
    using mt map_of_SomeD[OF that] by (auto simp: m covers_def)
  have "stored_part fs dir meta blocks"
    unfolding stored_part_def
    by (intro conjI exI[of _ index] exI[of _ "tsBuf b"] exI[of _ "valBuf b"] allI impI d files
        conjunct1[OF ix] conjunct2[OF ix] blk times)
  then show ?thesis using enc' sc by (simp add: m new_meta_def)
qed

section \<open>The files \<open>writePartEncoded\<close> leaves\<close>

text \<open>The same series with the same samples, each series sorted by time.\<close>

definition sorted_version :: "(uint64, Sample list) gomap \<Rightarrow> (uint64, Sample list) gomap \<Rightarrow> bool" where
  "sorted_version data blocks \<longleftrightarrow> gm_wf blocks \<and> mset (map fst blocks) = mset (map fst data) \<and>
     (\<forall>sid. mset (gm_get blocks sid) = mset (gm_get data sid) \<and>
        sorted (map sample_time (gm_get blocks sid)))"

lemma mset_sortSamples [simp]: "mset (sortSamples w salt xs) = mset xs"
  by (simp add: sortSamples_def)

lemma sorted_sortSamples [simp]: "sorted (map sample_time (sortSamples w salt xs))"
  by (simp add: sortSamples_def)

lemma map_fst_sorted_blocks [simp]: "map fst (sorted_blocks w data) = sort (map fst data)"
  by (simp add: sorted_blocks_def o_def)

lemma map_of_sorted_blocks:
  "map_of (sorted_blocks w data) sid =
     (if sid \<in> fst ` set data then Some (sortSamples w (unat sid) (gm_get data sid)) else None)"
  unfolding sorted_blocks_def map_of_map_restrict by (simp add: restrict_map_def)

lemma gm_get_sorted_blocks:
  "gm_get (sorted_blocks w data) sid = (if sid \<in> fst ` set data then sortSamples w (unat sid) (gm_get data sid) else [])"
  by (simp add: gm_get_def[of "sorted_blocks w data"] map_of_sorted_blocks)

lemma gm_get_absent: "sid \<notin> fst ` set data \<Longrightarrow> gm_get data sid = []"
  by (simp add: gm_get_def map_of_eq_None_iff[THEN iffD2])

lemma sorted_version_sorted_blocks:
  assumes "gm_wf data"
  shows "sorted_version data (sorted_blocks w data)"
  using assms by (auto simp: sorted_version_def gm_get_sorted_blocks gm_get_absent)

lemma block_room_sorted_blocks:
  assumes "gm_wf data"
  shows "sum_list (map (block_room \<circ> snd) (sorted_blocks w data)) = sum_list (map (block_room \<circ> snd) data)"
proof -
  have len: "length (sortSamples w salt xs) = length xs" for salt xs
    by (simp add: sortSamples_def)
  have "sum_list (map (block_room \<circ> snd) (sorted_blocks w data))
      = sum_list (map (\<lambda>sid. block_room (gm_get data sid)) (sort (map fst data)))"
    by (simp add: sorted_blocks_def o_def block_room_def len)
  also have "\<dots> = sum_list (map (\<lambda>sid. block_room (gm_get data sid)) (map fst data))"
    by (simp only: sum_mset_sum_list[symmetric] mset_map mset_sort)
  also have "\<dots> = sum_list (map (block_room \<circ> snd) data)"
  proof -
    have "gm_get data (fst x) = snd x" if "x \<in> set data" for x
    proof -
      have "map_of data (fst x) = Some (snd x)" using that assms by simp
      then show ?thesis by (simp add: gm_get_def)
    qed
    then have "map ((\<lambda>sid. block_room (gm_get data sid)) \<circ> fst) data = map (block_room \<circ> snd) data"
      unfolding map_eq_conv comp_def by simp
    then show ?thesis by (simp only: list.map_comp)
  qed
  finally show ?thesis .
qed

lemma writeJSON_Inr:
  assumes "writeJSON (d @ [f]) doc w = (Inr u, w')"
  shows "lookup (w_fs w') (d @ [f]) = Some (File (Json doc))"
    and "\<not> prefix (d @ [f]) q \<Longrightarrow> \<not> prefix (d @ [f @ ''.tmp'']) q \<Longrightarrow> lookup (w_fs w') q = lookup (w_fs w) q"
proof -
  have t: "tmp_path (d @ [f]) = d @ [f @ ''.tmp'']" by (simp add: tmp_path_def)
  obtain w1 where w1: "writeFile (d @ [f @ ''.tmp'']) (Json doc) w = (Inr (), w1)"
    "rename (d @ [f @ ''.tmp'']) (d @ [f]) w1 = (Inr u, w')"
    using assms unfolding writeJSON_def t by (auto simp: io_bind_Inr_iff)
  have fs1: "lookup (w_fs w1) q = (if q = d @ [f @ ''.tmp''] then Some (File (Json doc)) else lookup (w_fs w) q)" for q
    using writeFile_Inr[OF w1(1)] by simp
  have fs2: "w_fs w' = subtree_move (d @ [f @ ''.tmp'']) (d @ [f]) (w_fs w1)"
    using rename_Inr[OF w1(2)] by simp
  show "lookup (w_fs w') (d @ [f]) = Some (File (Json doc))"
    by (simp add: fs2 lookup_subtree_move fs1)
  show "\<not> prefix (d @ [f]) q \<Longrightarrow> \<not> prefix (d @ [f @ ''.tmp'']) q \<Longrightarrow> lookup (w_fs w') q = lookup (w_fs w) q"
    by (auto simp: fs2 lookup_subtree_move fs1)
qed

lemma confined_writeJSON [confined_rules]:
  assumes "\<And>q. prefix (d @ [f]) q \<Longrightarrow> P q" and "\<And>q. prefix (d @ [f @ ''.tmp'']) q \<Longrightarrow> P q"
    and "\<not> prefix (d @ [f]) e" and "\<not> prefix (d @ [f @ ''.tmp'']) e"
  shows "confined e P (writeJSON (d @ [f]) doc)"
  unfolding writeJSON_def tmp_path_def
  by (intro confined_bind confined_writeFile confined_rename) (use assms in simp_all)

lemmas part_file_names = partMetaFile_def partSeriesIndex_def partTimestampsBin_def partValuesBin_def

lemma writePartEncoded_Inr:
  assumes run: "writePartEncoded dir data tier encoding w = (Inr meta, w')"
    and enc: "known_encoding encoding" and wf: "gm_wf data" and fits: "part_fits data"
  shows "\<exists>blocks. sorted_version data blocks \<and> stored_part (w_fs w') dir meta blocks \<and>
    Tier meta = tier \<and> Encoding meta = encoding \<and>
    SeriesCount meta = of_nat (length data) \<and>
    SamplesCount meta = of_nat (length (concat (map snd data))) \<and>
    dirs_to (w_fs w') dir"
proof -
  obtain w1 where w1: "mkdirAll dir w = (Inr (), w1)" and run1: "(\<lambda>w. case part_image tier encoding (sorted_blocks w data) of (b, index, meta) \<Rightarrow>
         io_bind (writeFile (dir @ [partTimestampsBin]) (Bytes (tsBuf b))) (\<lambda>_.
         io_bind (writeFile (dir @ [partValuesBin]) (Bytes (valBuf b))) (\<lambda>_.
         io_bind (writeJSON (dir @ [partSeriesIndex]) (JIndex index)) (\<lambda>_.
         io_bind (writeJSON (dir @ [partMetaFile]) (JMeta meta)) (\<lambda>_.
         io_return meta)))) w) w1 = (Inr meta, w')"
    using run unfolding writePartEncoded_def by (auto simp: io_bind_Inr_iff)
  define blocks where "blocks = sorted_blocks w1 data"
  obtain b index m where img: "part_image tier encoding blocks = (b, index, m)" by (metis prod_cases3)
  from run1 img obtain w2 w3 w4 where
    w2: "writeFile (dir @ [partTimestampsBin]) (Bytes (tsBuf b)) w1 = (Inr (), w2)" and
    w3: "writeFile (dir @ [partValuesBin]) (Bytes (valBuf b)) w2 = (Inr (), w3)" and
    w4: "writeJSON (dir @ [partSeriesIndex]) (JIndex index) w3 = (Inr (), w4)" and
    w5: "writeJSON (dir @ [partMetaFile]) (JMeta m) w4 = (Inr (), w')" and m: "m = meta"
    unfolding blocks_def[symmetric] by (auto simp: io_bind_Inr_iff io_run)
  note j4 = writeJSON_Inr[OF w4] and j5 = writeJSON_Inr[OF w5] and f2 = writeFile_Inr[OF w2] and f3 = writeFile_Inr[OF w3]
  have files: "lookup (w_fs w') (dir @ [partTimestampsBin]) = Some (File (Bytes (tsBuf b)))"
      "lookup (w_fs w') (dir @ [partValuesBin]) = Some (File (Bytes (valBuf b)))"
      "lookup (w_fs w') (dir @ [partSeriesIndex]) = Some (File (Json (JIndex index)))"
      "lookup (w_fs w') (dir @ [partMetaFile]) = Some (File (Json (JMeta m)))"
    using j4(1) j5(1) f2 f3 by (simp_all add: j5(2) j4(2) part_file_names)
  have sv: "sorted_version data blocks" unfolding blocks_def by (rule sorted_version_sorted_blocks[OF wf])
  have room: "sum_list (map (block_room \<circ> snd) blocks) \<le> 2 ^ 48"
    unfolding blocks_def block_room_sorted_blocks[OF wf] using fits by (simp add: part_fits_def)
  have "distinct (map fst blocks)" using wf by (simp add: blocks_def)
  note st = part_image_stored[OF enc this room img files]
  have len: "length blocks = length data" by (simp add: blocks_def sorted_blocks_def)
  moreover have "length (concat (map snd blocks)) = length (concat (map snd data))"
  proof -
    have "sum_list (map (block_room \<circ> snd) xs) = 18 * length xs + 16 * length (concat (map snd xs))"
      for xs :: "(uint64 \<times> Sample list) list"
      by (induction xs) (simp_all add: block_room_def)
    then show ?thesis using block_room_sorted_blocks[OF wf, of w1] len by (simp add: blocks_def)
  qed
  moreover have "dirs_to (w_fs w') dir"
  proof -
    have sub: "\<not> prefix (dir @ [x]) dir" for x by (auto dest: prefix_length_le)
    have c: "confined dir (\<lambda>_. True) (writeFile q c)" "confined dir (\<lambda>_. True) (writeJSON (dir @ [f]) doc)"
      for q c f doc by (auto intro!: confined_writeFile confined_writeJSON simp: sub)
    have "dirs_to (w_fs w2) dir" using confinedD(1)[OF c(1) w2] mkdirAll_Inr[OF w1] by blast
    then have "dirs_to (w_fs w3) dir" using confinedD(1)[OF c(1) w3] by blast
    then have "dirs_to (w_fs w4) dir" using confinedD(1)[OF c(2) w4] by blast
    then show ?thesis using confinedD(1)[OF c(2) w5] by blast
  qed
  ultimately show ?thesis using st sv m by metis
qed

lemma confined_writePart:
  "confined d (prefix (d @ [x])) (writePartEncoded (d @ [x]) data tier encoding)"
proof -
  have mk: "confined d (prefix (d @ [x])) (mkdirAll (d @ [x]))"
    by (rule confined_mkdirAll) auto
  have files: "confined d (prefix (d @ [x])) (writeFile ((d @ [x]) @ [f]) c)" for f c
    by (rule confined_writeFile) simp
  have json: "confined d (prefix (d @ [x])) (writeJSON ((d @ [x]) @ [f]) doc)" for f doc
    by (rule confined_writeJSON) (auto dest: prefix_length_le intro: prefix_order.trans[rotated])
  have body: "confined d (prefix (d @ [x])) (\<lambda>w. case part_image tier encoding (sorted_blocks w data) of (b, index, meta) \<Rightarrow>
         io_bind (writeFile ((d @ [x]) @ [partTimestampsBin]) (Bytes (tsBuf b))) (\<lambda>_.
         io_bind (writeFile ((d @ [x]) @ [partValuesBin]) (Bytes (valBuf b))) (\<lambda>_.
         io_bind (writeJSON ((d @ [x]) @ [partSeriesIndex]) (JIndex index)) (\<lambda>_.
         io_bind (writeJSON ((d @ [x]) @ [partMetaFile]) (JMeta meta)) (\<lambda>_.
         io_return meta)))) w)"
    unfolding confined_def
  proof
    fix w
    obtain b index meta where img: "part_image tier encoding (sorted_blocks w data) = (b, index, meta)"
      by (metis prod_cases3)
    have "confined d (prefix (d @ [x])) (io_bind (writeFile ((d @ [x]) @ [partTimestampsBin]) (Bytes (tsBuf b))) (\<lambda>_.
         io_bind (writeFile ((d @ [x]) @ [partValuesBin]) (Bytes (valBuf b))) (\<lambda>_.
         io_bind (writeJSON ((d @ [x]) @ [partSeriesIndex]) (JIndex index)) (\<lambda>_.
         io_bind (writeJSON ((d @ [x]) @ [partMetaFile]) (JMeta meta)) (\<lambda>_.
         io_return meta)))))"
      by (intro confined_bind files json confined_return)
    then show "step_confined d (prefix (d @ [x])) w (snd (case part_image tier encoding (sorted_blocks w data) of (b, index, meta) \<Rightarrow>
         io_bind (writeFile ((d @ [x]) @ [partTimestampsBin]) (Bytes (tsBuf b))) (\<lambda>_.
         io_bind (writeFile ((d @ [x]) @ [partValuesBin]) (Bytes (valBuf b))) (\<lambda>_.
         io_bind (writeJSON ((d @ [x]) @ [partSeriesIndex]) (JIndex index)) (\<lambda>_.
         io_bind (writeJSON ((d @ [x]) @ [partMetaFile]) (JMeta meta)) (\<lambda>_.
         io_return meta)))) w))"
      unfolding img prod.case confined_def by blast
  qed
  show ?thesis
    unfolding writePartEncoded_def by (intro confined_bind mk body)
qed

end
