(* ===== verification/Calendar.thy ===== *)
theory Calendar
  imports Decimal
begin

text \<open>
  \<open>dayString\<close> of \<open>storage/partition.go\<close>: a millisecond timestamp to its UTC day partition
  name, \<open>time.UnixMilli(ms).UTC().Format("20060102")\<close>. The calendar is the proleptic
  Gregorian one of the \<open>time\<close> package, computed by its cycles of 400, 100, 4 and 1 years.
\<close>

section \<open>The calendar\<close>

text \<open>Days are counted from 1 January of year 1; 719162 of them precede 1 January 1970.\<close>

definition is_leap :: "int \<Rightarrow> bool" where
  "is_leap y \<longleftrightarrow> y mod 4 = 0 \<and> (y mod 100 \<noteq> 0 \<or> y mod 400 = 0)"

definition year_yday :: "int \<Rightarrow> int \<times> int" where
  "year_yday n =
     (let c400 = n div 146097; r = n mod 146097;
          c100 = min (r div 36524) 3; r = r - 36524 * c100;
          c4 = r div 1461; r = r - 1461 * c4;
          c1 = min (r div 365) 3; r = r - 365 * c1
      in (400 * c400 + 100 * c100 + 4 * c4 + c1 + 1, r))"

definition days_before :: "int list" where
  "days_before = [0, 31, 59, 90, 120, 151, 181, 212, 243, 273, 304, 334]"

text \<open>Month and day of the month (from 1) of a day of the year (from 0).\<close>

definition month_day :: "bool \<Rightarrow> int \<Rightarrow> nat \<times> nat" where
  "month_day leap yday =
     (if leap \<and> yday = 59 then (2, 29)
      else
        (let d = (if leap \<and> yday > 59 then yday - 1 else yday);
             m = length (takeWhile (\<lambda>b. b \<le> d) days_before)
         in (m, nat (d - days_before ! (m - 1)) + 1)))"

text \<open>\<open>Format("20060102")\<close> of a day number.\<close>

definition format_year :: "int \<Rightarrow> string" where
  "format_year y = (if y < 0 then CHR ''-'' # zpad 4 (dec_string (nat (- y)))
                    else zpad 4 (dec_string (nat y)))"

definition day_name :: "int \<Rightarrow> string" where
  "day_name n =
     (let (y, yday) = year_yday n; (m, d) = month_day (is_leap y) yday
      in format_year y @ zpad 2 (dec_string m) @ zpad 2 (dec_string d))"

text \<open>The day a timestamp falls in: the division rounds down, also before 1970.\<close>

definition day_number :: "int64 \<Rightarrow> int" where
  "day_number ms = sint ms div 86400000 + 719162"

definition dayString :: "int64 \<Rightarrow> string" where
  "dayString ms = day_name (day_number ms)"

section \<open>Years\<close>

definition year_start :: "int \<Rightarrow> int" where
  "year_start y = 365 * (y - 1) + (y - 1) div 4 - (y - 1) div 100 + (y - 1) div 400"

lemma cycles_year_start:
  assumes "0 \<le> b" "b \<le> 3" "0 \<le> c" "c \<le> 24" "0 \<le> e" "e \<le> (3::int)"
  shows "year_start (400 * a + 100 * b + 4 * c + e + 1) = 146097 * a + 36524 * b + 1461 * c + 365 * e"
proof -
  let ?y = "400 * a + 100 * b + 4 * c + e"
  have "?y div 4 = 100 * a + 25 * b + c" using assms by (intro int_div_pos_eq[where r = e]) auto
  moreover have "?y div 100 = 4 * a + b"
    using assms by (intro int_div_pos_eq[where r = "4 * c + e"]) auto
  moreover have "?y div 400 = a"
    using assms by (intro int_div_pos_eq[where r = "100 * b + 4 * c + e"]) auto
  ultimately show ?thesis by (simp add: year_start_def)
qed

lemma leap_cycle:
  assumes "0 \<le> b" "b \<le> 3" "0 \<le> c" "c \<le> 24" "0 \<le> e" "e \<le> (3::int)"
  shows "is_leap (400 * a + 100 * b + 4 * c + e + 1) \<longleftrightarrow> e = 3 \<and> (c \<noteq> 24 \<or> b = 3)"
proof -
  let ?y = "400 * a + 100 * b + 4 * c + e + 1"
  have m4: "?y mod 4 = (if e = 3 then 0 else e + 1)"
    using assms by (intro int_mod_pos_eq[where q = "100 * a + 25 * b + c + (if e = 3 then 1 else 0)"]) auto
  show ?thesis
  proof (cases "e = 3")
    case False
    with m4 assms(5) show ?thesis by (simp add: is_leap_def)
  next
    case e: True
    have m100: "?y mod 100 = (if c = 24 then 0 else 4 * c + 4)"
      using assms e by (intro int_mod_pos_eq[where q = "4 * a + b + (if c = 24 then 1 else 0)"]) auto
    have m400: "?y mod 400 = (if b = 3 then 0 else 100 * b + 100)" if "c = 24"
      using assms e that by (intro int_mod_pos_eq[where q = "a + (if b = 3 then 1 else 0)"]) auto
    show ?thesis
      unfolding is_leap_def m4 m100 using m400 e assms(1,3) by auto
  qed
qed

lemma capped_cycle:
  assumes "0 \<le> r" "r < 4 * L + 1" "0 < L" "q = min (r div L) (3::int)"
  shows "0 \<le> q" "q \<le> 3" "0 \<le> r - L * q" "r - L * q < (if q = 3 then L + 1 else L)"
proof -
  have dm: "r = L * (r div L) + r mod L" by simp
  have m: "0 \<le> r mod L" "r mod L < L" using assms(3) by simp_all
  have d: "0 \<le> r div L" using assms(1,3) by (simp add: pos_imp_zdiv_nonneg_iff)
  show "0 \<le> q" "q \<le> 3" using d assms(4) by simp_all
  have small: "r - L * q = r mod L" if "r div L \<le> 3"
    using that assms(4) by (simp add: minus_mult_div_eq_mod)
  show "0 \<le> r - L * q"
  proof (cases "r div L \<le> 3")
    case True
    then show ?thesis using small m by simp
  next
    case False
    then have "L * 3 \<le> L * (r div L)" using assms(3) by simp
    then have "L * 3 \<le> r" using dm m by linarith
    then show ?thesis using False assms(4) by simp
  qed
  show "r - L * q < (if q = 3 then L + 1 else L)"
  proof (cases "r div L \<le> 3")
    case True
    then show ?thesis using small m by simp
  next
    case False
    then show ?thesis using assms(2,4) by simp
  qed
qed

text \<open>The cycle decomposition finds the year the day lies in.\<close>

lemma capped_quarter: "0 \<le> r \<Longrightarrow> r < 146097 \<Longrightarrow> q = min (r div 36524) (3::int) \<Longrightarrow>
    0 \<le> q \<and> q \<le> 3 \<and> 0 \<le> r - 36524 * q \<and> r - 36524 * q < (if q = 3 then 36525 else 36524)"
proof (intro conjI)
  assume a: "0 \<le> r" "r < 146097" "q = min (r div 36524) 3"
  note c = capped_cycle[of r 36524 q, OF a(1) _ _ a(3)]
  show "0 \<le> q" "q \<le> 3" "0 \<le> r - 36524 * q" using c(1-3) a(2) by simp_all
  have "r - 36524 * q < (if q = 3 then 36524 + 1 else 36524)" by (rule c(4)) (use a(2) in simp_all)
  then show "r - 36524 * q < (if q = 3 then 36525 else 36524)" by (simp split: if_splits)
qed

lemma capped_year: "0 \<le> r \<Longrightarrow> r < 1461 \<Longrightarrow> q = min (r div 365) (3::int) \<Longrightarrow>
    0 \<le> q \<and> q \<le> 3 \<and> 0 \<le> r - 365 * q \<and> r - 365 * q < (if q = 3 then 366 else 365)"
proof (intro conjI)
  assume a: "0 \<le> r" "r < 1461" "q = min (r div 365) 3"
  note c = capped_cycle[of r 365 q, OF a(1) _ _ a(3)]
  show "0 \<le> q" "q \<le> 3" "0 \<le> r - 365 * q" using c(1-3) a(2) by simp_all
  have "r - 365 * q < (if q = 3 then 365 + 1 else 365)" by (rule c(4)) (use a(2) in simp_all)
  then show "r - 365 * q < (if q = 3 then 366 else 365)" by (simp split: if_splits)
qed

lemma four_years:
  assumes "0 \<le> r" and "r < (if q = 3 then 36525 else 36524)" and "c = r div (1461::int)"
  shows "0 \<le> c" and "c \<le> 24" and "0 \<le> r - 1461 * c" and "r - 1461 * c < 1461"
    and "c = 24 \<Longrightarrow> q \<noteq> 3 \<Longrightarrow> r - 1461 * c < 1460"
proof -
  have d: "r = 1461 * c + r mod 1461" "0 \<le> r mod 1461" "r mod 1461 < 1461" using assms(3) by simp_all
  show "0 \<le> c" using assms(1,3) by (simp add: pos_imp_zdiv_nonneg_iff)
  have lim: "r < 36525" using assms(2) by (cases "q = 3") simp_all
  show "c \<le> 24" using d lim by linarith
  show "0 \<le> r - 1461 * c" and "r - 1461 * c < 1461" using d by linarith+
  show "r - 1461 * c < 1460" if "c = 24" "q \<noteq> 3" using that assms(2) by simp
qed

lemma year_yday_cycles:
  assumes "year_yday n = (y, yday)"
  obtains a b c e where "y = 400 * a + 100 * b + 4 * c + e + 1"
    and "n = 146097 * a + 36524 * b + 1461 * c + 365 * e + yday"
    and "0 \<le> b" "b \<le> 3" "0 \<le> c" "c \<le> 24" "0 \<le> e" "e \<le> (3::int)" and "0 \<le> yday"
    and "yday < (if e = 3 then 366 else 365)" and "e = 3 \<Longrightarrow> c = 24 \<Longrightarrow> b \<noteq> 3 \<Longrightarrow> yday < 365"
proof -
  define a r1 where "a = n div 146097" and "r1 = n mod 146097"
  define b where "b = min (r1 div 36524) 3"
  define r2 where "r2 = r1 - 36524 * b"
  define c where "c = r2 div 1461"
  define r3 where "r3 = r2 - 1461 * c"
  define e where "e = min (r3 div 365) 3"
  have y: "y = 400 * a + 100 * b + 4 * c + e + 1" and yd: "yday = r3 - 365 * e"
    using assms unfolding year_yday_def Let_def a_def r1_def b_def r2_def c_def r3_def e_def by simp_all
  have r1: "0 \<le> r1" "r1 < 146097" unfolding r1_def by simp_all
  have n: "n = 146097 * a + r1" unfolding a_def r1_def by simp
  note b = capped_quarter[OF r1 b_def, folded r2_def]
  note c = four_years[OF conjunct1[OF conjunct2[OF conjunct2[OF b]]]
      conjunct2[OF conjunct2[OF conjunct2[OF b]]] c_def, folded r3_def]
  note e = capped_year[OF c(3,4) e_def, folded yd]
  show thesis
  proof (rule that[OF y])
    show "n = 146097 * a + 36524 * b + 1461 * c + 365 * e + yday"
      using n yd r2_def r3_def by linarith
    show "yday < 365" if "e = 3" "c = 24" "b \<noteq> 3"
      using c(5)[OF that(2,3)] yd that(1) by linarith
  qed (use b c e in blast)+
qed

lemma year_yday_bounds:
  assumes "year_yday n = (y, yday)"
  shows "n = year_start y + yday" and "0 \<le> yday" and "yday < (if is_leap y then 366 else 365)"
proof -
  obtain a b c e where y: "y = 400 * a + 100 * b + 4 * c + e + 1"
    and n: "n = 146097 * a + 36524 * b + 1461 * c + 365 * e + yday"
    and r: "0 \<le> b" "b \<le> 3" "0 \<le> c" "c \<le> 24" "0 \<le> e" "e \<le> (3::int)" and yd: "0 \<le> yday"
    and u: "yday < (if e = 3 then 366 else 365)" and v: "e = 3 \<Longrightarrow> c = 24 \<Longrightarrow> b \<noteq> 3 \<Longrightarrow> yday < 365"
    by (rule year_yday_cycles[OF assms]) blast
  show "n = year_start y + yday" unfolding y cycles_year_start[OF r] using n by simp
  show "0 \<le> yday" by (rule yd)
  show "yday < (if is_leap y then 366 else 365)"
  proof (cases "is_leap y")
    case True
    then have "e = 3" using leap_cycle[OF r, of a] y by simp
    with True u show ?thesis by simp
  next
    case False
    then have "e = 3 \<Longrightarrow> c = 24 \<and> b \<noteq> 3" using leap_cycle[OF r, of a] y by blast
    with False u v show ?thesis by (cases "e = 3") simp_all
  qed
qed

lemma div_pred:
  assumes "0 < (m::int)"
  shows "y div m = (y - 1) div m + (if y mod m = 0 then 1 else 0)"
proof (cases "y mod m = 0")
  case True
  have "y = m * (y div m)" using True mult_div_mod_eq[of m y] by simp
  then have "y - 1 = m * (y div m - 1) + (m - 1)" by (simp only: right_diff_distrib mult_1_right)
  then have "(y - 1) div m = y div m - 1" by (rule int_div_pos_eq) (use assms in simp_all)
  with True show ?thesis by simp
next
  case False
  have "y - 1 = m * (y div m) + (y mod m - 1)" using mult_div_mod_eq[of m y] by linarith
  moreover have "0 \<le> y mod m - 1" using False pos_mod_sign[OF assms, of y] by linarith
  moreover have "y mod m - 1 < m" using pos_mod_bound[OF assms, of y] by linarith
  ultimately have "(y - 1) div m = y div m" by (rule int_div_pos_eq)
  with False show ?thesis by simp
qed

lemma leap_days:
  fixes P Q R :: bool
  assumes "Q \<Longrightarrow> P" and "R \<Longrightarrow> Q"
  shows "365 + (if P then 1 else 0) - (if Q then 1 else 0) + (if R then 1 else 0)
    = (if P \<and> (\<not> Q \<or> R) then 366 else (365::int))"
  using assms by (cases P; cases Q; cases R) simp_all

lemma year_start_step: "year_start (y + 1) = year_start y + (if is_leap y then 366 else 365)"
proof -
  have q: "y mod 4 = 0" if "y mod 100 = 0"
    using that dvd_trans[of 4 100 y] by (simp add: dvd_eq_mod_eq_0)
  have r: "y mod 100 = 0" if "y mod 400 = 0"
    using that dvd_trans[of 100 400 y] by (simp add: dvd_eq_mod_eq_0)
  have "year_start (y + 1) = year_start y + (365 + (if y mod 4 = 0 then 1 else 0)
      - (if y mod 100 = 0 then 1 else 0) + (if y mod 400 = 0 then 1 else 0))"
    unfolding year_start_def add_diff_cancel_right'
    by (subst div_pred[of 4 y], simp, subst div_pred[of 100 y], simp, subst div_pred[of 400 y], simp)
      (simp only: algebra_simps)
  also have "\<dots> = year_start y + (if is_leap y then 366 else 365)"
    unfolding is_leap_def using leap_days[OF q r] by simp
  finally show ?thesis .
qed

lemma year_start_mono: "y \<le> z \<Longrightarrow> year_start y \<le> year_start z"
proof (induction "nat (z - y)" arbitrary: z)
  case 0
  then show ?case by simp
next
  case (Suc n)
  then have "year_start y \<le> year_start (z - 1)" by (intro Suc.hyps(1)) auto
  also have "\<dots> \<le> year_start z" using year_start_step[of "z - 1"] by (simp split: if_splits)
  finally show ?case .
qed

text \<open>Year and day of the year grow with the day number, year first.\<close>

lemma year_yday_less:
  assumes "year_yday m = (y, i)" and "year_yday n = (z, j)" and "m < n"
  shows "y < z \<or> (y = z \<and> i < j)"
proof -
  note m = year_yday_bounds[OF assms(1)] and n = year_yday_bounds[OF assms(2)]
  have "y \<le> z"
  proof (rule ccontr)
    assume "\<not> y \<le> z"
    then have "year_start (z + 1) \<le> year_start y" by (intro year_start_mono) simp
    with m n assms(3) show False by (simp add: year_start_step split: if_splits)
  qed
  with m(1) n(1) assms(3) show ?thesis by (cases "y = z") auto
qed

section \<open>Months\<close>

text \<open>The month and day of a day of a common year, as a table.\<close>

definition common_day :: "int \<Rightarrow> int \<times> int" where
  "common_day d =
     (if d < 31 then (1, d) else if d < 59 then (2, d - 31) else if d < 90 then (3, d - 59)
      else if d < 120 then (4, d - 90) else if d < 151 then (5, d - 120)
      else if d < 181 then (6, d - 151) else if d < 212 then (7, d - 181)
      else if d < 243 then (8, d - 212) else if d < 273 then (9, d - 243)
      else if d < 304 then (10, d - 273) else if d < 334 then (11, d - 304)
      else (12, d - 334))"

definition month_key :: "bool \<Rightarrow> int \<Rightarrow> int" where
  "month_key leap yday = (let (m, d) = month_day leap yday in 100 * int m + int d)"

lemma month_day_table:
  assumes "0 \<le> yday" and "yday < (if leap then 366 else 365)"
  shows "month_day leap yday =
    (if leap \<and> yday = 59 then (2, 29)
     else (let (m, d) = common_day (if leap \<and> yday > 59 then yday - 1 else yday) in (nat m, nat d + 1)))"
  using assms by (simp add: month_day_def common_day_def days_before_def Let_def)

lemma common_day_range:
  assumes "0 \<le> d" and "d < 365" and "common_day d = (m, k)"
  shows "1 \<le> m" and "m \<le> 12" and "0 \<le> k" and "k \<le> 30"
  using assms by (auto simp: common_day_def split: if_splits)

definition common_key :: "int \<Rightarrow> int" where
  "common_key d = 100 * fst (common_day d) + snd (common_day d)"

lemma common_key_step: "0 \<le> d \<Longrightarrow> d < 364 \<Longrightarrow> common_key d < common_key (d + 1)"
  by (simp add: common_key_def common_day_def)

lemma common_key_mono:
  assumes "0 \<le> a" and "a < b"
  shows "b < 365 \<Longrightarrow> common_key a < common_key b"
  using assms(2)
proof (induction b rule: int_gr_induct)
  case base
  then show ?case using common_key_step[of a] assms(1) by simp
next
  case (step b)
  then show ?case using common_key_step[of b] assms(1) by simp
qed

lemma common_key_leap: "58 < d \<Longrightarrow> d < 365 \<Longrightarrow> 229 < common_key d + 1"
  "0 \<le> d \<Longrightarrow> d < 59 \<Longrightarrow> common_key d + 1 < 229"
  using common_key_mono[of 59 d] common_key_mono[of d 58]
  by (cases "d = 59"; cases "d = 58"; simp add: common_key_def common_day_def)+

lemma month_key_table:
  assumes "0 \<le> yday" and "yday < (if leap then 366 else 365)"
  shows "month_key leap yday =
    (if leap \<and> yday = 59 then 229
     else common_key (if leap \<and> yday > 59 then yday - 1 else yday) + 1)"
proof (cases "leap \<and> yday = 59")
  case True
  then show ?thesis by (simp add: month_key_def month_day_def)
next
  case False
  define d where "d = (if leap \<and> yday > 59 then yday - 1 else yday)"
  obtain m k where mk: "common_day d = (m, k)" by (cases "common_day d")
  have "0 \<le> d" "d < 365" using assms False by (auto simp: d_def split: if_splits)
  note r = common_day_range[OF this mk]
  have "month_day leap yday = (nat m, nat k + 1)"
    using month_day_table[OF assms] False mk by (simp add: d_def[symmetric])
  then have "month_key leap yday = common_key d + 1"
    using r mk by (simp add: month_key_def common_key_def)
  then show ?thesis unfolding d_def using False by auto
qed

lemma month_key_mono:
  assumes "0 \<le> i" and "i < j" and "j < (if leap then 366 else 365)"
  shows "month_key leap i < month_key leap j"
proof (cases leap)
  case False
  then show ?thesis using assms common_key_mono[of i j] by (simp add: month_key_table)
next
  case True
  have "common_key i < common_key j" if "j < 59" using common_key_mono[of i j] assms that by simp
  moreover have "common_key i < common_key (j - 1)" if "j > 59" "i < 59"
    using common_key_mono[of i "j - 1"] assms that True by simp
  moreover have "common_key (i - 1) < common_key (j - 1)" if "i > 59"
    using common_key_mono[of "i - 1" "j - 1"] assms that True by simp
  moreover have "i < 59 \<Longrightarrow> common_key i + 1 < 229" using common_key_leap(2)[of i] assms by simp
  moreover have "j > 59 \<Longrightarrow> 229 < common_key (j - 1) + 1"
    using common_key_leap(1)[of "j - 1"] assms True by simp
  moreover have "i < 366" "0 \<le> j" using assms True by simp_all
  ultimately show ?thesis using assms True
    by (cases "i < 59"; cases "i = 59"; cases "j < 59"; cases "j = 59") (simp_all add: month_key_table)
qed

lemma month_day_range:
  assumes "0 \<le> yday" and "yday < (if leap then 366 else 365)" and "month_day leap yday = (m, d)"
  shows "1 \<le> m" and "m \<le> 12" and "1 \<le> d" and "d \<le> 31"
proof -
  define e where "e = (if leap \<and> yday > 59 then yday - 1 else yday)"
  obtain a k where ak: "common_day e = (a, k)" by (cases "common_day e")
  have "(m, d) = (2, 29) \<or> (0 \<le> e \<and> e < 365 \<and> m = nat a \<and> d = nat k + 1)"
    using month_day_table[OF assms(1,2)] assms ak
    by (cases "leap \<and> yday = 59") (auto simp: e_def[symmetric], auto simp: e_def split: if_splits)
  then show "1 \<le> m" "m \<le> 12" "1 \<le> d" "d \<le> 31"
    using common_day_range[OF _ _ ak] by auto
qed

section \<open>Day names sort as days\<close>

text \<open>The number a day name spells: \<open>yyyymmdd\<close>.\<close>

definition day_key :: "int \<Rightarrow> int" where
  "day_key n = (let (y, yday) = year_yday n in 10000 * y + month_key (is_leap y) yday)"

lemma month_key_less:
  assumes "0 \<le> yday" and "yday < (if leap then 366 else 365)"
  shows "0 < month_key leap yday" and "month_key leap yday < 10000"
proof -
  obtain m d where md: "month_day leap yday = (m, d)" by (cases "month_day leap yday")
  show "0 < month_key leap yday" and "month_key leap yday < 10000"
    using month_day_range[OF assms md] md by (simp_all add: month_key_def)
qed

lemma day_key_mono: assumes "m < n" shows "day_key m < day_key n"
proof -
  obtain y i z j where yi: "year_yday m = (y, i)" and zj: "year_yday n = (z, j)"
    by (metis surj_pair)
  note m = year_yday_bounds[OF yi] and n = year_yday_bounds[OF zj]
  from year_yday_less[OF yi zj assms] show ?thesis
  proof
    assume "y < z"
    then show ?thesis
      using month_key_less[OF m(2,3)] month_key_less[OF n(2,3)] yi zj by (simp add: day_key_def)
  next
    assume "y = z \<and> i < j"
    then show ?thesis
      using month_key_mono[OF m(2), of j "is_leap y"] n(3) yi zj by (simp add: day_key_def)
  qed
qed

lemma day_key_less_iff: "day_key m < day_key n \<longleftrightarrow> m < n"
  using day_key_mono by (metis linorder_neqE less_asym)

lemma foldl_zpad:
  "n < 10 ^ w \<Longrightarrow> 0 < w \<Longrightarrow> foldl digits_step (Some a) (zpad w (dec_string n)) = Some (a * 10 ^ w + n)"
proof -
  assume w: "n < 10 ^ w" "0 < w"
  have "foldl digits_step (Some 0) (zpad w (dec_string n)) = Some n"
    by (simp add: zpad_def foldl_zeros foldl_dec_string)
  moreover have "length (zpad w (dec_string n)) = w"
    using w by (intro length_zpad) (simp add: length_dec_string)
  ultimately show ?thesis using foldl_digits[of "zpad w (dec_string n)"] by auto
qed

definition year_ok :: "int \<Rightarrow> bool" where
  "year_ok n \<longleftrightarrow> 0 \<le> fst (year_yday n) \<and> fst (year_yday n) \<le> 9999"

lemma day_name_digits:
  assumes "year_ok n"
  shows "is_digits (day_name n)" and "length (day_name n) = 8"
    and "foldl digits_step (Some 0) (day_name n) = Some (nat (day_key n))"
proof -
  obtain y i where yi: "year_yday n = (y, i)" by (cases "year_yday n")
  note b = year_yday_bounds[OF yi]
  obtain m d where md: "month_day (is_leap y) i = (m, d)" by (cases "month_day (is_leap y) i")
  note r = month_day_range[OF b(2,3) md]
  have y: "0 \<le> y" "y \<le> 9999" using assms yi by (simp_all add: year_ok_def)
  have dn: "day_name n = zpad 4 (dec_string (nat y)) @ zpad 2 (dec_string m) @ zpad 2 (dec_string d)"
    using yi md y by (simp add: day_name_def format_year_def)
  show "is_digits (day_name n)"
    using is_digits_zpad[OF is_digits_dec_string] by (auto simp: dn is_digits_def)
  show "length (day_name n) = 8"
    using y r by (simp add: dn length_zpad length_dec_string)
  have "nat (day_key n) = (nat y * 100 + m) * 100 + d"
    using yi md y by (simp add: day_key_def month_key_def nat_add_distrib nat_mult_distrib)
  then show "foldl digits_step (Some 0) (day_name n) = Some (nat (day_key n))"
    using y r by (simp add: dn foldl_zpad)
qed

theorem day_name_less_iff:
  assumes "year_ok m" and "year_ok n"
  shows "day_name m < day_name n \<longleftrightarrow> m < n"
proof -
  have "0 \<le> day_key k" if "year_ok k" for k
    using that year_yday_bounds(2,3)[of k] month_key_less(1)[of "snd (year_yday k)" "is_leap (fst (year_yday k))"]
    by (cases "year_yday k") (auto simp: year_ok_def day_key_def)
  then have "nat (day_key m) < nat (day_key n) \<longleftrightarrow> day_key m < day_key n"
    using assms by (metis nat_less_eq_zless nat_mono_iff nat_eq_iff2 nless_le less_le_trans zless_nat_conj)
  then show ?thesis
    using digits_less_iff[OF day_name_digits(1)[OF assms(1)] day_name_digits(1)[OF assms(2)] _
        day_name_digits(3)[OF assms(1)] day_name_digits(3)[OF assms(2)]]
      day_name_digits(2)[OF assms(1)] day_name_digits(2)[OF assms(2)]
    by (simp add: day_key_less_iff)
qed

lemma day_name_inj: "year_ok m \<Longrightarrow> year_ok n \<Longrightarrow> day_name m = day_name n \<longleftrightarrow> m = n"
  using day_name_less_iff by (metis less_irrefl linorder_neqE)

lemma year_start_bound: "year_yday n = (y, i) \<Longrightarrow> year_start y \<le> n \<and> n < year_start (y + 1)"
  using year_yday_bounds[of n y i] by (simp add: year_start_step)

lemma year_ok_range: "- 366 \<le> n \<Longrightarrow> n < 3652059 \<Longrightarrow> year_ok n"
proof -
  assume n: "- 366 \<le> n" "n < 3652059"
  obtain y i where yi: "year_yday n = (y, i)" by (cases "year_yday n")
  note b = year_start_bound[OF yi]
  have "\<not> y < 0" using b n year_start_mono[of "y + 1" 0] by (auto simp: year_start_def)
  moreover have "\<not> y > 9999" using b n year_start_mono[of 10000 y] by (auto simp: year_start_def)
  ultimately show ?thesis using yi by (simp add: year_ok_def)
qed

text \<open>Timestamps of the years 0 to 9999.\<close>

definition plain_ms :: "int64 \<Rightarrow> bool" where
  "plain_ms ms \<longleftrightarrow> - 62167219200000 \<le> sint ms \<and> sint ms < 253402300800000"

lemma plain_ms_year: "plain_ms ms \<Longrightarrow> year_ok (day_number ms)"
proof -
  assume p: "plain_ms ms"
  then have "- 62167219200000 div 86400000 \<le> sint ms div 86400000"
    by (intro zdiv_mono1) (simp_all add: plain_ms_def)
  moreover have "sint ms div 86400000 \<le> 253402300799999 div 86400000"
    using p by (intro zdiv_mono1) (simp_all add: plain_ms_def)
  ultimately show ?thesis by (intro year_ok_range) (simp_all add: day_number_def)
qed

lemma dayString_less_iff:
  "plain_ms a \<Longrightarrow> plain_ms b \<Longrightarrow> dayString a < dayString b \<longleftrightarrow> day_number a < day_number b"
  by (simp add: dayString_def day_name_less_iff plain_ms_year)

lemma dayString_eq_iff:
  "plain_ms a \<Longrightarrow> plain_ms b \<Longrightarrow> dayString a = dayString b \<longleftrightarrow> day_number a = day_number b"
  by (simp add: dayString_def day_name_inj plain_ms_year)

lemma dayString_digits: "plain_ms a \<Longrightarrow> is_digits (dayString a) \<and> length (dayString a) = 8"
  by (simp add: dayString_def day_name_digits plain_ms_year)

lemma day_number_mono: "sint a \<le> sint b \<Longrightarrow> day_number a \<le> day_number b"
  by (simp add: day_number_def zdiv_mono1)

lemma dayString_mono:
  "plain_ms a \<Longrightarrow> plain_ms b \<Longrightarrow> sint a \<le> sint b \<Longrightarrow> dayString a \<le> dayString b"
  using dayString_less_iff[of b a] day_number_mono[of a b] by (simp add: not_less[symmetric])

end
