(* ===== verification/Partition.thy ===== *)
theory Partition
  imports PartWrite Calendar
begin

text \<open>
  A day partition, \<open>storage/partition.go\<close> with the manifest of \<open>storage/manifest.go\<close>: the list
  of live parts in memory and on disk, and the publication of a new part.
\<close>

section \<open>The manifest\<close>

definition manifest_path :: "path \<Rightarrow> path" where
  "manifest_path dir = dir @ [''manifest.json'']"

definition unmarshal_manifest :: "jdoc content \<Rightarrow> string list res" where
  "unmarshal_manifest c =
     (case c of Json (JManifest parts) \<Rightarrow> Inr parts | _ \<Rightarrow> Inl (ErrMsg ''cannot parse manifest''))"

definition loadManifest :: "path \<Rightarrow> string list diskio" where
  "loadManifest p =
     (\<lambda>w. case readFile p w of
        (Inl e, w') \<Rightarrow> if e = ErrNotExist then (Inr [], w') else (Inl e, w')
      | (Inr c, w') \<Rightarrow> (unmarshal_manifest c, w'))"

definition saveManifest :: "path \<Rightarrow> string list \<Rightarrow> unit diskio" where
  "saveManifest p parts = writeJSON p (JManifest parts)"

section \<open>Partitions\<close>

record partition =
  p_day :: string
  p_dir :: path
  p_parts :: "string list"
  p_nextID :: int
  p_dropped :: bool

definition publishingPrefix :: string where
  "publishingPrefix = ''.publishing-''"

definition parts_dir :: "path \<Rightarrow> path" where
  "parts_dir dir = dir @ [''parts'']"

definition part_dir :: "path \<Rightarrow> string \<Rightarrow> path" where
  "part_dir dir nm = parts_dir dir @ [nm]"

text \<open>One round of the scan of \<open>openPartition\<close>: stale staging directories go, the rest counts.\<close>

definition scan_entry :: "path \<Rightarrow> int \<Rightarrow> string \<times> bool \<Rightarrow> int diskio" where
  "scan_entry dir maxID = (\<lambda>(nm, isdir).
     if prefix publishingPrefix nm
     then io_bind (io_ignore (removeAll (part_dir dir nm))) (\<lambda>_. io_return maxID)
     else io_return (case Atoi nm of None \<Rightarrow> maxID | Some i \<Rightarrow> if i > maxID then i else maxID))"

definition openPartition :: "path \<Rightarrow> string \<Rightarrow> partition diskio" where
  "openPartition dir day =
     io_bind (mkdirAll (parts_dir dir)) (\<lambda>_.
     io_bind (readDir (parts_dir dir)) (\<lambda>entries.
     io_bind (io_fold (scan_entry dir) 0 entries) (\<lambda>maxID.
     io_bind (loadManifest (manifest_path dir)) (\<lambda>parts.
     io_return \<lparr>p_day = day, p_dir = dir, p_parts = parts,
       p_nextID = goint (maxID + 1), p_dropped = False\<rparr>))))"

text \<open>
  The publication of a part: staged, renamed into place; a failure removes the staging directory.
\<close>

definition publish_part :: "path \<Rightarrow> string \<Rightarrow> (uint64, Sample list) gomap \<Rightarrow> string \<Rightarrow> unit diskio" where
  "publish_part dir nm data tier =
     (let staging = part_dir dir (publishingPrefix @ nm) in
      io_bind (io_on_error (writePart staging data tier) (removeAll staging)) (\<lambda>_.
      io_on_error (rename staging (part_dir dir nm)) (removeAll staging)))"

definition addPart ::
  "partition \<Rightarrow> (uint64, Sample list) gomap \<Rightarrow> disk \<Rightarrow> unit res \<times> partition \<times> disk" where
  "addPart p data w =
     (if p_dropped p then (Inl (ErrMsg ''partition has been dropped by retention''), p, w)
      else
        (let nm = sprintf06d (p_nextID p);
             p = p\<lparr>p_nextID := goint (p_nextID p + 1)\<rparr> in
         case publish_part (p_dir p) nm data tierSmall w of
           (Inl e, w) \<Rightarrow> (Inl e, p, w)
         | (Inr u, w) \<Rightarrow>
             (let p = p\<lparr>p_parts := p_parts p @ [nm]\<rparr> in
              case saveManifest (manifest_path (p_dir p)) (p_parts p) w of
                (r, w) \<Rightarrow> (r, p, w))))"

definition partsSnapshot :: "partition \<Rightarrow> string list" where
  "partsSnapshot p = p_parts p"

section \<open>What a partition holds\<close>

text \<open>
  \<open>D\<close> gives the data of each live part. On disk the manifest may lag behind the memory when a
  save has failed, but every part it lists is complete.
\<close>

definition manifest_of :: "jdoc fs \<Rightarrow> path \<Rightarrow> string list option" where
  "manifest_of fs dir =
     (case lookup fs (manifest_path dir) of
        None \<Rightarrow> Some []
      | Some (File c) \<Rightarrow> (case unmarshal_manifest c of Inl e \<Rightarrow> None | Inr parts \<Rightarrow> Some parts)
      | Some Dir \<Rightarrow> None)"

definition holds_part :: "jdoc fs \<Rightarrow> path \<Rightarrow> string \<Rightarrow> (uint64, Sample list) gomap \<Rightarrow> bool" where
  "holds_part fs dir nm data \<longleftrightarrow>
     lookup fs (part_dir dir nm) = Some Dir \<and> (\<exists>meta. stored_part fs (part_dir dir nm) meta data)"

definition numbered :: "int \<Rightarrow> string \<Rightarrow> bool" where
  "numbered n nm \<longleftrightarrow> (\<exists>i. 0 < i \<and> i < n \<and> nm = sprintf06d i)"

definition partition_inv ::
  "jdoc fs \<Rightarrow> partition \<Rightarrow> (string \<Rightarrow> (uint64, Sample list) gomap) \<Rightarrow> bool" where
  "partition_inv fs p D \<longleftrightarrow>
     dirs_to fs (parts_dir (p_dir p)) \<and> 0 < p_nextID p \<and>
     distinct (p_parts p) \<and> (\<forall>nm \<in> set (p_parts p). numbered (p_nextID p) nm) \<and>
     (\<forall>nm \<in> set (p_parts p). holds_part fs (p_dir p) nm (D nm)) \<and>
     (\<exists>dn. manifest_of fs (p_dir p) = Some dn \<and> distinct dn \<and> set dn \<subseteq> set (p_parts p))"

text \<open>The manifest on disk is the list in memory.\<close>

definition synced :: "jdoc fs \<Rightarrow> partition \<Rightarrow> bool" where
  "synced fs p \<longleftrightarrow> manifest_of fs (p_dir p) = Some (p_parts p)"

text \<open>The samples of a series in the named parts, counted with multiplicity.\<close>

definition samples_in :: "(string \<Rightarrow> (uint64, Sample list) gomap) \<Rightarrow> string list \<Rightarrow> uint64 \<Rightarrow> Sample multiset" where
  "samples_in D nms sid = (\<Sum>nm\<leftarrow>nms. mset (gm_get (D nm) sid))"

lemma samples_in_simps [simp]:
  "samples_in D [] sid = {#}"
  "samples_in D (nm # nms) sid = mset (gm_get (D nm) sid) + samples_in D nms sid"
  "samples_in D (xs @ ys) sid = samples_in D xs sid + samples_in D ys sid"
  by (simp_all add: samples_in_def)

lemma samples_in_cong: "(\<And>nm. nm \<in> set nms \<Longrightarrow> D nm = E nm) \<Longrightarrow> samples_in D nms sid = samples_in E nms sid"
  by (induction nms) simp_all

lemma samples_in_perm: "mset xs = mset ys \<Longrightarrow> samples_in D xs sid = samples_in D ys sid"
proof -
  assume m: "mset xs = mset ys"
  have "samples_in D zs sid = (\<Sum>nm\<in>#mset zs. mset (gm_get (D nm) sid))" for zs
    by (induction zs) simp_all
  with m show ?thesis by simp
qed

section \<open>Names\<close>

lemma digits_not_publishing: "is_digits s \<Longrightarrow> \<not> prefix publishingPrefix s"
  by (cases s) (auto simp: publishingPrefix_def is_digits_def digit_val_def)

lemma numbered_digits: "numbered n nm \<Longrightarrow> is_digits nm"
  by (auto simp: numbered_def sprintf06d_digits)

lemma numbered_new: "0 < n \<Longrightarrow> \<not> numbered n (sprintf06d n)"
  by (auto simp: numbered_def sprintf06d_inj)

lemma numbered_mono: "numbered n nm \<Longrightarrow> n \<le> m \<Longrightarrow> numbered m nm"
  by (auto simp: numbered_def)

lemma numbered_last: "0 < n \<Longrightarrow> numbered (n + 1) (sprintf06d n)"
  by (auto simp: numbered_def)

lemma part_dir_prefix [simp]: "prefix (part_dir dir a) (part_dir dir b) \<longleftrightarrow> a = b"
  by (simp add: part_dir_def)

lemma part_dir_disjoint: "a \<noteq> b \<Longrightarrow> prefix (part_dir dir a) q \<Longrightarrow> \<not> prefix (part_dir dir b) q"
  by (auto simp: part_dir_def prefix_def)

lemma manifest_not_in_parts:
  "prefix (manifest_path dir) q \<Longrightarrow> \<not> prefix (part_dir dir nm) q"
  "prefix (dir @ [''manifest.json.tmp'']) q \<Longrightarrow> \<not> prefix (part_dir dir nm) q"
  by (auto simp: manifest_path_def part_dir_def parts_dir_def prefix_def)

lemma not_prefix_parts_dir:
  "\<not> prefix (part_dir dir nm) (parts_dir dir)" "\<not> prefix (manifest_path dir) (parts_dir dir)"
  "\<not> prefix (dir @ [''manifest.json.tmp'']) (parts_dir dir)"
  by (auto simp: manifest_path_def part_dir_def parts_dir_def dest: prefix_length_le)

lemma holds_part_frame:
  "holds_part fs dir nm data \<Longrightarrow> (\<And>q. prefix (part_dir dir nm) q \<Longrightarrow> lookup fs' q = lookup fs q) \<Longrightarrow>
   holds_part fs' dir nm data"
  unfolding holds_part_def by (metis prefix_order.refl stored_part_frame)

section \<open>Publishing a part\<close>

lemma confined_publish:
  "confined (parts_dir dir)
     (\<lambda>q. prefix (part_dir dir (publishingPrefix @ nm)) q \<or> prefix (part_dir dir nm) q)
     (publish_part dir nm data tier)"
proof -
  have w: "confined (parts_dir dir) (prefix (part_dir dir x)) (writePart (part_dir dir x) data tier)" for x
    unfolding writePart_def part_dir_def by (rule confined_writePart)
  have r: "confined (parts_dir dir) (prefix (part_dir dir x)) (removeAll (part_dir dir x))" for x
    by (rule confined_removeAll) (simp_all add: not_prefix_parts_dir)
  show ?thesis
    unfolding publish_part_def Let_def
    by (intro confined_bind confined_on_error confined_rename confined_mono[OF w] confined_mono[OF r])
      (simp_all add: not_prefix_parts_dir)
qed

lemma publish_part_Inr:
  assumes run: "publish_part dir nm data tier w = (Inr u, w')" and wf: "gm_wf data" and fits: "part_fits data"
    and ne: "nm \<noteq> publishingPrefix @ nm"
  shows "\<exists>blocks meta. sorted_version data blocks \<and> Tier meta = tier \<and>
    stored_part (w_fs w') (part_dir dir nm) meta blocks \<and> holds_part (w_fs w') dir nm blocks"
proof -
  let ?st = "part_dir dir (publishingPrefix @ nm)"
  obtain m w1 where w1: "writePart ?st data tier w = (Inr m, w1)"
    and w2: "rename ?st (part_dir dir nm) w1 = (Inr (), w')"
    using run by (auto simp: publish_part_def Let_def io_bind_Inr_iff io_on_error_Inr_iff)
  from writePartEncoded_Inr[OF w1[unfolded writePart_def] _ wf fits]
  obtain blocks where b: "sorted_version data blocks" "stored_part (w_fs w1) ?st m blocks" "Tier m = tier"
    and d: "dirs_to (w_fs w1) ?st"
    by (auto simp: known_encoding_def)
  have fs: "w_fs w' = subtree_move ?st (part_dir dir nm) (w_fs w1)"
    using rename_Inr[OF w2] ne by (simp add: part_dir_def)
  have "lookup (w_fs w') (part_dir dir nm @ [f]) = lookup (w_fs w1) (?st @ [f])" for f
    unfolding fs by (subst lookup_subtree_move) (simp_all add: part_dir_def split: option.splits)
  then have "stored_part (w_fs w') (part_dir dir nm) m blocks"
    using b(2) stored_part_move[of "w_fs w'" "part_dir dir nm" "w_fs w1" ?st] by blast
  moreover have "lookup (w_fs w') (part_dir dir nm) = Some Dir"
    unfolding fs using dirs_to_self[OF d] by (subst lookup_subtree_move) (simp_all add: part_dir_def)
  ultimately show ?thesis using b unfolding holds_part_def by blast
qed

section \<open>Saving the manifest\<close>

lemma confined_saveManifest:
  "confined (parts_dir dir)
     (\<lambda>q. prefix (manifest_path dir) q \<or> prefix (dir @ [''manifest.json.tmp'']) q)
     (saveManifest (manifest_path dir) parts)"
  unfolding saveManifest_def
  using not_prefix_parts_dir(2,3)[of dir]
  by (auto simp: manifest_path_def intro!: confined_writeJSON)

lemma manifest_of_frame:
  "lookup fs' (manifest_path dir) = lookup fs (manifest_path dir) \<Longrightarrow> manifest_of fs' dir = manifest_of fs dir"
  by (simp add: manifest_of_def)

text \<open>Whatever fails, the manifest is the old one or the new one, never half of it.\<close>

lemma saveManifest_atomic:
  assumes run: "saveManifest (manifest_path dir) parts w = (r, w')"
  shows "(r = Inr () \<and> lookup (w_fs w') (manifest_path dir) = Some (File (Json (JManifest parts)))) \<or>
      (r \<noteq> Inr () \<and> lookup (w_fs w') (manifest_path dir) = lookup (w_fs w) (manifest_path dir))"
proof -
  let ?m = "manifest_path dir" and ?t = "dir @ [''manifest.json.tmp'']"
  have t: "tmp_path ?m = ?t" by (simp add: tmp_path_def manifest_path_def)
  obtain r1 w1 where w1: "writeFile ?t (Json (JManifest parts)) w = (r1, w1)" by fastforce
  have same1: "lookup (w_fs w1) ?m = lookup (w_fs w) ?m"
  proof -
    have "confined [] (prefix ?t) (writeFile ?t (Json (JManifest parts)))" by (rule confined_writeFile) simp
    from confinedD(2)[OF this w1, of ?m] show ?thesis by (simp add: manifest_path_def dirs_to_def)
  qed
  show ?thesis
  proof (cases r1)
    case (Inl e)
    then show ?thesis using run w1 same1 t by (auto simp: saveManifest_def writeJSON_def io_bind_def)
  next
    case (Inr u)
    then have w2: "rename ?t ?m w1 = (r, w')"
      using run w1 t by (simp add: saveManifest_def writeJSON_def io_bind_def)
    show ?thesis
    proof (cases r)
      case (Inl e)
      have "w_fs w' = w_fs w1"
        using w2 Inl by (auto simp: rename_def sys_def split: option.splits if_splits node.splits prod.splits)
      with same1 Inl show ?thesis by simp
    next
      case (Inr v)
      have "writeJSON ?m (JManifest parts) w = (Inr v, w')"
        using run Inr by (simp add: saveManifest_def)
      from writeJSON_Inr(1)[OF this[unfolded manifest_path_def]] Inr show ?thesis
        by (simp add: manifest_path_def)
    qed
  qed
qed

section \<open>Adding a part\<close>

lemma manifest_of_saved:
  "lookup fs (manifest_path dir) = Some (File (Json (JManifest parts))) \<Longrightarrow> manifest_of fs dir = Some parts"
  by (simp add: manifest_of_def unmarshal_manifest_def)

lemma saveManifest_frame:
  assumes "saveManifest (manifest_path dir) parts w = (r, w')" and "dirs_to (w_fs w) (parts_dir dir)"
  shows "dirs_to (w_fs w') (parts_dir dir)"
    and "holds_part (w_fs w) dir nm data \<Longrightarrow> holds_part (w_fs w') dir nm data"
proof -
  note c = confinedD[OF confined_saveManifest assms]
  show "dirs_to (w_fs w') (parts_dir dir)" by (rule c(1))
  show "holds_part (w_fs w') dir nm data" if "holds_part (w_fs w) dir nm data"
    using that by (rule holds_part_frame) (use c(2) manifest_not_in_parts in blast)
qed

lemma publish_frame:
  assumes "publish_part dir nm data tier w = (r, w')" and "dirs_to (w_fs w) (parts_dir dir)"
  shows "dirs_to (w_fs w') (parts_dir dir)"
    and "x \<noteq> nm \<Longrightarrow> x \<noteq> publishingPrefix @ nm \<Longrightarrow> holds_part (w_fs w) dir x d \<Longrightarrow> holds_part (w_fs w') dir x d"
    and "lookup (w_fs w') (manifest_path dir) = lookup (w_fs w) (manifest_path dir)"
proof -
  note c = confinedD[OF confined_publish assms]
  show "dirs_to (w_fs w') (parts_dir dir)" by (rule c(1))
  show "holds_part (w_fs w') dir x d"
    if "x \<noteq> nm" "x \<noteq> publishingPrefix @ nm" "holds_part (w_fs w) dir x d"
    using that(3) by (rule holds_part_frame) (use c(2) part_dir_disjoint that(1,2) in blast)
  show "lookup (w_fs w') (manifest_path dir) = lookup (w_fs w) (manifest_path dir)"
    by (rule c(2)) (simp add: manifest_path_def part_dir_def parts_dir_def)
qed

lemma publishing_neq: "publishingPrefix @ nm \<noteq> nm"
  by (simp add: publishingPrefix_def)

lemma part_not_staging: "numbered n x \<Longrightarrow> x \<noteq> publishingPrefix @ nm"
  using digits_not_publishing[OF numbered_digits[of n x]] by (auto simp: prefix_def)

text \<open>
  Whatever fails, no live part is damaged, the manifest stays the old one or becomes the list in
  memory, and success means that the new part is in both.
\<close>

theorem addPart_preserves:
  assumes inv: "partition_inv (w_fs w) p D" and room: "p_nextID p < 2 ^ 63 - 1"
    and wf: "gm_wf data" and fits: "part_fits data"
    and run: "addPart p data w = (r, p', w')"
  obtains D' where "partition_inv (w_fs w') p' D'"
    and "(p_parts p' = p_parts p \<and> D' = D \<and> r \<noteq> Inr () \<and>
          manifest_of (w_fs w') (p_dir p) = manifest_of (w_fs w) (p_dir p)) \<or>
        (\<exists>blocks. sorted_version data blocks \<and> p_parts p' = p_parts p @ [sprintf06d (p_nextID p)] \<and>
          D' = D(sprintf06d (p_nextID p) := blocks) \<and>
          (synced (w_fs w') p' \<or>
           r \<noteq> Inr () \<and> manifest_of (w_fs w') (p_dir p) = manifest_of (w_fs w) (p_dir p)))"
    and "p_dir p' = p_dir p" and "p_day p' = p_day p" and "p_dropped p' = p_dropped p"
proof (cases "p_dropped p")
  case True
  then show thesis
    using run inv by (intro that[of D]) (auto simp: addPart_def)
next
  case False
  define nm where "nm = sprintf06d (p_nextID p)"
  define p1 where "p1 = p\<lparr>p_nextID := p_nextID p + 1\<rparr>"
  have pos: "0 < p_nextID p" using inv by (simp add: partition_inv_def)
  have gi: "goint (p_nextID p + 1) = p_nextID p + 1" using room pos by (intro goint_id) simp_all
  have new: "nm \<notin> set (p_parts p)"
    using inv numbered_new[OF pos] by (auto simp: partition_inv_def nm_def)
  obtain r1 w1 where pub: "publish_part (p_dir p) nm data tierSmall w = (r1, w1)" by fastforce
  have d0: "dirs_to (w_fs w) (parts_dir (p_dir p))" using inv by (simp add: partition_inv_def)
  note fr = publish_frame[OF pub d0]
  have num: "\<forall>x \<in> set (p_parts p). numbered (p_nextID p + 1) x"
    using inv by (auto simp: partition_inv_def intro: numbered_mono)
  have old: "\<forall>x \<in> set (p_parts p). holds_part (w_fs w1) (p_dir p) x (D x)"
  proof
    fix x assume x: "x \<in> set (p_parts p)"
    then have h: "holds_part (w_fs w) (p_dir p) x (D x)" "numbered (p_nextID p) x"
      using inv by (auto simp: partition_inv_def)
    show "holds_part (w_fs w1) (p_dir p) x (D x)"
      using fr(2)[OF _ part_not_staging[OF h(2)] h(1)] x new by blast
  qed
  have man: "manifest_of (w_fs w1) (p_dir p) = manifest_of (w_fs w) (p_dir p)"
    by (rule manifest_of_frame[OF fr(3)])
  have inv1: "partition_inv (w_fs w1) p1 D"
    using inv fr(1) num old man by (simp add: partition_inv_def p1_def)
  show thesis
  proof (cases r1)
    case (Inl e)
    then have "r = Inl e" "p' = p1" "w' = w1"
      using run False pub by (simp_all add: addPart_def Let_def nm_def p1_def gi)
    then show thesis using inv1 man by (intro that[of D]) (simp_all add: p1_def)
  next
    case (Inr u)
    define p2 where "p2 = p1\<lparr>p_parts := p_parts p @ [nm]\<rparr>"
    obtain w2 where save: "saveManifest (manifest_path (p_dir p)) (p_parts p2) w1 = (r, w2)"
      and p': "p' = p2" and w': "w' = w2"
      using run False pub Inr
      by (auto simp: addPart_def Let_def nm_def p1_def p2_def gi split: prod.splits)
    from publish_part_Inr[OF pub[unfolded Inr] wf fits] publishing_neq[of nm]
    obtain blocks where b: "sorted_version data blocks" "holds_part (w_fs w1) (p_dir p) nm blocks" by metis
    note sf = saveManifest_frame[OF save fr(1)]
    have parts: "\<forall>x \<in> set (p_parts p2). holds_part (w_fs w2) (p_dir p) x ((D(nm := blocks)) x)"
      using old b(2) new by (auto simp: p2_def intro!: sf(2))
    have syn: "synced (w_fs w2) p2 \<or>
        r \<noteq> Inr () \<and> manifest_of (w_fs w2) (p_dir p) = manifest_of (w_fs w) (p_dir p)"
      using saveManifest_atomic[OF save] man manifest_of_saved[of "w_fs w2" "p_dir p"]
        manifest_of_frame[of "w_fs w2" "p_dir p" "w_fs w1"]
      by (auto simp: synced_def p2_def p1_def)
    have "distinct (p_parts p2)" using inv new by (simp add: partition_inv_def p2_def)
    moreover have "\<forall>x \<in> set (p_parts p2). numbered (p_nextID p + 1) x"
      using num numbered_last[OF pos] by (simp add: p2_def nm_def)
    moreover have "\<exists>dn. manifest_of (w_fs w2) (p_dir p) = Some dn \<and> distinct dn \<and> set dn \<subseteq> set (p_parts p2)"
      using syn inv \<open>distinct (p_parts p2)\<close> unfolding partition_inv_def synced_def
      by (auto simp: p2_def p1_def)
    ultimately have "partition_inv (w_fs w2) p2 (D(nm := blocks))"
      using sf(1) pos parts by (simp add: partition_inv_def p2_def p1_def)
    then show thesis
      using syn b(1) by (intro that[of "D(nm := blocks)"]) (auto simp: p' w' p2_def p1_def nm_def)
  qed
qed

section \<open>What the operations leave alone\<close>

text \<open>Every numbered entry of the directory, live or orphaned, is below the next number.\<close>

definition orphans_ok :: "jdoc fs \<Rightarrow> partition \<Rightarrow> bool" where
  "orphans_ok fs p \<longleftrightarrow>
     (\<forall>nm i. lookup fs (part_dir (p_dir p) nm) \<noteq> None \<longrightarrow> Atoi nm = Some i \<longrightarrow> i < p_nextID p)"

lemma Atoi_publishing [simp]: "Atoi (publishingPrefix @ nm) = None"
proof -
  have "foldl digits_step None xs = None" for xs
    by (induction xs) (simp_all add: digits_step_def)
  moreover have "digit_val CHR ''.'' = None" by (simp add: digit_val_def)
  ultimately show ?thesis
    by (simp add: Atoi_def publishingPrefix_def parse_digits_def digits_step_def)
qed

lemma no_panic_writePart [no_panic_rules]: "no_panic (writePart dir data tier)"
proof -
  have j: "no_panic (writeJSON p doc)" for p doc
    unfolding writeJSON_def by (intro no_panic_rules)
  have "no_panic (\<lambda>w. case part_image tier enc (sorted_blocks w data) of (b, index, meta) \<Rightarrow>
         io_bind (writeFile (dir @ [partTimestampsBin]) (Bytes (tsBuf b))) (\<lambda>_.
         io_bind (writeFile (dir @ [partValuesBin]) (Bytes (valBuf b))) (\<lambda>_.
         io_bind (writeJSON (dir @ [partSeriesIndex]) (JIndex index)) (\<lambda>_.
         io_bind (writeJSON (dir @ [partMetaFile]) (JMeta meta)) (\<lambda>_.
         io_return meta)))) w)" for enc
    unfolding no_panic_def
  proof (intro allI)
    fix w e
    obtain b index meta where img: "part_image tier enc (sorted_blocks w data) = (b, index, meta)"
      by (metis prod_cases3)
    have "no_panic (io_bind (writeFile (dir @ [partTimestampsBin]) (Bytes (tsBuf b))) (\<lambda>_.
         io_bind (writeFile (dir @ [partValuesBin]) (Bytes (valBuf b))) (\<lambda>_.
         io_bind (writeJSON (dir @ [partSeriesIndex]) (JIndex index)) (\<lambda>_.
         io_bind (writeJSON (dir @ [partMetaFile]) (JMeta meta)) (\<lambda>_.
         io_return meta)))))"
      by (intro no_panic_rules j)
    then show "fst (case part_image tier enc (sorted_blocks w data) of (b, index, meta) \<Rightarrow>
         io_bind (writeFile (dir @ [partTimestampsBin]) (Bytes (tsBuf b))) (\<lambda>_.
         io_bind (writeFile (dir @ [partValuesBin]) (Bytes (valBuf b))) (\<lambda>_.
         io_bind (writeJSON (dir @ [partSeriesIndex]) (JIndex index)) (\<lambda>_.
         io_bind (writeJSON (dir @ [partMetaFile]) (JMeta meta)) (\<lambda>_.
         io_return meta)))) w) = Inl e \<longrightarrow> \<not> is_panic e"
      unfolding img prod.case no_panic_def by blast
  qed
  then show ?thesis
    unfolding writePart_def writePartEncoded_def by (intro no_panic_rules)
qed

lemma no_panic_publish [no_panic_rules]: "no_panic (publish_part dir nm data tier)"
  unfolding publish_part_def Let_def by (intro no_panic_rules)

lemma no_panic_saveManifest [no_panic_rules]: "no_panic (saveManifest p parts)"
  unfolding saveManifest_def writeJSON_def by (intro no_panic_rules)

lemma below_partition:
  "prefix (part_dir dir x) q \<Longrightarrow> strict_prefix dir q"
  "prefix (manifest_path dir) q \<Longrightarrow> strict_prefix dir q"
  "prefix (dir @ [''manifest.json.tmp'']) q \<Longrightarrow> strict_prefix dir q"
  by (auto simp: part_dir_def parts_dir_def manifest_path_def strict_prefix_def prefix_def)

lemma publish_touches:
  assumes run: "publish_part dir nm data tier w = (r, w')" and d: "dirs_to (w_fs w) (parts_dir dir)"
  shows "touches dir (w_fs w) (w_fs w')" and "env_same w w'" and "dirs_to (w_fs w') (parts_dir dir)"
    and "lookup (w_fs w') (part_dir dir x) \<noteq> None \<Longrightarrow>
      x = nm \<or> x = publishingPrefix @ nm \<or> lookup (w_fs w) (part_dir dir x) \<noteq> None"
proof -
  note c = confined_publish[of dir nm data tier]
  show "touches dir (w_fs w) (w_fs w')"
    by (rule confined_touches[OF c run d]) (auto intro: below_partition)
  show "env_same w w'" by (rule confined_env[OF c run])
  show "dirs_to (w_fs w') (parts_dir dir)" by (rule confinedD(1)[OF c run d])
  show "x = nm \<or> x = publishingPrefix @ nm \<or> lookup (w_fs w) (part_dir dir x) \<noteq> None"
    if "lookup (w_fs w') (part_dir dir x) \<noteq> None"
    using confinedD(2)[OF c run d, of "part_dir dir x"] that unfolding part_dir_prefix by metis
qed

lemma save_touches:
  assumes run: "saveManifest (manifest_path dir) parts w = (r, w')" and d: "dirs_to (w_fs w) (parts_dir dir)"
  shows "touches dir (w_fs w) (w_fs w')" and "env_same w w'" and "dirs_to (w_fs w') (parts_dir dir)"
    and "lookup (w_fs w') (part_dir dir x) = lookup (w_fs w) (part_dir dir x)"
proof -
  note c = confined_saveManifest[of dir parts]
  show "touches dir (w_fs w) (w_fs w')"
    by (rule confined_touches[OF c run d]) (auto intro: below_partition)
  show "env_same w w'" by (rule confined_env[OF c run])
  show "dirs_to (w_fs w') (parts_dir dir)" by (rule confinedD(1)[OF c run d])
  show "lookup (w_fs w') (part_dir dir x) = lookup (w_fs w) (part_dir dir x)"
    by (rule confinedD(2)[OF c run d]) (auto dest: manifest_not_in_parts)
qed

lemma orphans_published:
  assumes "orphans_ok (w_fs w) p" and "0 < p_nextID p" and "p_nextID p < 2 ^ 63 - 1"
    and "\<And>x. lookup fs' (part_dir (p_dir p) x) \<noteq> None \<Longrightarrow> x = sprintf06d (p_nextID p) \<or>
      x = publishingPrefix @ sprintf06d (p_nextID p) \<or> lookup (w_fs w) (part_dir (p_dir p) x) \<noteq> None"
    and "p_dir p' = p_dir p" and "p_nextID p' = p_nextID p + 1"
  shows "orphans_ok fs' p'"
  unfolding orphans_ok_def
proof (intro allI impI)
  fix x i assume x: "lookup fs' (part_dir (p_dir p') x) \<noteq> None" "Atoi x = Some i"
  from assms(4)[OF x(1)[unfolded assms(5)]] show "i < p_nextID p'"
  proof (elim disjE)
    assume "x = sprintf06d (p_nextID p)"
    then show ?thesis using x(2) Atoi_sprintf06d[of "p_nextID p"] assms(2,3,6) by simp
  next
    assume "lookup (w_fs w) (part_dir (p_dir p) x) \<noteq> None"
    then have "i < p_nextID p" using assms(1) x(2) by (auto simp: orphans_ok_def)
    then show ?thesis using assms(6) by simp
  qed (use x(2) in simp)
qed

lemma addPart_frame:
  assumes d: "dirs_to (w_fs w) (parts_dir (p_dir p))" and orph: "orphans_ok (w_fs w) p"
    and id: "0 < p_nextID p" "p_nextID p < 2 ^ 63 - 1" and run: "addPart p data w = (r, p', w')"
  shows "env_same w w'" and "touches (p_dir p) (w_fs w) (w_fs w')" and "orphans_ok (w_fs w') p'"
    and "r = Inl e \<Longrightarrow> \<not> is_panic e" and "p_nextID p' \<le> p_nextID p + 1"
proof -
  have "env_same w w' \<and> touches (p_dir p) (w_fs w) (w_fs w') \<and> orphans_ok (w_fs w') p' \<and>
    (\<forall>e. r = Inl e \<longrightarrow> \<not> is_panic e) \<and> p_nextID p' \<le> p_nextID p + 1"
  proof (cases "p_dropped p")
    case True
    then show ?thesis using run orph by (auto simp: addPart_def)
  next
    case False
    let ?nm = "sprintf06d (p_nextID p)"
    have gi: "goint (p_nextID p + 1) = p_nextID p + 1" using id by (intro goint_id) simp_all
    obtain r1 w1 where pub: "publish_part (p_dir p) ?nm data tierSmall w = (r1, w1)" by fastforce
    note t1 = publish_touches[OF pub d]
    show ?thesis
    proof (cases r1)
      case (Inl e)
      then have e: "r = Inl e" "p' = p\<lparr>p_nextID := p_nextID p + 1\<rparr>" "w' = w1"
        using run False pub by (simp_all add: addPart_def Let_def gi)
      have "orphans_ok (w_fs w1) p'"
        by (rule orphans_published[OF orph id]) (use t1(4) e in auto)
      then show ?thesis
        using t1 e no_panicD[OF no_panic_publish pub[unfolded Inl]] by auto
    next
      case (Inr u)
      let ?p = "p\<lparr>p_nextID := p_nextID p + 1, p_parts := p_parts p @ [?nm]\<rparr>"
      obtain w2 where save: "saveManifest (manifest_path (p_dir p)) (p_parts p @ [?nm]) w1 = (r, w2)"
        and e: "p' = ?p" "w' = w2"
        using run False pub Inr by (auto simp: addPart_def Let_def gi split: prod.splits)
      note t2 = save_touches[OF save t1(3)]
      have np: "\<not> is_panic e" if "r = Inl e" for e
        using no_panicD[OF no_panic_saveManifest save[unfolded that]] .
      have "orphans_ok (w_fs w2) p'"
        by (rule orphans_published[OF orph id]) (use t1(4) t2(4) e in auto)
      then show ?thesis
        using t1 t2 e np
        by (auto intro: env_same_trans touches_trans)
    qed
  qed
  then show "env_same w w'" and "touches (p_dir p) (w_fs w) (w_fs w')" and "orphans_ok (w_fs w') p'"
    and "r = Inl e \<Longrightarrow> \<not> is_panic e" and "p_nextID p' \<le> p_nextID p + 1" by blast+
qed

section \<open>Opening a partition\<close>

text \<open>
  What a partition directory looks like on disk between runs: the manifest lists complete parts
  with numbered names; anything else in it is an orphan or a staging directory.
\<close>

definition disk_partition ::
  "int \<Rightarrow> jdoc fs \<Rightarrow> path \<Rightarrow> string list \<Rightarrow> (string \<Rightarrow> (uint64, Sample list) gomap) \<Rightarrow> bool" where
  "disk_partition N fs dir dn D \<longleftrightarrow>
     manifest_of fs dir = Some dn \<and> distinct dn \<and>
     (\<forall>nm \<in> set dn. numbered N nm \<and> holds_part fs dir nm (D nm)) \<and>
     (\<forall>q c. prefix q (parts_dir dir) \<longrightarrow> lookup fs q \<noteq> Some (File c)) \<and>
     (\<forall>nm i. lookup fs (part_dir dir nm) \<noteq> None \<longrightarrow> Atoi nm = Some i \<longrightarrow> i < N)"

definition scan_max :: "(string \<times> bool) list \<Rightarrow> int" where
  "scan_max entries = foldl (\<lambda>m (nm, isdir). if prefix publishingPrefix nm then m
     else (case Atoi nm of None \<Rightarrow> m | Some i \<Rightarrow> if i > m then i else m)) 0 entries"

lemma scan_max_snoc:
  "scan_max (es @ [(nm, d)]) = (if prefix publishingPrefix nm then scan_max es
     else (case Atoi nm of None \<Rightarrow> scan_max es | Some i \<Rightarrow> max (scan_max es) i))"
  by (simp add: scan_max_def max_def split: option.splits)

lemma scan_max_bounds:
  "0 \<le> scan_max es \<and>
   (\<forall>nm d i. (nm, d) \<in> set es \<longrightarrow> \<not> prefix publishingPrefix nm \<longrightarrow> Atoi nm = Some i \<longrightarrow> i \<le> scan_max es) \<and>
   ((\<forall>nm d i. (nm, d) \<in> set es \<longrightarrow> Atoi nm = Some i \<longrightarrow> i < b) \<longrightarrow> 0 < b \<longrightarrow> scan_max es < b)"
proof (induction es rule: rev_induct)
  case Nil
  then show ?case by (simp add: scan_max_def)
next
  case (snoc e es)
  obtain nm d where "e = (nm, d)" by (cases e)
  with snoc show ?case by (auto simp: scan_max_snoc split: option.splits)
qed

text \<open>The scan never fails: the errors of the clean-up are dropped.\<close>

lemma scan_entry_run:
  "fst (scan_entry dir m (nm, d) w) = Inr (if prefix publishingPrefix nm then m
     else (case Atoi nm of None \<Rightarrow> m | Some i \<Rightarrow> if i > m then i else m))"
  by (simp add: scan_entry_def io_bind_def io_run)

lemma scan_entries_run:
  "fst (io_fold (scan_entry dir) m es w) = Inr (foldl (\<lambda>m (nm, isdir). if prefix publishingPrefix nm then m
     else (case Atoi nm of None \<Rightarrow> m | Some i \<Rightarrow> if i > m then i else m)) m es)"
proof (induction es arbitrary: m w)
  case Nil
  then show ?case by (simp add: io_run)
next
  case (Cons e es)
  obtain nm d where e: "e = (nm, d)" by (cases e)
  obtain r w1 where r: "scan_entry dir m (nm, d) w = (r, w1)" by fastforce
  then have "r = fst (scan_entry dir m (nm, d) w)" by simp
  then have r': "scan_entry dir m (nm, d) w = (Inr (if prefix publishingPrefix nm then m
     else (case Atoi nm of None \<Rightarrow> m | Some i \<Rightarrow> if i > m then i else m)), w1)"
    using r scan_entry_run[of dir m nm d w] by simp
  show ?case
    unfolding e io_fold.simps io_bind_run(1)[where m = "scan_entry dir m (nm, d)", OF r'] Cons.IH foldl.simps prod.case ..
qed

lemma confined_scan:
  "confined (parts_dir dir) (\<lambda>q. \<exists>nm. prefix publishingPrefix nm \<and> prefix (part_dir dir nm) q)
     (io_fold (scan_entry dir) m es)"
proof (rule confined_fold)
  fix x :: "string \<times> bool" and s :: int
  obtain nm d where x: "x = (nm, d)" by (cases x)
  have rm: "confined (parts_dir dir) (\<lambda>q. \<exists>nm. prefix publishingPrefix nm \<and> prefix (part_dir dir nm) q)
      (removeAll (part_dir dir nm))" if "prefix publishingPrefix nm"
    by (rule confined_removeAll) (use that not_prefix_parts_dir in auto)
  show "confined (parts_dir dir) (\<lambda>q. \<exists>nm. prefix publishingPrefix nm \<and> prefix (part_dir dir nm) q)
      (scan_entry dir s x)"
    unfolding scan_entry_def x prod.case
    by (intro confined_if confined_bind confined_ignore confined_return rm)
qed

lemma loadManifest_run:
  assumes "manifest_of fs dir = Some dn" and "dirs_to fs dir" and "w_fs w = fs"
    and "loadManifest (manifest_path dir) w = (r, w')"
  shows "w_fs w' = fs \<and> env_same w w' \<and> (r = Inr dn \<or> r = Inl ErrIO) \<and> (healthy w \<longrightarrow> r = Inr dn)"
proof (cases "lookup fs (manifest_path dir)")
  case None
  then have dn: "dn = []" using assms(1) by (simp add: manifest_of_def)
  obtain r1 w1 where rf: "readFile (manifest_path dir) w = (r1, w1)" by fastforce
  have "r1 = Inl (missing_err fs (manifest_path dir)) \<or> r1 = Inl ErrIO"
    using rf None assms(3) by (auto simp: readFile_def sys_def split: if_splits)
  moreover have h: "r1 = Inl ErrNotExist" if "healthy w"
    using readFile_missing[OF that, of "manifest_path dir"] None assms(2,3) rf by (simp add: manifest_path_def)
  moreover have me: "missing_err fs (manifest_path dir) = ErrNotExist \<or> missing_err fs (manifest_path dir) = ErrIO"
    by (simp add: missing_err_def)
  moreover have "w_fs w1 = fs" "env_same w w1" using rf assms(3) reads_onlyD[OF reads_only_simps(4) rf] by auto
  ultimately show ?thesis
    using assms(4) rf dn by (auto simp: loadManifest_def)
next
  case (Some nd)
  then obtain c where c: "lookup fs (manifest_path dir) = Some (File c)" "unmarshal_manifest c = Inr dn"
    using assms(1) by (cases nd) (auto simp: manifest_of_def split: sum.splits)
  obtain r1 w1 where rf: "readFile (manifest_path dir) w = (r1, w1)" by fastforce
  have "yields (w_fs w) (readFile (manifest_path dir)) (\<lambda>r. r = Inr c)"
    using c(1) assms(3) by (simp add: yields_readFile)
  from yieldsD[OF this rf] show ?thesis
    using assms(3,4) rf c(2) by (auto simp: loadManifest_def)
qed

text \<open>The first three steps of \<open>openPartition\<close>.\<close>

definition scan_parts :: "path \<Rightarrow> int diskio" where
  "scan_parts dir =
     io_bind (mkdirAll (parts_dir dir)) (\<lambda>_.
     io_bind (readDir (parts_dir dir)) (\<lambda>entries. io_fold (scan_entry dir) 0 entries))"

lemma openPartition_scan:
  "openPartition dir day =
     io_bind (scan_parts dir) (\<lambda>maxID.
     io_bind (loadManifest (manifest_path dir)) (\<lambda>parts.
     io_return \<lparr>p_day = day, p_dir = dir, p_parts = parts,
       p_nextID = goint (maxID + 1), p_dropped = False\<rparr>))"
  by (simp add: openPartition_def scan_parts_def io_bind_assoc)

definition scanned :: "jdoc fs \<Rightarrow> path \<Rightarrow> int \<Rightarrow> bool" where
  "scanned fs dir n \<longleftrightarrow> 0 \<le> n \<and>
     (\<forall>nm i. lookup fs (part_dir dir nm) \<noteq> None \<longrightarrow> Atoi nm = Some i \<longrightarrow> i \<le> n) \<and>
     (\<forall>b > 0. (\<forall>nm i. lookup fs (part_dir dir nm) \<noteq> None \<longrightarrow> Atoi nm = Some i \<longrightarrow> i < b) \<longrightarrow> n < b)"

lemma publishing_no_number: "prefix publishingPrefix nm \<Longrightarrow> Atoi nm = None"
  by (auto simp: prefix_def)

lemma scanned_children: "scanned fs dir (scan_max (children fs (parts_dir dir)))"
proof -
  have ch: "(nm, d) \<in> set (children fs (parts_dir dir)) \<longleftrightarrow>
      lookup fs (part_dir dir nm) \<noteq> None \<and> d = (lookup fs (part_dir dir nm) = Some Dir)" for nm d
    by (simp add: in_children part_dir_def)
  note b = scan_max_bounds[of "children fs (parts_dir dir)"]
  have "i \<le> scan_max (children fs (parts_dir dir))"
    if "lookup fs (part_dir dir nm) \<noteq> None" "Atoi nm = Some i" for nm i
    using b that ch[of nm "lookup fs (part_dir dir nm) = Some Dir"] publishing_no_number[of nm] by fastforce
  moreover have "scan_max (children fs (parts_dir dir)) < c"
    if "0 < c" "\<forall>nm i. lookup fs (part_dir dir nm) \<noteq> None \<longrightarrow> Atoi nm = Some i \<longrightarrow> i < c" for c
    using b[of c] that ch by blast
  ultimately show ?thesis using b unfolding scanned_def by blast
qed

lemma scanned_cong:
  "(\<And>nm. lookup fs' (part_dir dir nm) = lookup fs (part_dir dir nm)) \<Longrightarrow> scanned fs' dir n = scanned fs dir n"
  by (simp add: scanned_def)

lemma scan_parts_outcome:
  assumes run: "scan_parts dir w = (r, w')"
    and nofile: "\<forall>q c. prefix q (parts_dir dir) \<longrightarrow> lookup (w_fs w) q \<noteq> Some (File c)"
  shows "env_same w w'"
    and "\<forall>q. \<not> prefix q (parts_dir dir) \<longrightarrow> (\<forall>x. prefix publishingPrefix x \<longrightarrow> \<not> prefix (part_dir dir x) q) \<longrightarrow>
      lookup (w_fs w') q = lookup (w_fs w) q"
    and "touches dir (w_fs w) (w_fs w')"
    and "(\<exists>n. r = Inr n \<and> scanned (w_fs w) dir n \<and> dirs_to (w_fs w') (parts_dir dir)) \<or> (r = Inl ErrIO \<and> \<not> healthy w)"
    and "prefix q (parts_dir dir) \<Longrightarrow> lookup (w_fs w') q = lookup (w_fs w) q \<or> lookup (w_fs w') q = Some Dir"
proof -
  let ?pd = "parts_dir dir"
  have pdq: "q = ?pd \<or> prefix q dir" if "prefix q ?pd" for q using that by (simp add: parts_dir_def)
  have sp: "strict_prefix dir ?pd" by (simp add: parts_dir_def strict_prefix_def)
  obtain r1 w1 where mk: "mkdirAll ?pd w = (r1, w1)" by fastforce
  note m1 = mkdirAll_outcome[OF mk nofile[rule_format]]
  have t1: "touches dir (w_fs w) (w_fs w1)"
    using mkdirAll_effect[OF mk] pdq sp unfolding touches_def by metis
  have keep1: "lookup (w_fs w1) q = lookup (w_fs w) q" if "\<not> prefix q ?pd" for q
    using mkdirAll_effect[OF mk] that by metis
  have up1: "lookup (w_fs w1) q = lookup (w_fs w) q \<or> lookup (w_fs w1) q = Some Dir" for q
    using mkdirAll_effect[OF mk] by metis
  have all: "env_same w w' \<and>
    (\<forall>q. \<not> prefix q ?pd \<longrightarrow> (\<forall>x. prefix publishingPrefix x \<longrightarrow> \<not> prefix (part_dir dir x) q) \<longrightarrow>
      lookup (w_fs w') q = lookup (w_fs w) q) \<and> touches dir (w_fs w) (w_fs w') \<and>
    (\<forall>q. prefix q ?pd \<longrightarrow> lookup (w_fs w') q = lookup (w_fs w) q \<or> lookup (w_fs w') q = Some Dir) \<and>
    ((\<exists>n. r = Inr n \<and> scanned (w_fs w) dir n \<and> dirs_to (w_fs w') ?pd) \<or> (r = Inl ErrIO \<and> \<not> healthy w))"
  proof (cases r1)
    case (Inl e)
    then have "r = Inl e" "w' = w1" using run mk by (simp_all add: scan_parts_def io_bind_def)
    then show ?thesis using m1 t1 keep1 up1 Inl by auto
  next
    case r1: (Inr u)
    have d1: "dirs_to (w_fs w1) ?pd" using mkdirAll_Inr[OF mk[unfolded r1]] .
    obtain r2 w2 where rd: "readDir ?pd w1 = (r2, w2)" by fastforce
    note ro2 = readDir_outcome[OF rd d1]
    have run2: "(r, w') = (case r2 of Inl e \<Rightarrow> (Inl e, w2) | Inr es \<Rightarrow> io_fold (scan_entry dir) 0 es w2)"
      using run mk r1 rd by (simp add: scan_parts_def io_bind_def split: sum.splits)
    show ?thesis
    proof (cases r2)
      case (Inl e)
      then show ?thesis
        using run2 ro2 m1(1) t1 keep1 up1 healthy_env[of w w1] by (auto intro: env_same_trans)
    next
      case r2: (Inr es)
      have es: "es = children (w_fs w1) ?pd" using ro2(3) r2 by auto
      have sc: "io_fold (scan_entry dir) 0 es w2 = (r, w')" using run2 r2 by simp
      have d2: "dirs_to (w_fs w2) ?pd" using d1 ro2(1) by simp
      note c3 = confinedD[OF confined_scan sc d2] and e3 = confined_env[OF confined_scan sc]
      have t3: "touches dir (w_fs w2) (w_fs w')"
        by (rule confined_touches[OF confined_scan sc d2]) (auto intro: below_partition)
      have "r = Inr (scan_max es)"
        using scan_entries_run[of dir 0 es w2] sc by (simp add: scan_max_def)
      moreover have "scanned (w_fs w) dir (scan_max es)"
        using scanned_children[of "w_fs w1" dir] scanned_cong[of "w_fs w1" dir "w_fs w"]
          keep1[OF not_prefix_parts_dir(1)[of dir]] unfolding es by simp
      moreover have "touches dir (w_fs w) (w_fs w')" using t1 t3 ro2(1) touches_trans by metis
      moreover have "lookup (w_fs w') q = lookup (w_fs w) q"
        if "\<not> prefix q ?pd" "\<forall>x. prefix publishingPrefix x \<longrightarrow> \<not> prefix (part_dir dir x) q" for q
        using c3(2)[of q] keep1[OF that(1)] ro2(1) that(2) by auto
      moreover have "lookup (w_fs w') q = lookup (w_fs w) q \<or> lookup (w_fs w') q = Some Dir" if "prefix q ?pd" for q
        using dirs_to_prefix[OF c3(1) that] dirs_to_self by blast
      ultimately show ?thesis
        using c3(1) env_same_trans[OF m1(1) env_same_trans[OF ro2(2) e3]] by auto
    qed
  qed
  then show "env_same w w'" "touches dir (w_fs w) (w_fs w')"
    "(\<exists>n. r = Inr n \<and> scanned (w_fs w) dir n \<and> dirs_to (w_fs w') (parts_dir dir)) \<or> (r = Inl ErrIO \<and> \<not> healthy w)"
    "prefix q (parts_dir dir) \<Longrightarrow> lookup (w_fs w') q = lookup (w_fs w) q \<or> lookup (w_fs w') q = Some Dir"
    by blast+
  show "\<forall>q. \<not> prefix q (parts_dir dir) \<longrightarrow> (\<forall>x. prefix publishingPrefix x \<longrightarrow> \<not> prefix (part_dir dir x) q) \<longrightarrow>
      lookup (w_fs w') q = lookup (w_fs w) q"
    using all by blast
qed

text \<open>The scan leaves the entries alone whose names are not those of staging directories.\<close>

lemma scan_keeps:
  assumes keep: "\<forall>q. \<not> prefix q (parts_dir dir) \<longrightarrow> (\<forall>x. prefix publishingPrefix x \<longrightarrow> \<not> prefix (part_dir dir x) q) \<longrightarrow>
      lookup fs' q = lookup fs q"
    and "\<not> prefix publishingPrefix nm" and q: "prefix (part_dir dir nm) q"
  shows "lookup fs' q = lookup fs q"
proof (rule keep[rule_format])
  show "\<not> prefix q (parts_dir dir)" using q not_prefix_parts_dir(1)[of dir nm] by (auto intro: prefix_order.trans)
  show "\<not> prefix (part_dir dir x) q" if "prefix publishingPrefix x" for x
    by (rule part_dir_disjoint[OF _ q]) (use assms(2) that in auto)
qed

lemma numbered_scanned:
  assumes "numbered N nm" and "N < 2 ^ 63" and "scanned fs dir n" and "lookup fs (part_dir dir nm) \<noteq> None"
  shows "numbered (n + 1) nm"
proof -
  obtain i where i: "0 < i" "i < N" "nm = sprintf06d i" using assms(1) by (auto simp: numbered_def)
  have "Atoi nm = Some i" unfolding i(3) using i(1,2) assms(2) by (intro Atoi_sprintf06d) simp_all
  then have "i \<le> n" using assms(3,4) unfolding scanned_def by blast
  then show ?thesis using i by (auto simp: numbered_def)
qed

lemma scan_disk:
  assumes disk: "disk_partition N (w_fs w) dir dn D" and run: "scan_parts dir w = (r, w')"
  shows "disk_partition N (w_fs w') dir dn D"
proof -
  have nofile: "\<forall>q c. prefix q (parts_dir dir) \<longrightarrow> lookup (w_fs w) q \<noteq> Some (File c)"
    using disk by (simp add: disk_partition_def)
  note s1 = scan_parts_outcome[OF run nofile]
  have "lookup (w_fs w') (manifest_path dir) = lookup (w_fs w) (manifest_path dir)"
    by (rule s1(2)[rule_format]) (auto simp: manifest_path_def parts_dir_def part_dir_def)
  note man = manifest_of_frame[OF this]
  have hold: "holds_part (w_fs w') dir nm (D nm)" if nm: "nm \<in> set dn" for nm
  proof -
    have h: "numbered N nm" "holds_part (w_fs w) dir nm (D nm)" using disk nm by (auto simp: disk_partition_def)
    have "\<not> prefix publishingPrefix nm" by (rule digits_not_publishing[OF numbered_digits[OF h(1)]])
    from holds_part_frame[OF h(2) scan_keeps[OF s1(2) this]] show ?thesis .
  qed
  have orph: "i < N" if x: "lookup (w_fs w') (part_dir dir x) \<noteq> None" "Atoi x = Some i" for x i
  proof -
    have "\<not> prefix publishingPrefix x" using publishing_no_number[of x] x(2) by auto
    from scan_keeps[OF s1(2) this, of "part_dir dir x"] x disk show ?thesis by (auto simp: disk_partition_def)
  qed
  have up: "lookup (w_fs w') q \<noteq> Some (File c)" if "prefix q (parts_dir dir)" for q c
    using s1(5)[OF that] nofile that by auto
  show ?thesis unfolding disk_partition_def
    using man hold orph up disk by (auto simp: disk_partition_def)
qed

theorem openPartition_recovers:
  assumes disk: "disk_partition N (w_fs w) dir dn D" and N: "0 < N" "N < 2 ^ 63"
    and run: "openPartition dir day w = (r, w')"
  shows "env_same w w'" and "touches dir (w_fs w) (w_fs w')" and "disk_partition N (w_fs w') dir dn D"
    and "(\<exists>p. r = Inr p \<and> partition_inv (w_fs w') p D \<and> synced (w_fs w') p \<and> p_parts p = dn \<and>
      p_dir p = dir \<and> p_day p = day \<and> \<not> p_dropped p \<and> p_nextID p \<le> N \<and>
      orphans_ok (w_fs w') p) \<or> (r = Inl ErrIO \<and> \<not> healthy w)"
proof -
  have nofile: "\<forall>q c. prefix q (parts_dir dir) \<longrightarrow> lookup (w_fs w) q \<noteq> Some (File c)"
    using disk by (simp add: disk_partition_def)
  obtain r1 w1 where sc: "scan_parts dir w = (r1, w1)" by fastforce
  note s1 = scan_parts_outcome[OF sc nofile]
  have step: "(r, w') = (case r1 of Inl e \<Rightarrow> (Inl e, w1) | Inr n \<Rightarrow> io_bind (loadManifest (manifest_path dir)) (\<lambda>parts.
     io_return \<lparr>p_day = day, p_dir = dir, p_parts = parts, p_nextID = goint (n + 1), p_dropped = False\<rparr>) w1)"
    using run sc unfolding openPartition_scan by (simp add: io_bind_def[of "scan_parts dir"] split: sum.splits)
  note d1 = scan_disk[OF disk sc]
  have "env_same w w' \<and> touches dir (w_fs w) (w_fs w') \<and> disk_partition N (w_fs w') dir dn D \<and>
    ((\<exists>p. r = Inr p \<and> partition_inv (w_fs w') p D \<and> synced (w_fs w') p \<and> p_parts p = dn \<and>
      p_dir p = dir \<and> p_day p = day \<and> \<not> p_dropped p \<and> p_nextID p \<le> N \<and>
      orphans_ok (w_fs w') p) \<or> (r = Inl ErrIO \<and> \<not> healthy w))"
    using s1(4)
  proof (elim disjE exE conjE)
    assume "r1 = Inl ErrIO" "\<not> healthy w"
    then show ?thesis using step s1(1,3) d1 by simp
  next
    fix n assume r1: "r1 = Inr n" and n: "scanned (w_fs w) dir n" and dt1: "dirs_to (w_fs w1) (parts_dir dir)"
    have "n < N" using n N disk by (auto simp: scanned_def disk_partition_def)
    then have g: "goint (n + 1) = n + 1" "0 \<le> n" "n < N"
      using n N by (auto simp: scanned_def intro!: goint_id)
    have man: "manifest_of (w_fs w1) dir = Some dn" using d1 by (simp add: disk_partition_def)
    have live: "holds_part (w_fs w1) dir nm (D nm) \<and> numbered (n + 1) nm" if nm: "nm \<in> set dn" for nm
    proof -
      have h: "numbered N nm" "holds_part (w_fs w) dir nm (D nm)"
        using disk nm by (auto simp: disk_partition_def)
      show ?thesis
        using numbered_scanned[OF h(1) N(2) n] h(2) d1 nm by (auto simp: holds_part_def disk_partition_def)
    qed
    have orph: "i \<le> n" if x: "lookup (w_fs w1) (part_dir dir x) \<noteq> None" "Atoi x = Some i" for x i
    proof -
      have "\<not> prefix publishingPrefix x" using publishing_no_number[of x] x(2) by auto
      from scan_keeps[OF s1(2) this, of "part_dir dir x"] x n show ?thesis by (auto simp: scanned_def)
    qed
    obtain r4 w4 where lm: "loadManifest (manifest_path dir) w1 = (r4, w4)" by fastforce
    have "dirs_to (w_fs w1) dir" using dt1 by (rule dirs_to_prefix) (simp add: parts_dir_def)
    note l4 = loadManifest_run[OF man this refl lm]
    let ?p = "\<lparr>p_day = day, p_dir = dir, p_parts = dn, p_nextID = n + 1, p_dropped = False\<rparr>"
    have step4: "(r, w') = (case r4 of Inl e \<Rightarrow> (Inl e, w4) | Inr dn \<Rightarrow> (Inr (?p\<lparr>p_parts := dn\<rparr>), w4))"
      using step r1 lm g(1) by (simp add: io_bind_def io_return_def split: sum.splits)
    have env: "env_same w w4" "healthy w \<Longrightarrow> healthy w1"
      using s1(1) l4 env_same_trans healthy_env by blast+
    have pinv: "partition_inv (w_fs w4) ?p D" "synced (w_fs w4) ?p" "orphans_ok (w_fs w4) ?p"
      using dt1 g live man disk l4 orph
      by (simp_all add: partition_inv_def disk_partition_def synced_def orphans_ok_def zless_add1_eq
          order.order_iff_strict)
    have "touches dir (w_fs w) (w_fs w4)" "disk_partition N (w_fs w4) dir dn D" using s1(3) l4 d1 by simp_all
    then show ?thesis using l4 step4 env pinv g by (cases r4) auto
  qed
  then show "env_same w w'" and "touches dir (w_fs w) (w_fs w')"
    and "disk_partition N (w_fs w') dir dn D"
    and "(\<exists>p. r = Inr p \<and> partition_inv (w_fs w') p D \<and> synced (w_fs w') p \<and> p_parts p = dn \<and>
      p_dir p = dir \<and> p_day p = day \<and> \<not> p_dropped p \<and> p_nextID p \<le> N \<and>
      orphans_ok (w_fs w') p) \<or> (r = Inl ErrIO \<and> \<not> healthy w)" by blast+
qed

end
