(* ===== verification/Compaction.thy ===== *)
theory Compaction
  imports Partition
begin

text \<open>
  Compaction, \<open>storage/compaction.go\<close>: merging small parts of a partition into one big part.
  Whatever fails, the samples the partition holds stay the same.
\<close>

section \<open>Operations\<close>

definition small_step :: "path \<Rightarrow> string list \<Rightarrow> string \<Rightarrow> string list diskio" where
  "small_step dir small nm =
     io_bind (readPartMeta (part_dir dir nm)) (\<lambda>meta.
       io_return (if Tier meta = tierSmall then small @ [nm] else small))"

definition smallParts :: "partition \<Rightarrow> string list diskio" where
  "smallParts p = io_fold (small_step (p_dir p)) [] (p_parts p)"

definition merge_into ::
  "(uint64, Sample list) gomap \<Rightarrow> (uint64, Sample list) gomap \<Rightarrow> (uint64, Sample list) gomap" where
  "merge_into merged data =
     foldl (\<lambda>m (sid, samples). AList.update sid (gm_get m sid @ samples) m) merged data"

definition read_merged :: "path \<Rightarrow> string list \<Rightarrow> (uint64, Sample list) gomap diskio" where
  "read_merged dir nms =
     io_fold (\<lambda>merged nm. io_bind (readPartAll (part_dir dir nm)) (\<lambda>data.
       io_return (merge_into merged data))) [] nms"

definition kept_parts :: "string list \<Rightarrow> string list \<Rightarrow> string \<Rightarrow> string list" where
  "kept_parts parts nms nm = sort (filter (\<lambda>n. n \<notin> set nms) parts @ [nm])"

definition mergeParts :: "partition \<Rightarrow> string list \<Rightarrow> disk \<Rightarrow> unit res \<times> partition \<times> disk" where
  "mergeParts p nms w =
     (case read_merged (p_dir p) nms w of
        (Inl e, w) \<Rightarrow> (Inl e, p, w)
      | (Inr merged, w) \<Rightarrow>
          (let nm = sprintf06d (p_nextID p);
               p = p\<lparr>p_nextID := goint (p_nextID p + 1)\<rparr> in
           case publish_part (p_dir p) nm merged tierBig w of
             (Inl e, w) \<Rightarrow> (Inl e, p, w)
           | (Inr u, w) \<Rightarrow>
               (let kept = kept_parts (p_parts p) nms nm in
                case saveManifest (manifest_path (p_dir p)) kept w of
                  (Inl e, w) \<Rightarrow> (Inl e, p, w)
                | (Inr u, w) \<Rightarrow>
                    (Inr (), p\<lparr>p_parts := kept\<rparr>,
                     snd (io_each (\<lambda>n. io_ignore (removeAll (part_dir (p_dir p) n))) nms w)))))"

definition compactPartition :: "partition \<Rightarrow> int \<Rightarrow> disk \<Rightarrow> unit res \<times> partition \<times> disk" where
  "compactPartition p minParts w =
     (case smallParts p w of
        (Inl e, w) \<Rightarrow> (Inl e, p, w)
      | (Inr small, w) \<Rightarrow>
          if int (length small) < minParts then (Inr (), p, w) else mergeParts p small w)"

section \<open>Reading the parts to merge\<close>

definition data_room :: "(uint64, Sample list) gomap \<Rightarrow> nat" where
  "data_room data = sum_list (map (block_room \<circ> snd) data)"

lemma data_room_update:
  "data_room (AList.update sid (gm_get m sid @ xs) m) \<le> data_room m + block_room xs"
proof (induction m)
  case Nil
  then show ?case by (simp add: data_room_def gm_get_def)
next
  case (Cons x m)
  then show ?case
    by (cases x) (auto simp: data_room_def block_room_def gm_get_def)
qed

lemma merge_into_props:
  assumes "gm_wf data"
  shows "gm_wf m \<Longrightarrow> gm_wf (merge_into m data) \<and>
    (\<forall>sid. gm_get (merge_into m data) sid = gm_get m sid @ gm_get data sid) \<and>
    data_room (merge_into m data) \<le> data_room m + data_room data"
  using assms
proof (induction data arbitrary: m)
  case Nil
  then show ?case by (simp add: merge_into_def data_room_def)
next
  case (Cons x data)
  obtain k xs where x: "x = (k, xs)" by (cases x)
  let ?m = "AList.update k (gm_get m k @ xs) m"
  have step: "merge_into m (x # data) = merge_into ?m data" by (simp add: merge_into_def x)
  have IH: "gm_wf (merge_into ?m data) \<and>
    (\<forall>sid. gm_get (merge_into ?m data) sid = gm_get ?m sid @ gm_get data sid) \<and>
    data_room (merge_into ?m data) \<le> data_room ?m + data_room data"
    using Cons.prems by (intro Cons.IH) simp_all
  have "gm_get data k = []" using Cons.prems(2) by (intro gm_get_absent) (simp add: x)
  then have g: "gm_get ?m sid @ gm_get data sid = gm_get m sid @ gm_get (x # data) sid" for sid
  proof (cases "sid = k")
    case True
    then show ?thesis using \<open>gm_get data k = []\<close> by (simp add: x gm_get_def[of "(k, xs) # data"])
  next
    case False
    then show ?thesis by (simp add: x gm_get_def[of "(k, xs) # data"] gm_get_def[of data])
  qed
  have r: "data_room ?m + data_room data \<le> data_room m + data_room (x # data)"
    using data_room_update[of k m xs] by (simp add: x data_room_def)
  show ?case
    unfolding step
  proof (intro conjI allI)
    show "gm_wf (merge_into ?m data)" using IH by blast
    show "gm_get (merge_into ?m data) sid = gm_get m sid @ gm_get (x # data) sid" for sid
      using IH g[of sid] by metis
    show "data_room (merge_into ?m data) \<le> data_room m + data_room (x # data)"
      using IH r by linarith
  qed
qed

lemma same_map_room:
  assumes "gm_wf a" and "gm_wf b" and "map_of a = map_of b"
  shows "data_room a = data_room b" and "gm_get a = gm_get b"
proof -
  have "set a = set b" using assms by (metis map_of_inject_set)
  then have "mset a = mset b"
    using assms(1,2) by (intro mset_distinct_set) (auto simp: distinct_map)
  then show "data_room a = data_room b"
    unfolding data_room_def by (metis mset_map sum_mset_sum_list)
  show "gm_get a = gm_get b" using assms(3) by (simp add: gm_get_def fun_eq_iff)
qed

lemma yields_read_merged:
  assumes "\<forall>nm \<in> set nms. holds_part fs dir nm (D nm)"
  shows "yields fs (read_merged dir nms) (\<lambda>r. \<exists>m. r = Inr m \<and> gm_wf m \<and>
    (\<forall>sid. mset (gm_get m sid) = samples_in D nms sid) \<and>
    data_room m \<le> (\<Sum>nm\<leftarrow>nms. data_room (D nm)))"
  unfolding read_merged_def
proof (rule yields_fold)
  show "gm_wf ([] :: (uint64, Sample list) gomap) \<and> (\<forall>sid. mset (gm_get [] sid) = samples_in D [] sid) \<and>
      data_room [] \<le> (\<Sum>nm\<leftarrow>[]. data_room (D nm))"
    by (simp add: data_room_def)
  fix ys nm zs and m :: "(uint64, Sample list) gomap"
  assume nms: "nms = ys @ nm # zs"
    and inv: "gm_wf m \<and> (\<forall>sid. mset (gm_get m sid) = samples_in D ys sid) \<and>
      data_room m \<le> (\<Sum>nm\<leftarrow>ys. data_room (D nm))"
  obtain meta where st: "stored_part fs (part_dir dir nm) meta (D nm)"
    using assms nms by (auto simp: holds_part_def)
  then have wf: "gm_wf (D nm)" by (simp add: stored_part_def)
  show "yields fs (io_bind (readPartAll (part_dir dir nm)) (\<lambda>data. io_return (merge_into m data)))
      (\<lambda>r. \<exists>m'. r = Inr m' \<and> gm_wf m' \<and> (\<forall>sid. mset (gm_get m' sid) = samples_in D (ys @ [nm]) sid) \<and>
        data_room m' \<le> (\<Sum>nm\<leftarrow>ys @ [nm]. data_room (D nm)))"
  proof (rule yields_bind[OF yields_readPartAll[OF st]])
    fix data
    assume "\<exists>d. (Inr data :: (uint64, Sample list) gomap res) = Inr d \<and> gm_wf d \<and> map_of d = map_of (D nm)"
    then have d: "gm_wf data" "map_of data = map_of (D nm)" by auto
    note s = same_map_room[OF d(1) wf d(2)] and mi = merge_into_props[OF d(1), of m]
    show "yields fs (io_return (merge_into m data))
      (\<lambda>r. \<exists>m'. r = Inr m' \<and> gm_wf m' \<and> (\<forall>sid. mset (gm_get m' sid) = samples_in D (ys @ [nm]) sid) \<and>
        data_room m' \<le> (\<Sum>nm\<leftarrow>ys @ [nm]. data_room (D nm)))"
      using mi inv s by (intro yields_return) auto
  qed auto
qed

lemma yields_smallParts:
  assumes "partition_inv fs p D"
  shows "yields fs (smallParts p)
    (\<lambda>r. \<exists>small. r = Inr small \<and> distinct small \<and> set small \<subseteq> set (p_parts p))"
proof -
  have "yields fs (smallParts p) (\<lambda>r. \<exists>small. r = Inr small \<and> (\<exists>f. small = filter f (p_parts p)))"
    unfolding smallParts_def
  proof (rule yields_fold)
    show "\<exists>f. [] = filter f ([] :: string list)" by simp
    fix ys nm zs and s :: "string list"
    assume p: "p_parts p = ys @ nm # zs" and "\<exists>f. s = filter f ys"
    then obtain f where s: "s = filter f ys" by blast
    have new: "nm \<notin> set ys" using assms p by (auto simp: partition_inv_def)
    obtain meta where st: "stored_part fs (part_dir (p_dir p) nm) meta (D nm)"
      using assms p by (auto simp: partition_inv_def holds_part_def)
    have f': "filter (\<lambda>n. if n = nm then b else f n) ys = filter f ys" for b
      using new by (intro filter_cong) auto
    show "yields fs (small_step (p_dir p) s nm)
        (\<lambda>r. \<exists>s'. r = Inr s' \<and> (\<exists>f. s' = filter f (ys @ [nm])))"
      unfolding small_step_def
      by (rule yields_bind_eq[OF yields_readPartMeta[OF st]], rule yields_return)
        (use f' in \<open>auto simp: s intro: exI[of _ "\<lambda>n. if n = nm then True else f n"]
           exI[of _ "\<lambda>n. if n = nm then False else f n"]\<close>)
  qed
  then show ?thesis
    by (rule yields_mono) (use assms in \<open>auto simp: partition_inv_def\<close>)
qed

section \<open>A merge keeps the samples\<close>

text \<open>What the merge of these parts holds in memory fits the address space.\<close>

definition merge_fits :: "(string \<Rightarrow> (uint64, Sample list) gomap) \<Rightarrow> string list \<Rightarrow> bool" where
  "merge_fits D nms \<longleftrightarrow> (\<Sum>nm\<leftarrow>nms. data_room (D nm)) \<le> 2 ^ 48"

lemma part_fits_room: "part_fits data \<longleftrightarrow> data_room data \<le> 2 ^ 48"
  by (simp add: part_fits_def data_room_def)

lemma set_kept_parts: "set (kept_parts parts nms nm) = insert nm (set parts - set nms)"
  by (auto simp: kept_parts_def)

lemma distinct_kept_parts: "distinct parts \<Longrightarrow> nm \<notin> set parts \<Longrightarrow> distinct (kept_parts parts nms nm)"
  by (simp add: kept_parts_def)

lemma samples_in_kept_parts:
  assumes "distinct parts" and "distinct nms" and "set nms \<subseteq> set parts" and "nm \<notin> set parts"
    and "mset (gm_get blocks sid) = samples_in D nms sid"
  shows "samples_in (D(nm := blocks)) (kept_parts parts nms nm) sid = samples_in D parts sid"
proof -
  let ?rest = "filter (\<lambda>n. n \<notin> set nms) parts"
  have perm: "mset parts = mset (?rest @ nms)"
    using assms(1-3) by (intro mset_distinct_set) auto
  have "samples_in (D(nm := blocks)) (kept_parts parts nms nm) sid = samples_in (D(nm := blocks)) (?rest @ [nm]) sid"
    by (rule samples_in_perm) (simp add: kept_parts_def)
  also have "\<dots> = samples_in D ?rest sid + samples_in D nms sid"
  proof -
    have "samples_in (D(nm := blocks)) ?rest sid = samples_in D ?rest sid"
      by (rule samples_in_cong) (use assms(4) in auto)
    then show ?thesis using assms(5) by simp
  qed
  also have "\<dots> = samples_in D (?rest @ nms) sid" by simp
  also have "\<dots> = samples_in D parts sid" by (rule samples_in_perm[OF perm[symmetric]])
  finally show ?thesis .
qed

text \<open>Deleting the merged directories leaves the others and the manifest alone.\<close>

lemma confined_remove_parts:
  "confined (parts_dir dir) (\<lambda>q. \<exists>n \<in> set nms. prefix (part_dir dir n) q)
     (io_each (\<lambda>n. io_ignore (removeAll (part_dir dir n))) nms)"
  by (intro confined_each confined_ignore confined_removeAll) (auto simp: not_prefix_parts_dir)

lemma remove_parts_frame:
  assumes "io_each (\<lambda>n. io_ignore (removeAll (part_dir dir n))) nms w = (r, w')"
    and "dirs_to (w_fs w) (parts_dir dir)"
  shows "dirs_to (w_fs w') (parts_dir dir)"
    and "x \<notin> set nms \<Longrightarrow> holds_part (w_fs w) dir x d \<Longrightarrow> holds_part (w_fs w') dir x d"
    and "manifest_of (w_fs w') dir = manifest_of (w_fs w) dir"
proof -
  note c = confinedD[OF confined_remove_parts assms]
  show "dirs_to (w_fs w') (parts_dir dir)" by (rule c(1))
  show "holds_part (w_fs w') dir x d" if "x \<notin> set nms" "holds_part (w_fs w) dir x d"
    using that(2)
  proof (rule holds_part_frame)
    fix q assume q: "prefix (part_dir dir x) q"
    have "\<not> prefix (part_dir dir n) q" if "n \<in> set nms" for n
      by (rule part_dir_disjoint[OF _ q]) (use \<open>x \<notin> set nms\<close> that in auto)
    then show "lookup (w_fs w') q = lookup (w_fs w) q" by (intro c(2)) blast
  qed
  show "manifest_of (w_fs w') dir = manifest_of (w_fs w) dir"
    by (rule manifest_of_frame, rule c(2)) (simp add: manifest_not_in_parts(1))
qed

text \<open>The invariant after a part was published under the next number.\<close>

lemma publish_inv:
  assumes inv: "partition_inv (w_fs w) p D" and nm: "nm = sprintf06d (p_nextID p)"
    and pub: "publish_part (p_dir p) nm data tier w = (r, w')"
  shows "partition_inv (w_fs w') (p\<lparr>p_nextID := p_nextID p + 1\<rparr>) D"
    and "manifest_of (w_fs w') (p_dir p) = manifest_of (w_fs w) (p_dir p)" and "nm \<notin> set (p_parts p)"
proof -
  have pos: "0 < p_nextID p" using inv by (simp add: partition_inv_def)
  show new: "nm \<notin> set (p_parts p)"
    using inv numbered_new[OF pos] by (auto simp: partition_inv_def nm)
  have d0: "dirs_to (w_fs w) (parts_dir (p_dir p))" using inv by (simp add: partition_inv_def)
  note fr = publish_frame[OF pub d0]
  have old: "holds_part (w_fs w') (p_dir p) x (D x)" if x: "x \<in> set (p_parts p)" for x
  proof -
    have h: "holds_part (w_fs w) (p_dir p) x (D x)" "numbered (p_nextID p) x"
      using inv x by (auto simp: partition_inv_def)
    then show ?thesis using fr(2)[OF _ part_not_staging[OF h(2)] h(1)] x new by blast
  qed
  show man: "manifest_of (w_fs w') (p_dir p) = manifest_of (w_fs w) (p_dir p)"
    by (rule manifest_of_frame[OF fr(3)])
  have "\<forall>x \<in> set (p_parts p). numbered (p_nextID p + 1) x"
    using inv by (auto simp: partition_inv_def intro: numbered_mono)
  then show "partition_inv (w_fs w') (p\<lparr>p_nextID := p_nextID p + 1\<rparr>) D"
    using inv fr(1) old man by (simp add: partition_inv_def)
qed

theorem mergeParts_preserves:
  assumes inv: "partition_inv (w_fs w) p D" and room: "p_nextID p < 2 ^ 63 - 1"
    and nms: "distinct nms" "set nms \<subseteq> set (p_parts p)" and fits: "merge_fits D nms"
    and run: "mergeParts p nms w = (r, p', w')"
  obtains D' where "partition_inv (w_fs w') p' D'"
    and "\<And>sid. samples_in D' (p_parts p') sid = samples_in D (p_parts p) sid"
    and "(p_parts p' = p_parts p \<and> D' = D \<and> r \<noteq> Inr () \<and>
          manifest_of (w_fs w') (p_dir p) = manifest_of (w_fs w) (p_dir p)) \<or>
        (r = Inr () \<and> synced (w_fs w') p')"
    and "p_dir p' = p_dir p" and "p_day p' = p_day p" and "p_dropped p' = p_dropped p"
proof -
  obtain r0 w0 where rd: "read_merged (p_dir p) nms w = (r0, w0)" by fastforce
  have parts: "\<forall>nm \<in> set nms. holds_part (w_fs w) (p_dir p) nm (D nm)"
    using inv nms(2) by (auto simp: partition_inv_def)
  note y = yieldsD[OF yields_read_merged[OF parts] rd]
  have inv0: "partition_inv (w_fs w0) p D" using inv y(1) by simp
  define nm where "nm = sprintf06d (p_nextID p)"
  define p1 where "p1 = p\<lparr>p_nextID := p_nextID p + 1\<rparr>"
  have pos: "0 < p_nextID p" using inv by (simp add: partition_inv_def)
  have gi: "goint (p_nextID p + 1) = p_nextID p + 1" using room pos by (intro goint_id) simp_all
  show thesis
  proof (cases r0)
    case (Inl e)
    then have "r = Inl e" "p' = p" "w' = w0" using run rd by (simp_all add: mergeParts_def)
    then show thesis using inv0 y(1) by (intro that[of D]) simp_all
  next
    case (Inr merged)
    have m: "gm_wf merged" "\<And>sid. mset (gm_get merged sid) = samples_in D nms sid" "part_fits merged"
      using y(3) fits Inr by (auto simp: merge_fits_def part_fits_room)
    obtain r1 w1 where pub: "publish_part (p_dir p) nm merged tierBig w0 = (r1, w1)" by fastforce
    note pi = publish_inv[OF inv0 nm_def pub, folded p1_def]
    show thesis
    proof (cases r1)
      case (Inl e)
      then have "r = Inl e" "p' = p1" "w' = w1"
        using run rd Inr pub by (simp_all add: mergeParts_def Let_def nm_def p1_def gi)
      then show thesis using pi(1,2) y(1) by (intro that[of D]) (simp_all add: p1_def)
    next
      case (Inr u)
      define kept where "kept = kept_parts (p_parts p) nms nm"
      obtain r2 w2 where save: "saveManifest (manifest_path (p_dir p)) kept w1 = (r2, w2)" by fastforce
      from publish_part_Inr[OF pub[unfolded Inr] m(1,3)] publishing_neq[of nm]
      obtain blocks where b: "sorted_version merged blocks" "holds_part (w_fs w1) (p_dir p) nm blocks" by metis
      have d1: "dirs_to (w_fs w1) (parts_dir (p_dir p))" using pi(1) by (simp add: partition_inv_def p1_def)
      note sf = saveManifest_frame[OF save d1]
      have old: "\<forall>x \<in> set (p_parts p). holds_part (w_fs w2) (p_dir p) x (D x)"
        using pi(1) by (auto simp: partition_inv_def p1_def intro!: sf(2))
      show thesis
      proof (cases r2)
        case (Inl e)
        then have o: "r = Inl e" "p' = p1" "w' = w2"
          using run rd \<open>r0 = Inr merged\<close> pub Inr save
          by (simp_all add: mergeParts_def Let_def nm_def p1_def gi kept_def)
        have man: "manifest_of (w_fs w2) (p_dir p) = manifest_of (w_fs w1) (p_dir p)"
          using saveManifest_atomic[OF save] Inl by (intro manifest_of_frame) simp
        have "partition_inv (w_fs w2) p1 D"
          using pi(1) sf(1) old man by (simp add: partition_inv_def p1_def)
        then show thesis using o man pi(2) y(1) by (intro that[of D]) (simp_all add: p1_def)
      next
        case ok: (Inr u2)
        obtain r3 w3 where rm: "io_each (\<lambda>n. io_ignore (removeAll (part_dir (p_dir p) n))) nms w2 = (r3, w3)"
          by fastforce
        have o: "r = Inr ()" "p' = p1\<lparr>p_parts := kept\<rparr>" "w' = w3"
          using run rd \<open>r0 = Inr merged\<close> pub Inr save ok rm
          by (simp_all add: mergeParts_def Let_def nm_def p1_def gi kept_def)
        note rf = remove_parts_frame[OF rm sf(1)]
        let ?D = "D(nm := blocks)"
        have nmn: "nm \<notin> set nms" using pi(3) nms(2) by blast
        have parts3: "\<forall>x \<in> set kept. holds_part (w_fs w3) (p_dir p) x (?D x)"
        proof
          fix x assume "x \<in> set kept"
          then consider "x = nm" | "x \<in> set (p_parts p)" "x \<notin> set nms" "x \<noteq> nm"
            using pi(3) by (auto simp: kept_def set_kept_parts)
          then show "holds_part (w_fs w3) (p_dir p) x (?D x)"
          proof cases
            case 1
            then show ?thesis using rf(2)[OF nmn sf(2)[OF b(2)]] by simp
          next
            case 2
            then show ?thesis using rf(2) old by simp
          qed
        qed
        have "manifest_of (w_fs w2) (p_dir p) = Some kept"
          using saveManifest_atomic[OF save] ok by (auto intro: manifest_of_saved)
        then have man: "manifest_of (w_fs w3) (p_dir p) = Some kept" using rf(3) by simp
        have dk: "distinct kept"
          using inv pi(3) by (simp add: kept_def distinct_kept_parts partition_inv_def)
        have num: "\<forall>x \<in> set kept. numbered (p_nextID p + 1) x"
          using pi(1) numbered_last[OF pos] by (auto simp: kept_def set_kept_parts partition_inv_def p1_def nm_def)
        have "partition_inv (w_fs w3) (p1\<lparr>p_parts := kept\<rparr>) ?D"
          using rf(1) pos dk num parts3 man by (simp add: partition_inv_def p1_def)
        moreover have "samples_in ?D kept sid = samples_in D (p_parts p) sid" for sid
          unfolding kept_def
          by (rule samples_in_kept_parts) (use inv nms pi(3) b(1) m(2) in \<open>simp_all add: partition_inv_def sorted_version_def\<close>)
        ultimately show thesis
          using o man by (intro that[of ?D]) (simp_all add: p1_def synced_def)
      qed
    qed
  qed
qed

theorem compactPartition_preserves:
  assumes inv: "partition_inv (w_fs w) p D" and room: "p_nextID p < 2 ^ 63 - 1"
    and fits: "merge_fits D (p_parts p)" and run: "compactPartition p minParts w = (r, p', w')"
  obtains D' where "partition_inv (w_fs w') p' D'"
    and "\<And>sid. samples_in D' (p_parts p') sid = samples_in D (p_parts p) sid"
    and "(p_parts p' = p_parts p \<and> D' = D \<and>
          manifest_of (w_fs w') (p_dir p) = manifest_of (w_fs w) (p_dir p)) \<or>
        (r = Inr () \<and> synced (w_fs w') p')"
    and "p_dir p' = p_dir p" and "p_day p' = p_day p" and "p_dropped p' = p_dropped p"
proof -
  obtain r0 w0 where sm: "smallParts p w = (r0, w0)" by fastforce
  note y = yieldsD[OF yields_smallParts[OF inv] sm]
  have inv0: "partition_inv (w_fs w0) p D" using inv y(1) by simp
  show thesis
  proof (cases "(\<exists>small. r0 = Inr small \<and> \<not> int (length small) < minParts)")
    case False
    then have "p' = p" "w' = w0" using run sm by (auto simp: compactPartition_def split: sum.splits if_splits)
    then show thesis using inv0 y(1) by (intro that[of D]) simp_all
  next
    case True
    then obtain small where s: "r0 = Inr small" and run': "mergeParts p small w0 = (r, p', w')"
      using run sm by (auto simp: compactPartition_def)
    have d: "distinct small" "set small \<subseteq> set (p_parts p)" using y(3) s by auto
    have "(\<Sum>nm\<leftarrow>small. data_room (D nm)) \<le> (\<Sum>nm\<leftarrow>p_parts p. data_room (D nm))"
      using d inv sum_mono2[of "set (p_parts p)" "set small" "\<lambda>nm. data_room (D nm)"]
      by (simp add: sum_list_distinct_conv_sum_set partition_inv_def)
    then have "merge_fits D small" using fits by (simp add: merge_fits_def)
    from mergeParts_preserves[OF inv0 room d this run'] that y(1) show thesis by metis
  qed
qed

section \<open>What merging leaves alone\<close>

lemma numbered_Atoi: "numbered n nm \<Longrightarrow> n \<le> 2 ^ 63 \<Longrightarrow> Atoi nm = Some i \<Longrightarrow> i < n"
  by (auto simp: numbered_def Atoi_sprintf06d)

lemma mergeParts_frame:
  assumes inv: "partition_inv (w_fs w) p D" and orph: "orphans_ok (w_fs w) p" and room: "p_nextID p < 2 ^ 63 - 1"
    and nms: "set nms \<subseteq> set (p_parts p)" and run: "mergeParts p nms w = (r, p', w')"
  shows "env_same w w' \<and> touches (p_dir p) (w_fs w) (w_fs w') \<and> orphans_ok (w_fs w') p' \<and>
    (\<forall>e. r = Inl e \<longrightarrow> \<not> is_panic e) \<and> p_nextID p' \<le> p_nextID p + 1"
proof -
  let ?nm = "sprintf06d (p_nextID p)" and ?p1 = "p\<lparr>p_nextID := p_nextID p + 1\<rparr>"
  have id: "0 < p_nextID p" using inv by (simp add: partition_inv_def)
  then have gi: "goint (p_nextID p + 1) = p_nextID p + 1" using room by (intro goint_id) simp_all
  have d: "dirs_to (w_fs w) (parts_dir (p_dir p))" using inv by (simp add: partition_inv_def)
  have "\<forall>nm \<in> set nms. holds_part (w_fs w) (p_dir p) nm (D nm)"
    using inv nms by (auto simp: partition_inv_def)
  note y = yieldsD[OF yields_read_merged[OF this]]
  obtain r1 w1 where rd: "read_merged (p_dir p) nms w = (r1, w1)" by fastforce
  note y1 = y[OF rd]
  show ?thesis
  proof (cases r1)
    case (Inl e)
    then have "r = Inl e" "p' = p" "w' = w1" using run rd by (simp_all add: mergeParts_def)
    then show ?thesis using y1 Inl orph by auto
  next
    case (Inr merged)
    obtain r2 w2 where pub: "publish_part (p_dir p) ?nm merged tierBig w1 = (r2, w2)" by fastforce
    have d1: "dirs_to (w_fs w1) (parts_dir (p_dir p))" using d y1(1) by simp
    note t2 = publish_touches[OF pub d1, unfolded y1(1)]
    have orph2: "orphans_ok (w_fs w2) ?p1"
      by (rule orphans_published[OF orph id room]) (use t2(4) in auto)
    have env2: "env_same w w2" using y1(2) t2(2) by (rule env_same_trans)
    show ?thesis
    proof (cases r2)
      case (Inl e)
      then have "r = Inl e" "p' = ?p1" "w' = w2"
        using run rd \<open>r1 = Inr merged\<close> pub gi by (simp_all add: mergeParts_def Let_def)
      then show ?thesis using t2 env2 orph2 no_panicD[OF no_panic_publish pub[unfolded Inl]] by auto
    next
      case (Inr u)
      let ?kept = "kept_parts (p_parts p) nms ?nm"
      obtain r3 w3 where save: "saveManifest (manifest_path (p_dir p)) ?kept w2 = (r3, w3)" by fastforce
      note t3 = save_touches[OF save t2(3)]
      have t23: "touches (p_dir p) (w_fs w) (w_fs w3)" using t2(1) t3(1) by (rule touches_trans)
      have env3: "env_same w w3" using env2 t3(2) by (rule env_same_trans)
      have orph3: "orphans_ok (w_fs w3) ?p1" using orph2 t3(4) by (simp add: orphans_ok_def)
      show ?thesis
      proof (cases r3)
        case (Inl e)
        then have "r = Inl e" "p' = ?p1" "w' = w3"
          using run rd \<open>r1 = Inr merged\<close> pub \<open>r2 = Inr u\<close> save gi by (simp_all add: mergeParts_def Let_def)
        then show ?thesis using t23 env3 orph3 no_panicD[OF no_panic_saveManifest save[unfolded Inl]] by auto
      next
        case (Inr v)
        obtain r4 w4 where rm: "io_each (\<lambda>n. io_ignore (removeAll (part_dir (p_dir p) n))) nms w3 = (r4, w4)"
          by fastforce
        have e: "r = Inr ()" "p' = ?p1\<lparr>p_parts := ?kept\<rparr>" "w' = w4"
          using run rd \<open>r1 = Inr merged\<close> pub \<open>r2 = Inr u\<close> save Inr gi rm by (simp_all add: mergeParts_def Let_def)
        note c = confined_remove_parts[of "p_dir p" nms]
        have "touches (p_dir p) (w_fs w3) (w_fs w4)"
          by (rule confined_touches[OF c rm t3(3)]) (auto intro: below_partition)
        moreover have "orphans_ok (w_fs w4) p'"
          unfolding orphans_ok_def
        proof (intro allI impI)
          fix x i assume x: "lookup (w_fs w4) (part_dir (p_dir p') x) \<noteq> None" "Atoi x = Some i"
          show "i < p_nextID p'"
          proof (cases "x \<in> set nms")
            case True
            then have "numbered (p_nextID p) x" using nms inv by (auto simp: partition_inv_def)
            from numbered_Atoi[OF this _ x(2)] room show ?thesis by (simp add: e)
          next
            case False
            then have "lookup (w_fs w4) (part_dir (p_dir p) x) = lookup (w_fs w3) (part_dir (p_dir p) x)"
              by (intro confinedD(2)[OF c rm t3(3)]) auto
            then show ?thesis using orph3 x by (simp add: orphans_ok_def e)
          qed
        qed
        ultimately show ?thesis
          using e t23 env_same_trans[OF env3 confined_env[OF c rm]] by (auto intro: touches_trans)
      qed
    qed
  qed
qed

lemma compactPartition_frame:
  assumes inv: "partition_inv (w_fs w) p D" and orph: "orphans_ok (w_fs w) p" and room: "p_nextID p < 2 ^ 63 - 1"
    and run: "compactPartition p minParts w = (r, p', w')"
  shows "env_same w w'" and "touches (p_dir p) (w_fs w) (w_fs w')" and "orphans_ok (w_fs w') p'"
    and "r = Inl e \<Longrightarrow> \<not> is_panic e" and "p_nextID p' \<le> p_nextID p + 1"
proof -
  obtain r1 w1 where sm: "smallParts p w = (r1, w1)" by fastforce
  note y = yieldsD[OF yields_smallParts[OF inv] sm]
  have "env_same w w' \<and> touches (p_dir p) (w_fs w) (w_fs w') \<and> orphans_ok (w_fs w') p' \<and>
    (\<forall>e. r = Inl e \<longrightarrow> \<not> is_panic e) \<and> p_nextID p' \<le> p_nextID p + 1"
  proof (cases r1)
    case (Inl e)
    then have "r = Inl e" "p' = p" "w' = w1" using run sm by (simp_all add: compactPartition_def)
    then show ?thesis using y Inl orph by auto
  next
    case (Inr small)
    then have sub: "set small \<subseteq> set (p_parts p)" using y(3) by auto
    show ?thesis
    proof (cases "int (length small) < minParts")
      case True
      then have "r = Inr ()" "p' = p" "w' = w1" using run sm Inr by (simp_all add: compactPartition_def)
      then show ?thesis using y orph by auto
    next
      case False
      then have m: "mergeParts p small w1 = (r, p', w')" using run sm Inr by (simp add: compactPartition_def)
      have "partition_inv (w_fs w1) p D" "orphans_ok (w_fs w1) p" using inv orph y(1) by simp_all
      from mergeParts_frame[OF this room sub m] y(1,2) show ?thesis by (auto intro: env_same_trans)
    qed
  qed
  then show "env_same w w'" and "touches (p_dir p) (w_fs w) (w_fs w')" and "orphans_ok (w_fs w') p'"
    and "r = Inl e \<Longrightarrow> \<not> is_panic e" and "p_nextID p' \<le> p_nextID p + 1" by blast+
qed

end
