(* ===== verification/IndexFiles.thy ===== *)
theory IndexFiles
  imports IndexDB FileLogic
begin

text \<open>
  The directories of index segments, the file operations of \<open>storage/indexdb.go\<close>: listing with
  removal of leftovers, numbering, publication of a segment, replay. The records of a directory
  are described by a map \<open>S\<close> from segment numbers to record lists.
\<close>

section \<open>Operations\<close>

text \<open>The order of removals and selections in one pass over the entries makes no difference.\<close>

definition listIndexSegments :: "path \<Rightarrow> ('j, string list) io" where
  "listIndexSegments dir = (\<lambda>w.
     case readDir dir w of
       (Inl e, w') \<Rightarrow> (if e = ErrNotExist then Inr [] else Inl e, w')
     | (Inr entries, w') \<Rightarrow>
         io_bind (io_each (\<lambda>nm. io_ignore (remove (dir @ [nm]))) (segment_tmps entries)) (\<lambda>_.
           io_return (segment_names entries)) w')"

definition nextIndexSegmentSeq :: "path \<Rightarrow> ('j, int) io" where
  "nextIndexSegmentSeq dir = io_bind (listIndexSegments dir) (\<lambda>nms. io_lift (seq_after nms))"

text \<open>The temporary file: written through the buffer, synced, closed; an error closes it too.\<close>

definition write_segment :: "path \<Rightarrow> bytes \<Rightarrow> ('j, unit) io" where
  "write_segment tmp data =
     io_bind (createFile tmp) (\<lambda>_.
     io_bind (io_on_error (appendFile tmp data) (closeFile tmp)) (\<lambda>_.
     io_bind (io_on_error (syncFile tmp) (closeFile tmp)) (\<lambda>_.
     closeFile tmp)))"

definition appendIndexSegment :: "path \<Rightarrow> (uint64, Label list) gomap \<Rightarrow> ('j, string) io" where
  "appendIndexSegment dir entries =
     (if entries = [] then io_return []
      else
        io_bind (mkdirAll dir) (\<lambda>_.
        io_bind (nextIndexSegmentSeq dir) (\<lambda>sq.
          (let name = indexSegmentName sq; final = dir @ [name]; tmp = dir @ [name @ ''.tmp''] in
           io_bind (write_segment tmp (segment_bytes entries)) (\<lambda>_.
           io_bind (rename tmp final) (\<lambda>_.
           io_return name))))))"

text \<open>
  \<open>readIndexSegment\<close> with the records it passes to the callback. A callback never fails, and the
  callers drop the registry when an error follows some records, so the list is enough. The text
  of a JSON document starts with a brace and not with the magic.
\<close>

definition readIndexSegment :: "path \<Rightarrow> ('j, (uint64 \<times> Label list) list) io" where
  "readIndexSegment p =
     io_bind (readFile p) (\<lambda>c.
       case c of Bytes data \<Rightarrow> io_lift (decode_segment data)
       | Json j \<Rightarrow> io_fail (ErrMsg ''bad magic''))"

text \<open>The loop over the segments of a directory that both registry loaders have.\<close>

definition replay_segments :: "('r \<Rightarrow> uint64 \<times> Label list \<Rightarrow> 'r) \<Rightarrow> path \<Rightarrow> 'r \<Rightarrow> ('j, 'r) io" where
  "replay_segments f dir r =
     io_bind (listIndexSegments dir) (\<lambda>nms.
       io_fold (\<lambda>r nm. io_bind (readIndexSegment (dir @ [nm])) (\<lambda>recs. io_return (foldl f r recs)))
         r nms)"

section \<open>What a directory of segments holds\<close>

definition seg_dir :: "'j fs \<Rightarrow> path \<Rightarrow> (int \<rightharpoonup> (uint64 \<times> Label list) list) \<Rightarrow> bool" where
  "seg_dir fs dir S \<longleftrightarrow>
     (\<forall>q c. prefix q dir \<longrightarrow> lookup fs q \<noteq> Some (File c)) \<and>
     (S \<noteq> Map.empty \<longrightarrow> dirs_to fs dir) \<and>
     (\<forall>n \<in> dom S. 0 < n \<and> n < 10 ^ 6) \<and>
     (\<forall>nm. lookup fs (dir @ [nm]) \<noteq> Some Dir) \<and>
     (\<forall>nm c. Ext nm = ''.seg'' \<longrightarrow> lookup fs (dir @ [nm]) = Some (File c) \<longrightarrow>
        (\<exists>n recs data. nm = indexSegmentName n \<and> S n = Some recs \<and> c = Bytes data \<and>
           decode_segment data = Inr recs)) \<and>
     (\<forall>n \<in> dom S. lookup fs (dir @ [indexSegmentName n]) \<noteq> None)"

text \<open>All records of a directory.\<close>

definition seg_records :: "(int \<rightharpoonup> (uint64 \<times> Label list) list) \<Rightarrow> (uint64 \<times> Label list) set" where
  "seg_records S = (\<Union>recs \<in> ran S. set recs)"

lemma Ext_segment [simp]: "Ext (indexSegmentName n) = ''.seg''"
  by (simp add: Ext_def indexSegmentName_def)

lemma Ext_tmp [simp]: "Ext (nm @ ''.tmp'') = ''.tmp''"
  by (simp add: Ext_def)

lemma indexSegmentName_inj:
  "0 < m \<Longrightarrow> m < 10 ^ 6 \<Longrightarrow> 0 < n \<Longrightarrow> n < 10 ^ 6 \<Longrightarrow> indexSegmentName m = indexSegmentName n \<longleftrightarrow> m = n"
  by (simp add: indexSegmentName_def sprintf06d_inj)

lemma seg_dirD:
  assumes "seg_dir fs dir S"
  shows "prefix q dir \<Longrightarrow> lookup fs q \<noteq> Some (File c)"
    and "lookup fs dir = None \<Longrightarrow> S = Map.empty"
    and "S n = Some recs \<Longrightarrow> 0 < n \<and> n < 10 ^ 6"
    and "lookup fs (dir @ [nm]) \<noteq> Some Dir"
    and "Ext nm = ''.seg'' \<Longrightarrow> lookup fs (dir @ [nm]) = Some (File c) \<Longrightarrow>
        \<exists>n recs data. nm = indexSegmentName n \<and> S n = Some recs \<and> c = Bytes data \<and>
           decode_segment data = Inr recs"
    and "S n = Some recs \<Longrightarrow> lookup fs (dir @ [indexSegmentName n]) \<noteq> None"
    and "S \<noteq> Map.empty \<Longrightarrow> dirs_to fs dir"
proof -
  show "lookup fs dir = None \<Longrightarrow> S = Map.empty"
    using assms dirs_to_self[of fs dir] unfolding seg_dir_def by (metis option.distinct(1))
qed (use assms in \<open>unfold seg_dir_def, blast+\<close>)

lemma seg_dir_lookup:
  assumes "seg_dir fs dir S" and "S n = Some recs"
  shows "\<exists>data. lookup fs (dir @ [indexSegmentName n]) = Some (File (Bytes data)) \<and> decode_segment data = Inr recs"
proof -
  note D = seg_dirD[OF assms(1)]
  obtain nd where nd: "lookup fs (dir @ [indexSegmentName n]) = Some nd" using D(6)[OF assms(2)] by blast
  then obtain c where c: "nd = File c" using D(4) by (cases nd) auto
  obtain m recs' data where m: "indexSegmentName n = indexSegmentName m" "S m = Some recs'" "c = Bytes data"
    "decode_segment data = Inr recs'"
    using D(5)[OF Ext_segment] nd c by blast
  have "m = n" using indexSegmentName_inj[of n m] m(1) D(3)[OF assms(2)] D(3)[OF m(2)] by simp
  then show ?thesis using m assms(2) nd c by auto
qed

text \<open>Leftovers may come and go.\<close>

lemma seg_dir_frame:
  assumes "seg_dir fs dir S"
    and "\<And>q. prefix q dir \<Longrightarrow> lookup fs' q = lookup fs q \<or> (lookup fs q = None \<and> lookup fs' q = Some Dir)"
    and "\<And>nm. Ext nm \<noteq> ''.tmp'' \<Longrightarrow> lookup fs' (dir @ [nm]) = lookup fs (dir @ [nm])"
    and "\<And>nm. Ext nm = ''.tmp'' \<Longrightarrow> lookup fs' (dir @ [nm]) \<noteq> Some Dir"
  shows "seg_dir fs' dir S"
proof -
  have nd: "lookup fs' (dir @ [nm]) \<noteq> Some Dir" for nm
    using assms(1,3,4) by (cases "Ext nm = ''.tmp''") (auto simp: seg_dir_def)
  have sg: "lookup fs' (dir @ [nm]) = lookup fs (dir @ [nm])" if "Ext nm = ''.seg''" for nm
    using assms(3)[of nm] that by simp
  have up: "lookup fs' q \<noteq> Some (File c)" if "prefix q dir" for q c
    using assms(2)[OF that] seg_dirD(1)[OF assms(1) that] by auto
  have "dirs_to fs dir \<Longrightarrow> dirs_to fs' dir" using assms(2) by (auto simp: dirs_to_def)
  then show ?thesis
    using assms(1) nd sg up by (simp add: seg_dir_def)
qed

section \<open>Listing\<close>

lemma remove_effect:
  assumes "remove p w = (r, w')"
  shows "env_same w w'" and "lookup (w_fs w') q = lookup (w_fs w) q \<or> (q = p \<and> lookup (w_fs w') q = None)"
  using assms
  by (auto simp: remove_def sys_run env_same_def lookup_delete split: option.splits node.splits if_splits)

lemma remove_each_effect:
  assumes "io_each (\<lambda>nm. io_ignore (remove (dir @ [nm]))) nms w = (r, w')"
  shows "r = Inr () \<and> env_same w w' \<and>
    (\<forall>q. lookup (w_fs w') q = lookup (w_fs w) q \<or> ((\<exists>nm \<in> set nms. q = dir @ [nm]) \<and> lookup (w_fs w') q = None))"
  using assms
proof (induction nms arbitrary: w)
  case Nil
  then show ?case by (simp add: io_run)
next
  case (Cons nm nms)
  obtain r1 w1 where rm: "remove (dir @ [nm]) w = (r1, w1)" by fastforce
  have run: "io_each (\<lambda>nm. io_ignore (remove (dir @ [nm]))) nms w1 = (r, w')"
    using Cons.prems rm by (simp add: io_bind_def io_ignore_def)
  note IH = Cons.IH[OF run] and e = remove_effect[OF rm]
  have "lookup (w_fs w') q = lookup (w_fs w) q \<or>
      ((\<exists>x \<in> set (nm # nms). q = dir @ [x]) \<and> lookup (w_fs w') q = None)" for q
    using IH e(2)[of q] by (metis list.set_intros)
  then show ?case using IH e(1) by (auto intro: env_same_trans)
qed

lemma set_segment_names:
  assumes "seg_dir fs dir S"
  shows "set (segment_names (children fs dir)) = indexSegmentName ` dom S"
proof -
  note D = seg_dirD[OF assms]
  have "nm \<in> indexSegmentName ` dom S" if nm: "(nm, False) \<in> set (children fs dir)" "Ext nm = ''.seg''" for nm
  proof -
    obtain c where "lookup fs (dir @ [nm]) = Some (File c)"
      using nm(1) by (auto simp: in_children) (metis node.exhaust)
    then show ?thesis using D(5)[OF nm(2)] by blast
  qed
  moreover have "(indexSegmentName n, False) \<in> set (children fs dir)" if "S n = Some recs" for n recs
    using seg_dir_lookup[OF assms that] by (auto simp: in_children)
  ultimately show ?thesis by (force simp: segment_names_def)
qed

lemma sorted_segment_names [simp]: "sorted (segment_names es)"
  by (simp add: segment_names_def)

text \<open>Listing removes nothing but leftovers, and finds the segments unless a call fails.\<close>

lemma listIndexSegments_outcome:
  assumes sd: "seg_dir (w_fs w) dir S" and run: "listIndexSegments dir w = (r, w')"
  shows "env_same w w'" and "seg_dir (w_fs w') dir S"
    and "(\<exists>nms. r = Inr nms \<and> sorted nms \<and> set nms = indexSegmentName ` dom S) \<or> (r = Inl ErrIO \<and> \<not> healthy w)"
    and "lookup (w_fs w') q = lookup (w_fs w) q \<or>
      ((\<exists>nm. Ext nm = ''.tmp'' \<and> q = dir @ [nm]) \<and> lookup (w_fs w') q = None)"
proof -
  note D = seg_dirD[OF sd]
  obtain r1 w1 where rd: "readDir dir w = (r1, w1)" by fastforce
  note ro = reads_onlyD[OF reads_only_simps(5) rd]
  have all: "env_same w w' \<and> ((\<exists>nms. r = Inr nms \<and> sorted nms \<and> set nms = indexSegmentName ` dom S) \<or> (r = Inl ErrIO \<and> \<not> healthy w)) \<and>
    (\<forall>q. lookup (w_fs w') q = lookup (w_fs w) q \<or>
      ((\<exists>nm. Ext nm = ''.tmp'' \<and> q = dir @ [nm]) \<and> lookup (w_fs w') q = None))"
  proof (cases r1)
    case (Inl e)
    then have w': "w' = w1" and r: "r = (if e = ErrNotExist then Inr [] else Inl e)"
      using run rd by (simp_all add: listIndexSegments_def)
    have "lookup (w_fs w) dir = None \<or> lookup (w_fs w) dir = Some Dir"
      using D(1)[of dir] by (metis node.exhaust option.exhaust prefix_order.refl)
    moreover have "missing_err (w_fs w) dir = ErrNotExist"
      using D(1) by (auto simp: missing_err_def list_all_iff split: option.splits node.splits)
    ultimately have "(e = ErrNotExist \<and> S = Map.empty) \<or> (e = ErrIO \<and> \<not> healthy w)"
      using rd Inl D(2) by (auto simp: readDir_def sys_run healthy_def split: if_splits)
    then show ?thesis using ro w' r by auto
  next
    case (Inr es)
    have es: "es = children (w_fs w) dir"
      using rd Inr by (auto simp: readDir_def sys_run split: if_splits option.splits node.splits)
    obtain r2 w2 where rm: "io_each (\<lambda>nm. io_ignore (remove (dir @ [nm]))) (segment_tmps es) w1 = (r2, w2)"
      by fastforce
    note eff = remove_each_effect[OF rm]
    have "r = Inr (segment_names es)" "w' = w2"
      using run rd Inr rm eff by (simp_all add: listIndexSegments_def io_bind_def io_return_def)
    moreover have "Ext nm = ''.tmp''" if "nm \<in> set (segment_tmps es)" for nm
      using that by (auto simp: segment_tmps_def split: if_splits)
    moreover have "sorted (segment_names es) \<and> set (segment_names es) = indexSegmentName ` dom S"
      using set_segment_names[OF sd] es by simp
    ultimately show ?thesis using eff ro by (auto intro: env_same_trans)
  qed
  then show "env_same w w'"
    and "(\<exists>nms. r = Inr nms \<and> sorted nms \<and> set nms = indexSegmentName ` dom S) \<or> (r = Inl ErrIO \<and> \<not> healthy w)"
    and "lookup (w_fs w') q = lookup (w_fs w) q \<or>
      ((\<exists>nm. Ext nm = ''.tmp'' \<and> q = dir @ [nm]) \<and> lookup (w_fs w') q = None)" by blast+
  show "seg_dir (w_fs w') dir S"
  proof (rule seg_dir_frame[OF sd])
    show "prefix q dir \<Longrightarrow> lookup (w_fs w') q = lookup (w_fs w) q \<or>
        (lookup (w_fs w) q = None \<and> lookup (w_fs w') q = Some Dir)" for q
      using all by (auto dest: prefix_length_le)
    show "Ext nm \<noteq> ''.tmp'' \<Longrightarrow> lookup (w_fs w') (dir @ [nm]) = lookup (w_fs w) (dir @ [nm])" for nm
      using all by auto
    show "lookup (w_fs w') (dir @ [nm]) \<noteq> Some Dir" for nm
      using all D(4)[of nm] by (metis option.distinct(1))
  qed
qed

section \<open>Publishing a segment\<close>

lemma seg_dir_finite: "seg_dir fs dir S \<Longrightarrow> finite (dom S)"
  by (rule finite_subset[of _ "{0<..<10 ^ 6}"]) (auto simp: seg_dir_def)

lemma nextIndexSegmentSeq_outcome:
  assumes sd: "seg_dir (w_fs w) dir S" and run: "nextIndexSegmentSeq dir w = (r, w')"
  shows "(\<exists>sq. r = Inr sq \<and> 0 < sq \<and> S sq = None \<and> (\<forall>b > 0. (\<forall>n \<in> dom S. n < b) \<longrightarrow> sq \<le> b)) \<or>
    (r = Inl ErrIO \<and> \<not> healthy w)"
    and "listIndexSegments dir w = (r1, w1) \<Longrightarrow> w' = w1"
proof -
  obtain r1 w1 where l: "listIndexSegments dir w = (r1, w1)" by fastforce
  note out = listIndexSegments_outcome[OF sd l]
  have r: "r = rbind r1 seq_after" "w' = w1"
    using run l by (auto simp: nextIndexSegmentSeq_def io_bind_def io_lift_def rbind_def split: sum.splits)
  then show "listIndexSegments dir w = (r1, w1) \<Longrightarrow> w' = w1" for r1 w1 using l by simp
  show "(\<exists>sq. r = Inr sq \<and> 0 < sq \<and> S sq = None \<and> (\<forall>b > 0. (\<forall>n \<in> dom S. n < b) \<longrightarrow> sq \<le> b)) \<or>
      (r = Inl ErrIO \<and> \<not> healthy w)"
    using out(3)
  proof (elim disjE exE conjE)
    fix nms assume nms: "r1 = Inr nms" "sorted nms" "set nms = indexSegmentName ` dom S"
    show ?thesis
    proof (cases "dom S = {}")
      case True
      then show ?thesis using nms r by (simp add: seq_after_def)
    next
      case False
      have "seq_after nms = Inr (Max (dom S) + 1)"
        using seg_dirD(3)[OF sd] by (intro seq_after_Max[OF nms(2,3) False seg_dir_finite[OF sd]]) auto
      moreover have m: "Max (dom S) \<in> dom S" using False seg_dir_finite[OF sd] by simp
      moreover have "0 < Max (dom S)" using m seg_dirD(3)[OF sd] by auto
      moreover have "Max (dom S) + 1 \<notin> dom S"
        using Max_ge[OF seg_dir_finite[OF sd], of "Max (dom S) + 1"] by auto
      moreover have "Max (dom S) + 1 \<le> b" if "\<forall>n \<in> dom S. n < b" for b
        using m that by (simp add: add1_zle_eq)
      ultimately show ?thesis using nms(1) r by (simp add: domIff)
    qed
  qed (simp add: r)
qed

lemma write_segment_outcome:
  assumes run: "write_segment p data w = (r, w')" and p: "p \<noteq> []"
    and dir: "lookup (w_fs w) (butlast p) = Some Dir" and nd: "lookup (w_fs w) p \<noteq> Some Dir"
  shows "env_same w w' \<and> (\<forall>q. q \<noteq> p \<longrightarrow> lookup (w_fs w') q = lookup (w_fs w) q) \<and>
    lookup (w_fs w') p \<noteq> Some Dir \<and>
    ((r = Inr () \<and> lookup (w_fs w') p = Some (File (Bytes data))) \<or> (r = Inl ErrIO \<and> \<not> healthy w))"
proof (cases "w_fault w (w_clock w) = NoFault")
  case False
  then have "(r, w') = (Inl ErrIO, ticked w (w_fs w))"
    using run write_check_None[THEN iffD2, of p "w_fs w"] p dir nd
    by (auto simp: write_segment_def io_bind_def createFile_def sys_run ticked_def)
  then show ?thesis using False nd by (auto simp: healthy_now)
next
  case True
  let ?w1 = "ticked w (AList.update p (File (Bytes [])) (w_fs w))"
  have c: "createFile p w = (Inr (), ?w1)"
    using True write_check_None[THEN iffD2, of p "w_fs w"] p dir nd
    by (simp add: createFile_def sys_run ticked_def)
  have run1: "io_bind (io_on_error (appendFile p data) (closeFile p)) (\<lambda>_.
     io_bind (io_on_error (syncFile p) (closeFile p)) (\<lambda>_. closeFile p)) ?w1 = (r, w')"
    using run c by (simp add: write_segment_def io_bind_def)
  have h: "healthy w \<Longrightarrow> w_fault w n = NoFault" if "n \<ge> w_clock w" for n
    using that by (simp add: healthy_def)
  show ?thesis
    using run1 p h[of "Suc (w_clock w)"] h[of "Suc (Suc (w_clock w))"] h[of "Suc (Suc (Suc (w_clock w)))"]
    by (auto simp: io_bind_def io_on_error_def appendFile_def syncFile_def closeFile_def sys_run is_panic_def
        env_same_def healthy_def split: fault.splits if_splits)
qed

lemma dirs_to_frame:
  assumes "dirs_to fs dir" and "\<And>q. \<not> strict_prefix dir q \<Longrightarrow> lookup fs' q = lookup fs q"
  shows "dirs_to fs' dir"
proof -
  have "\<not> strict_prefix dir q" if "prefix q dir" for q
    using that by (auto simp: strict_prefix_def dest: prefix_order.antisym)
  then show ?thesis using assms by (simp add: dirs_to_def)
qed

lemma seg_dir_extend:
  assumes "seg_dir fs dir S" and "dirs_to fs dir" and n: "0 < n" "n < 10 ^ 6"
    and data: "decode_segment data = Inr recs"
    and new: "\<And>nm. lookup fs' (dir @ [nm]) =
      (if nm = indexSegmentName n then Some (File (Bytes data))
       else if nm = indexSegmentName n @ ''.tmp'' then None else lookup fs (dir @ [nm]))"
    and up: "\<And>q. prefix q dir \<Longrightarrow> lookup fs' q = lookup fs q"
  shows "seg_dir fs' dir (S(n \<mapsto> recs))"
proof -
  note D = seg_dirD[OF assms(1)]
  let ?S = "S(n \<mapsto> recs)"
  have sg: "\<exists>m rs d. nm = indexSegmentName m \<and> ?S m = Some rs \<and> c = Bytes d \<and> decode_segment d = Inr rs"
    if nm: "Ext nm = ''.seg''" "lookup fs' (dir @ [nm]) = Some (File c)" for nm c
  proof (cases "nm = indexSegmentName n")
    case True
    then show ?thesis using nm new[of nm] data by auto
  next
    case False
    have "lookup fs (dir @ [nm]) = Some (File c)" using nm new[of nm] False by (auto split: if_splits)
    from D(5)[OF nm(1) this] obtain m rs d where m: "nm = indexSegmentName m" "S m = Some rs" "c = Bytes d"
      "decode_segment d = Inr rs" by blast
    then show ?thesis using False by (intro exI[of _ m]) auto
  qed
  have ent: "lookup fs' (dir @ [indexSegmentName m]) \<noteq> None" if "?S m = Some rs" for m rs
  proof -
    have "Ext (indexSegmentName n @ ''.tmp'') \<noteq> Ext (indexSegmentName m)" by simp
    then have "indexSegmentName m \<noteq> indexSegmentName n @ ''.tmp''" by metis
    then show ?thesis using that new[of "indexSegmentName m"] D(6)[of m] by (auto split: if_splits)
  qed
  show ?thesis
    unfolding seg_dir_def
  proof (intro conjI allI impI ballI)
    show "prefix q dir \<Longrightarrow> lookup fs' q \<noteq> Some (File c)" for q c using D(1)[of q c] up by simp
    show "dirs_to fs' dir" using assms(2) up by (simp add: dirs_to_def)
    show "m \<in> dom ?S \<Longrightarrow> 0 < m" "m \<in> dom ?S \<Longrightarrow> m < 10 ^ 6" for m
      using n D(3)[of m] by (auto split: if_splits)
    show "lookup fs' (dir @ [nm]) \<noteq> Some Dir" for nm using new[of nm] D(4)[of nm] by (simp split: if_splits)
    show "m \<in> dom ?S \<Longrightarrow> lookup fs' (dir @ [indexSegmentName m]) \<noteq> None" for m
      using ent[of m] by (cases "m = n"; cases "S m") auto
  qed (use sg in blast)
qed

definition seg_room :: "(int \<rightharpoonup> 'a) \<Rightarrow> bool" where
  "seg_room S \<longleftrightarrow> (\<forall>n \<in> dom S. n < 999999)"

text \<open>The last two steps, in a directory that exists.\<close>

lemma publish_segment_outcome:
  assumes sd: "seg_dir (w_fs w) dir S" and dt: "dirs_to (w_fs w) dir" and ne: "dir \<noteq> []"
    and sq: "0 < sq" "sq < 10 ^ 6" "S sq = None" and data: "decode_segment data = Inr recs"
    and run: "io_bind (write_segment (dir @ [indexSegmentName sq @ ''.tmp'']) data) (\<lambda>_.
       io_bind (rename (dir @ [indexSegmentName sq @ ''.tmp'']) (dir @ [indexSegmentName sq])) (\<lambda>_.
       io_return (indexSegmentName sq))) w = (r, w')"
  shows "env_same w w' \<and> (\<forall>q. \<not> strict_prefix dir q \<longrightarrow> lookup (w_fs w') q = lookup (w_fs w) q) \<and>
    ((r = Inl ErrIO \<and> \<not> healthy w \<and> seg_dir (w_fs w') dir S) \<or>
     (r = Inr (indexSegmentName sq) \<and> seg_dir (w_fs w') dir (S(sq \<mapsto> recs))))"
proof -
  let ?nm = "indexSegmentName sq"
  let ?tmp = "dir @ [?nm @ ''.tmp'']" and ?final = "dir @ [?nm]"
  note D = seg_dirD[OF sd]
  have d: "lookup (w_fs w) dir = Some Dir" using dt by (rule dirs_to_self)
  have nofinal: "lookup (w_fs w) ?final = None"
  proof (rule ccontr)
    assume "lookup (w_fs w) ?final \<noteq> None"
    then obtain c where "lookup (w_fs w) ?final = Some (File c)" using D(4)[of ?nm] by (metis node.exhaust not_None_eq)
    then obtain n rs where n: "?nm = indexSegmentName n" "S n = Some rs" using D(5)[OF Ext_segment] by blast
    then have "n = sq" using indexSegmentName_inj[of sq n] sq(1,2) D(3)[OF n(2)] by simp
    with n(2) sq(3) show False by simp
  qed
  obtain r1 w1 where ws: "write_segment ?tmp data w = (r1, w1)" by fastforce
  note o1 = write_segment_outcome[OF ws, simplified, OF d D(4)]
  have sd1: "seg_dir (w_fs w1) dir S"
  proof (rule seg_dir_frame[OF sd])
    show "prefix q dir \<Longrightarrow> lookup (w_fs w1) q = lookup (w_fs w) q \<or>
        (lookup (w_fs w) q = None \<and> lookup (w_fs w1) q = Some Dir)" for q
    proof -
      assume "prefix q dir"
      then have "q \<noteq> ?tmp" by (auto dest: prefix_length_le)
      then show ?thesis using o1 by simp
    qed
    show "Ext nm \<noteq> ''.tmp'' \<Longrightarrow> lookup (w_fs w1) (dir @ [nm]) = lookup (w_fs w) (dir @ [nm])" for nm
    proof -
      assume "Ext nm \<noteq> ''.tmp''"
      then have "nm \<noteq> ?nm @ ''.tmp''" by (metis Ext_tmp)
      then show ?thesis using o1 by simp
    qed
    show "lookup (w_fs w1) (dir @ [nm]) \<noteq> Some Dir" for nm
      using o1 D(4)[of nm] by (cases "nm = ?nm @ ''.tmp''") auto
  qed
  have sp: "strict_prefix dir q" if "prefix ?tmp q \<or> prefix ?final q" for q
    using that by (auto simp: strict_prefix_def prefix_def)
  have frame1: "lookup (w_fs w1) q = lookup (w_fs w) q" if "\<not> strict_prefix dir q" for q
  proof -
    have "q \<noteq> ?tmp" using sp[of q] that prefix_order.refl by blast
    then show ?thesis using o1 by blast
  qed
  have dt1: "dirs_to (w_fs w1) dir"
    using dirs_to_frame[OF dt frame1] .
  show ?thesis
  proof (cases r1)
    case (Inl e)
    then have "r = Inl e" "w' = w1" using run ws by (simp_all add: io_bind_def)
    then show ?thesis using Inl o1 sd1 frame1 by auto
  next
    case (Inr u)
    obtain r2 w2 where rn: "rename ?tmp ?final w1 = (r2, w2)" by fastforce
    have r: "r = (case r2 of Inl e \<Rightarrow> Inl e | Inr u \<Rightarrow> Inr ?nm)" "w' = w2"
      using run ws Inr rn by (auto simp: io_bind_def io_return_def split: sum.splits)
    have tmp: "lookup (w_fs w1) ?tmp = Some (File (Bytes data))" using o1 Inr by auto
    have fin: "lookup (w_fs w1) ?final = None" "lookup (w_fs w1) dir = Some Dir"
      using o1 nofinal d ne by (auto simp del: append_is_Nil_conv)
    have rc: "(r2 = Inl ErrIO \<and> \<not> healthy w1 \<and> w_fs w2 = w_fs w1) \<or>
        (r2 = Inr () \<and> w_fs w2 = subtree_move ?tmp ?final (w_fs w1))" and env2: "env_same w1 w2"
      using rn tmp fin by (auto simp: rename_def sys_run healthy_def env_same_def split: if_splits)
    have env: "env_same w w2" using o1 env2 by (auto intro: env_same_trans)
    from rc show ?thesis
    proof (elim disjE conjE)
      assume "r2 = Inl ErrIO" "\<not> healthy w1" "w_fs w2 = w_fs w1"
      moreover from this have "seg_dir (w_fs w2) dir S" using sd1 by simp
      ultimately show ?thesis using r env o1 frame1 healthy_env[of w w1] by auto
    next
      assume r2: "r2 = Inr ()" and fs2: "w_fs w2 = subtree_move ?tmp ?final (w_fs w1)"
      have lk: "lookup (w_fs w2) q = (if prefix ?final q then lookup (w_fs w1) (?tmp @ drop (length ?final) q)
          else if prefix ?tmp q then None else lookup (w_fs w1) q)" for q
        unfolding fs2 by (subst lookup_subtree_move) (simp_all split: option.splits)
      have frame: "lookup (w_fs w2) q = lookup (w_fs w1) q" if "\<not> strict_prefix dir q" for q
        using lk[of q] sp[of q] that by auto
      have "seg_dir (w_fs w2) dir (S(sq \<mapsto> recs))"
      proof (rule seg_dir_extend[OF sd1 dt1 sq(1,2) data])
        show "lookup (w_fs w2) (dir @ [nm]) = (if nm = ?nm then Some (File (Bytes data))
            else if nm = ?nm @ ''.tmp'' then None else lookup (w_fs w1) (dir @ [nm]))" for nm
          unfolding lk using tmp by simp
        show "prefix q dir \<Longrightarrow> lookup (w_fs w2) q = lookup (w_fs w1) q" for q
          by (rule frame) (auto simp: strict_prefix_def prefix_def)
      qed
      then show ?thesis using r r2 env frame frame1 by auto
    qed
  qed
qed

theorem appendIndexSegment_outcome:
  assumes sd: "seg_dir (w_fs w) dir S" and ne: "dir \<noteq> []" and room: "seg_room S"
    and ok: "list_all record_ok (sorted_entries entries)"
    and run: "appendIndexSegment dir entries w = (r, w')"
  shows "env_same w w'"
    and "lookup (w_fs w') q = lookup (w_fs w) q \<or> strict_prefix dir q \<or>
      (prefix q dir \<and> lookup (w_fs w) q = None \<and> lookup (w_fs w') q = Some Dir)"
    and "(r = Inl ErrIO \<and> \<not> healthy w \<and> seg_dir (w_fs w') dir S) \<or>
      (\<exists>nm. r = Inr nm \<and> (if entries = [] then seg_dir (w_fs w') dir S
         else \<exists>n. S n = None \<and> seg_dir (w_fs w') dir (S(n \<mapsto> sorted_entries entries))))"
proof -
  have "env_same w w' \<and>
    (\<forall>q. lookup (w_fs w') q = lookup (w_fs w) q \<or> strict_prefix dir q \<or>
      (prefix q dir \<and> lookup (w_fs w) q = None \<and> lookup (w_fs w') q = Some Dir)) \<and>
    ((r = Inl ErrIO \<and> \<not> healthy w \<and> seg_dir (w_fs w') dir S) \<or>
      (\<exists>nm. r = Inr nm \<and> (if entries = [] then seg_dir (w_fs w') dir S
         else \<exists>n. S n = None \<and> seg_dir (w_fs w') dir (S(n \<mapsto> sorted_entries entries)))))"
  proof (cases "entries = []")
    case True
    then show ?thesis using run sd by (auto simp: appendIndexSegment_def io_return_def)
  next
    case ne_entries: False
    obtain r1 w1 where mk: "mkdirAll dir w = (r1, w1)" by fastforce
    note m1 = mkdirAll_outcome[OF mk seg_dirD(1)[OF sd]]
    have fr1: "lookup (w_fs w1) q = lookup (w_fs w) q \<or>
        (prefix q dir \<and> lookup (w_fs w) q = None \<and> lookup (w_fs w1) q = Some Dir)" for q
      by (rule mkdirAll_effect[OF mk])
    have below: "lookup (w_fs w1) (dir @ [nm]) = lookup (w_fs w) (dir @ [nm])" for nm
      using fr1[of "dir @ [nm]"] by (auto dest: prefix_length_le)
    have sd1: "seg_dir (w_fs w1) dir S"
      by (rule seg_dir_frame[OF sd]) (use fr1 below seg_dirD(4)[OF sd] in auto)
    show ?thesis
    proof (cases r1)
      case (Inl e)
      then have "r = Inl e" "w' = w1"
        using run mk ne_entries by (simp_all add: appendIndexSegment_def io_bind_def)
      then show ?thesis using m1 Inl fr1 sd1 by auto
    next
      case (Inr u)
      have d1: "dirs_to (w_fs w1) dir" by (rule mkdirAll_Inr[OF mk[unfolded Inr]])
      obtain r2 w2 where nx: "nextIndexSegmentSeq dir w1 = (r2, w2)" by fastforce
      obtain r0 w0 where "listIndexSegments dir w1 = (r0, w0)" by fastforce
      with nextIndexSegmentSeq_outcome(2)[OF sd1 nx] have ls: "listIndexSegments dir w1 = (r0, w2)" by auto
      note l2 = listIndexSegments_outcome[OF sd1 ls] and n2 = nextIndexSegmentSeq_outcome(1)[OF sd1 nx]
      have fr2: "lookup (w_fs w2) q = lookup (w_fs w1) q" if "\<not> strict_prefix dir q" for q
        using l2(4)[of q] that by (auto simp: strict_prefix_def)
      have fr12: "lookup (w_fs w2) q = lookup (w_fs w) q \<or> strict_prefix dir q \<or>
          (prefix q dir \<and> lookup (w_fs w) q = None \<and> lookup (w_fs w2) q = Some Dir)" for q
        using fr1[of q] fr2[of q] by metis
      have run1: "(r, w') = (case (r2, w2) of (Inl e, w) \<Rightarrow> (Inl e, w) | (Inr sq, w) \<Rightarrow>
          (io_bind (write_segment (dir @ [indexSegmentName sq @ ''.tmp'']) (segment_bytes entries)) (\<lambda>_.
           io_bind (rename (dir @ [indexSegmentName sq @ ''.tmp'']) (dir @ [indexSegmentName sq])) (\<lambda>_.
           io_return (indexSegmentName sq)))) w)"
        using run ne_entries
        by (simp add: appendIndexSegment_def io_bind_run(1)[where m = "mkdirAll dir", OF mk[unfolded Inr]] Let_def)
          (simp add: io_bind_def[of "nextIndexSegmentSeq dir"] nx)
      show ?thesis
        using n2
      proof (elim disjE exE conjE)
        assume "r2 = Inl ErrIO" "\<not> healthy w1"
        then show ?thesis
          using run1 m1(1) l2(1,2) fr12 healthy_env[of w w1] by (auto intro: env_same_trans)
      next
        fix sq assume r2: "r2 = Inr sq" and sq: "0 < sq" "S sq = None" "\<forall>b > 0. (\<forall>n \<in> dom S. n < b) \<longrightarrow> sq \<le> b"
        have sq6: "sq < 10 ^ 6" using sq(3) room by (auto simp: seg_room_def dest: spec[of _ 999999])
        have d2: "dirs_to (w_fs w2) dir" by (rule dirs_to_frame[OF d1 fr2])
        have dec: "decode_segment (segment_bytes entries) = Inr (sorted_entries entries)"
          by (rule decode_segment_bytes[OF ok])
        note p = publish_segment_outcome[OF l2(2) d2 ne sq(1) sq6 sq(2) dec run1[unfolded r2 prod.case sum.case, symmetric]]
        have "lookup (w_fs w') q = lookup (w_fs w) q \<or> strict_prefix dir q \<or>
            (prefix q dir \<and> lookup (w_fs w) q = None \<and> lookup (w_fs w') q = Some Dir)" for q
          using p fr12[of q] by auto
        moreover have env: "env_same w w2" using m1(1) l2(1) by (rule env_same_trans)
        moreover have "env_same w w'" using env p by (auto intro: env_same_trans)
        ultimately show ?thesis using p sq(2) ne_entries healthy_env[of w w2] by auto
      qed
    qed
  qed
  then show "env_same w w'"
    and "lookup (w_fs w') q = lookup (w_fs w) q \<or> strict_prefix dir q \<or>
      (prefix q dir \<and> lookup (w_fs w) q = None \<and> lookup (w_fs w') q = Some Dir)"
    and "(r = Inl ErrIO \<and> \<not> healthy w \<and> seg_dir (w_fs w') dir S) \<or>
      (\<exists>nm. r = Inr nm \<and> (if entries = [] then seg_dir (w_fs w') dir S
         else \<exists>n. S n = None \<and> seg_dir (w_fs w') dir (S(n \<mapsto> sorted_entries entries))))"
    by blast+
qed

section \<open>Replay\<close>

lemma yields_readIndexSegment:
  "seg_dir fs dir S \<Longrightarrow> S n = Some recs \<Longrightarrow>
   yields fs (readIndexSegment (dir @ [indexSegmentName n])) (\<lambda>r. r = Inr recs)"
  unfolding readIndexSegment_def
  using seg_dir_lookup[of fs dir S n recs]
  by (auto intro!: yields_bind_eq[OF yields_readFile] yields_lift)

lemma yields_replay_fold:
  assumes sd: "seg_dir fs dir S" and nms: "set nms = indexSegmentName ` dom S"
  shows "yields fs (io_fold (\<lambda>r nm. io_bind (readIndexSegment (dir @ [nm])) (\<lambda>recs. io_return (foldl f r recs))) r0 nms)
    (\<lambda>r. \<exists>recs. r = Inr (foldl f r0 recs) \<and> set recs = seg_records S)"
proof -
  define I where "I ys r \<longleftrightarrow> (\<exists>recs. r = foldl f r0 recs \<and>
    set recs = {x. \<exists>n rs. S n = Some rs \<and> indexSegmentName n \<in> set ys \<and> x \<in> set rs})" for ys r
  have "yields fs (io_fold (\<lambda>r nm. io_bind (readIndexSegment (dir @ [nm])) (\<lambda>recs. io_return (foldl f r recs))) r0 nms)
    (\<lambda>r. \<exists>s. r = Inr s \<and> I nms s)"
  proof (rule yields_fold)
    show "I [] r0" unfolding I_def by (rule exI[of _ "[]"]) auto
    fix ys nm zs r assume sp: "nms = ys @ nm # zs" and I: "I ys r"
    have "nm \<in> indexSegmentName ` dom S" using sp nms by auto
    then obtain n rs where n: "nm = indexSegmentName n" "S n = Some rs" by blast
    obtain recs where recs: "r = foldl f r0 recs"
      "set recs = {x. \<exists>n rs. S n = Some rs \<and> indexSegmentName n \<in> set ys \<and> x \<in> set rs}"
      using I by (auto simp: I_def)
    have same: "m = n" if "S m = Some rs'" "indexSegmentName m = indexSegmentName n" for m rs'
      using indexSegmentName_inj[of m n] that seg_dirD(3)[OF sd that(1)] seg_dirD(3)[OF sd n(2)] by simp
    have un: "set (recs @ rs) = {x. \<exists>n rs. S n = Some rs \<and> indexSegmentName n \<in> set (ys @ [nm]) \<and> x \<in> set rs}"
    proof (intro set_eqI iffI)
      fix x assume "x \<in> set (recs @ rs)"
      then show "x \<in> {x. \<exists>n rs. S n = Some rs \<and> indexSegmentName n \<in> set (ys @ [nm]) \<and> x \<in> set rs}"
        using recs(2) n by auto
    next
      fix x assume "x \<in> {x. \<exists>n rs. S n = Some rs \<and> indexSegmentName n \<in> set (ys @ [nm]) \<and> x \<in> set rs}"
      then obtain m rs' where m: "S m = Some rs'" "indexSegmentName m \<in> set ys \<or> indexSegmentName m = nm" "x \<in> set rs'"
        by auto
      then show "x \<in> set (recs @ rs)" using recs(2) same[OF m(1)] n by auto
    qed
    have "I (ys @ [nm]) (foldl f r rs)"
      unfolding I_def by (rule exI[of _ "recs @ rs"]) (use recs(1) un in simp)
    then show "yields fs (io_bind (readIndexSegment (dir @ [nm])) (\<lambda>recs. io_return (foldl f r recs)))
        (\<lambda>r. \<exists>s. r = Inr s \<and> I (ys @ [nm]) s)"
      unfolding n(1) by (intro yields_bind_eq[OF yields_readIndexSegment[OF sd n(2)]] yields_return) auto
  qed
  then show ?thesis
  proof (rule yields_mono)
    fix r assume "\<exists>s. r = Inr s \<and> I nms s"
    moreover have "{x. \<exists>n rs. S n = Some rs \<and> indexSegmentName n \<in> set nms \<and> x \<in> set rs} = seg_records S"
      using nms by (auto simp: seg_records_def ran_def)
    ultimately show "\<exists>recs. r = Inr (foldl f r0 recs) \<and> set recs = seg_records S" by (auto simp: I_def)
  qed
qed

theorem replay_segments_outcome:
  assumes sd: "seg_dir (w_fs w) dir S" and run: "replay_segments f dir r0 w = (r, w')"
  shows "env_same w w'" and "seg_dir (w_fs w') dir S"
    and "(\<exists>recs. r = Inr (foldl f r0 recs) \<and> set recs = seg_records S) \<or> (r = Inl ErrIO \<and> \<not> healthy w)"
    and "lookup (w_fs w') q = lookup (w_fs w) q \<or>
      ((\<exists>nm. Ext nm = ''.tmp'' \<and> q = dir @ [nm]) \<and> lookup (w_fs w') q = None)"
proof -
  obtain r1 w1 where l: "listIndexSegments dir w = (r1, w1)" by fastforce
  note o1 = listIndexSegments_outcome[OF sd l]
  have "env_same w w' \<and> seg_dir (w_fs w') dir S \<and> w_fs w' = w_fs w1 \<and>
    ((\<exists>recs. r = Inr (foldl f r0 recs) \<and> set recs = seg_records S) \<or> (r = Inl ErrIO \<and> \<not> healthy w))"
    using o1(3)
  proof (elim disjE exE conjE)
    assume "r1 = Inl ErrIO" "\<not> healthy w"
    then show ?thesis using run l o1(1,2) by (simp add: replay_segments_def io_bind_def)
  next
    fix nms assume nms: "r1 = Inr nms" "set nms = indexSegmentName ` dom S"
    have "io_fold (\<lambda>r nm. io_bind (readIndexSegment (dir @ [nm])) (\<lambda>recs. io_return (foldl f r recs))) r0 nms w1 = (r, w')"
      using run l nms(1) by (simp add: replay_segments_def io_bind_def[of "listIndexSegments dir"])
    note y = yieldsD[OF yields_replay_fold[OF o1(2) nms(2)] this]
    show ?thesis
      using y(3,4) o1(2) y(1) env_same_trans[OF o1(1) y(2)] healthy_env[OF _ o1(1)] by auto
  qed
  then show "env_same w w'" and "seg_dir (w_fs w') dir S"
    and "(\<exists>recs. r = Inr (foldl f r0 recs) \<and> set recs = seg_records S) \<or> (r = Inl ErrIO \<and> \<not> healthy w)"
    and "lookup (w_fs w') q = lookup (w_fs w) q \<or>
      ((\<exists>nm. Ext nm = ''.tmp'' \<and> q = dir @ [nm]) \<and> lookup (w_fs w') q = None)"
    using o1(4)[of q] by auto
qed

end
