(* ===== verification/Storage.thy ===== *)
theory Storage
  imports Compaction IndexFiles
begin

text \<open>
  The storage handle, \<open>storage/storage.go\<close> and the entry points of \<open>storage/compaction.go\<close>: the
  registry, the buffer of samples not yet flushed, the opened day partitions. Each method is a
  function from a handle and a disk to a result, a handle and a disk; \<open>flushMu\<close>, \<open>compactMu\<close>
  and the locks of buffer and partitions make the methods, or the critical sections named
  below, atomic.
\<close>

section \<open>The handle\<close>

definition partitionsDir :: string where "partitionsDir = ''partitions''"
definition seriesDir :: string where "seriesDir = ''series''"
definition invertedDir :: string where "invertedDir = ''inverted''"
definition indexdbDir :: string where "indexdbDir = ''indexdb''"

text \<open>\<open>^\d{8}$\<close>\<close>

definition partitionNameRE :: "string \<Rightarrow> bool" where
  "partitionNameRE nm \<longleftrightarrow> length nm = 8 \<and> is_digits nm"

type_synonym series_data = "(uint64, Sample list) gomap"

record storage =
  s_path :: path
  s_registry :: Registry
  s_mem :: series_data
  s_partitions :: "(string, partition) gomap"
  s_threshold :: int
  s_retention :: int
  s_closed :: bool

abbreviation day_dir :: "path \<Rightarrow> string \<Rightarrow> path" where
  "day_dir path day \<equiv> path @ [partitionsDir, day]"

abbreviation indexdb_dir :: "path \<Rightarrow> path" where
  "indexdb_dir path \<equiv> path @ [seriesDir, indexdbDir]"

abbreviation inverted_dir :: "path \<Rightarrow> string \<Rightarrow> path" where
  "inverted_dir path day \<equiv> path @ [seriesDir, invertedDir, day]"

section \<open>Opening\<close>

definition load_forward :: "Registry \<Rightarrow> uint64 \<times> Label list \<Rightarrow> Registry" where
  "load_forward r = (\<lambda>(sid, labels). LoadEntries r [(sid, labels)])"

definition load_inverted :: "string \<Rightarrow> Registry \<Rightarrow> uint64 \<times> Label list \<Rightarrow> Registry" where
  "load_inverted day r = (\<lambda>(sid, labels). LoadInvertedEntry r day sid labels)"

definition load_inverted_day :: "path \<Rightarrow> Registry \<Rightarrow> string \<times> bool \<Rightarrow> Registry diskio" where
  "load_inverted_day root r = (\<lambda>(nm, isdir).
     if \<not> isdir \<or> \<not> partitionNameRE nm then io_return r
     else replay_segments (load_inverted nm) (root @ [nm]) r)"

definition loadInverted :: "path \<Rightarrow> Registry \<Rightarrow> Registry diskio" where
  "loadInverted path r = (\<lambda>w.
     (let root = path @ [seriesDir, invertedDir] in
      case readDir root w of
        (Inl e, w) \<Rightarrow> (if e = ErrNotExist then Inr r else Inl e, w)
      | (Inr entries, w) \<Rightarrow> io_fold (load_inverted_day root) r entries w))"

definition loadRegistry :: "path \<Rightarrow> Registry \<Rightarrow> Registry diskio" where
  "loadRegistry path r =
     io_bind (replay_segments load_forward (indexdb_dir path) r) (\<lambda>r. loadInverted path r)"

definition LoadRegistry :: "path \<Rightarrow> Registry diskio" where
  "LoadRegistry path = loadRegistry path NewRegistry"

definition load_partition ::
  "path \<Rightarrow> (string, partition) gomap \<Rightarrow> string \<times> bool \<Rightarrow> (string, partition) gomap diskio" where
  "load_partition path ps = (\<lambda>(nm, isdir).
     if \<not> isdir \<or> \<not> partitionNameRE nm then io_return ps
     else io_bind (openPartition (day_dir path nm) nm) (\<lambda>p. io_return (AList.update nm p ps)))"

definition loadPartitions :: "path \<Rightarrow> (string, partition) gomap diskio" where
  "loadPartitions path =
     io_bind (readDir (path @ [partitionsDir])) (\<lambda>entries. io_fold (load_partition path) [] entries)"

definition new_storage :: "path \<Rightarrow> storage" where
  "new_storage path =
     \<lparr>s_path = path, s_registry = NewRegistry, s_mem = [], s_partitions = [],
      s_threshold = 3, s_retention = 0, s_closed = False\<rparr>"

definition Open :: "path \<Rightarrow> storage diskio" where
  "Open path =
     io_bind (mkdirAll (path @ [partitionsDir])) (\<lambda>_.
     io_bind (mkdirAll (path @ [seriesDir])) (\<lambda>_.
     io_bind (loadRegistry path (s_registry (new_storage path))) (\<lambda>r.
     io_bind (loadPartitions path) (\<lambda>ps.
     io_return ((new_storage path)\<lparr>s_registry := r, s_partitions := ps\<rparr>)))))"

text \<open>\<open>InspectPart\<close>, for \<open>mmctl\<close>.\<close>

definition InspectPart :: "path \<Rightarrow> (PartMeta \<times> series_data) diskio" where
  "InspectPart dir =
     io_bind (readPartMeta dir) (\<lambda>meta.
     io_bind (readPartAll dir) (\<lambda>data. io_return (meta, data)))"

section \<open>Appending\<close>

text \<open>
  \<open>s.mem[id] = append(s.mem[id], samples...)\<close> under the write lock; the days are a set, and the
  order in which they are indexed shows nowhere.
\<close>

definition sample_days :: "Sample list \<Rightarrow> string list" where
  "sample_days samples = remdups (map (dayString \<circ> Timestamp) samples)"

definition Append :: "storage \<Rightarrow> Label list \<Rightarrow> Sample list \<Rightarrow> uint64 \<times> storage" where
  "Append s labels samples =
     (if samples = [] then (0, s)
      else
        (let (sid, r) = Resolve (s_registry s) labels;
             r = foldl (\<lambda>r day. IndexForDay r day sid) r (sample_days samples)
         in (sid, s\<lparr>s_registry := r, s_mem := AList.update sid (gm_get (s_mem s) sid @ samples) (s_mem s)\<rparr>)))"

section \<open>Partitions\<close>

definition getPartition :: "storage \<Rightarrow> string \<Rightarrow> disk \<Rightarrow> partition res \<times> storage \<times> disk" where
  "getPartition s day w =
     (case map_of (s_partitions s) day of
        Some p \<Rightarrow> (Inr p, s, w)
      | None \<Rightarrow>
          (case openPartition (day_dir (s_path s) day) day w of
             (Inl e, w) \<Rightarrow> (Inl e, s, w)
           | (Inr p, w) \<Rightarrow> (Inr p, s\<lparr>s_partitions := AList.update day p (s_partitions s)\<rparr>, w)))"

text \<open>The methods of a partition change it in place, where the map of partitions refers to it.\<close>

definition put_partition :: "string \<Rightarrow> partition \<Rightarrow> storage \<Rightarrow> storage" where
  "put_partition day p s = s\<lparr>s_partitions := AList.update day p (s_partitions s)\<rparr>"

definition partitionsInRange :: "storage \<Rightarrow> int64 \<Rightarrow> int64 \<Rightarrow> partition list" where
  "partitionsInRange s startMs endMs =
     (let lo = dayString startMs; hi = dayString endMs in
      sort_key p_day [p. (day, p) \<leftarrow> s_partitions s, lo \<le> day \<and> day \<le> hi])"

section \<open>Flushing\<close>

definition restoreMem :: "storage \<Rightarrow> series_data \<Rightarrow> storage" where
  "restoreMem s data =
     s\<lparr>s_mem := merge_into (s_mem s) data\<rparr>"

text \<open>An error path that restores the data; a panic unwinds past it.\<close>

definition restore_on :: "goerr \<Rightarrow> storage \<Rightarrow> series_data \<Rightarrow> storage" where
  "restore_on e s data = (if is_panic e then s else restoreMem s data)"

text \<open>The entries of the series that are new on the day; a series without labels is an error.\<close>

primrec day_entries :: "Registry \<Rightarrow> uint64 list \<Rightarrow> (uint64, Label list) gomap \<Rightarrow> (uint64, Label list) gomap res" where
  "day_entries r [] entries = Inr entries"
| "day_entries r (sid # ids) entries =
     (case Labels r sid of
        None \<Rightarrow> Inl (ErrMsg ''series missing from registry'')
      | Some labels \<Rightarrow> day_entries r ids (AList.update sid labels entries))"

definition persistDayIndex :: "storage \<Rightarrow> string \<Rightarrow> series_data \<Rightarrow> disk \<Rightarrow> unit res \<times> storage \<times> disk" where
  "persistDayIndex s day data w =
     (let newIDs = UnindexedIDs (s_registry s) day (map fst data) in
      if newIDs = [] then (Inr (), s, w)
      else case day_entries (s_registry s) newIDs [] of
        Inl e \<Rightarrow> (Inl e, s, w)
      | Inr entries \<Rightarrow>
          (case appendIndexSegment (inverted_dir (s_path s) day) entries w of
             (Inl e, w) \<Rightarrow> (Inl e, s, w)
           | (Inr nm, w) \<Rightarrow> (Inr (), s\<lparr>s_registry := MarkIndexed (s_registry s) day newIDs\<rparr>, w)))"

definition saveRegistrySegment :: "storage \<Rightarrow> (uint64, Label list) gomap \<Rightarrow> unit diskio" where
  "saveRegistrySegment s pend =
     io_bind (appendIndexSegment (indexdb_dir (s_path s)) pend) (\<lambda>_. io_return ())"

definition maybeCompact :: "storage \<Rightarrow> partition \<Rightarrow> disk \<Rightarrow> unit res \<times> partition \<times> disk" where
  "maybeCompact s p w = compactPartition p (s_threshold s) w"

definition group_sample ::
  "uint64 \<Rightarrow> (string, series_data) gomap \<Rightarrow> Sample \<Rightarrow> (string, series_data) gomap" where
  "group_sample sid byDay sm =
     (let day = dayString (Timestamp sm); m = gm_get byDay day in
      AList.update day (AList.update sid (gm_get m sid @ [sm]) m) byDay)"

definition group_by_day :: "series_data \<Rightarrow> (string, series_data) gomap" where
  "group_by_day mem = foldl (\<lambda>byDay (sid, samples). foldl (group_sample sid) byDay samples) [] mem"

text \<open>
  What \<open>addPart\<close> leaves in the map it is given: \<open>writePartEncoded\<close> sorts its slices in place once
  the staging directory is made, and so a failure after that puts sorted samples back.
\<close>

definition data_after_add :: "partition \<Rightarrow> series_data \<Rightarrow> disk \<Rightarrow> series_data" where
  "data_after_add p data w =
     (if p_dropped p then data
      else
        (case mkdirAll (part_dir (p_dir p) (publishingPrefix @ sprintf06d (p_nextID p))) w of
           (Inl e, w) \<Rightarrow> data
         | (Inr _, w) \<Rightarrow> sorted_blocks w data))"

text \<open>One round of the loop over the days: index, partition, part; a failed merge is only logged.\<close>

definition flush_day :: "storage \<Rightarrow> string \<Rightarrow> series_data \<Rightarrow> disk \<Rightarrow> unit res \<times> storage \<times> disk" where
  "flush_day s day data w =
     (case persistDayIndex s day data w of
        (Inl e, s, w) \<Rightarrow> (Inl e, restore_on e s data, w)
      | (Inr _, s, w) \<Rightarrow>
     (case getPartition s day w of
        (Inl e, s, w) \<Rightarrow> (Inl e, restore_on e s data, w)
      | (Inr p, s, w) \<Rightarrow>
     (let after = data_after_add p data w in
      case addPart p data w of
        (Inl e, p, w) \<Rightarrow> (Inl e, restore_on e (put_partition day p s) after, w)
      | (Inr _, p, w) \<Rightarrow>
     (case maybeCompact s p w of
        (Inl e, p, w) \<Rightarrow> (if is_panic e then Inl e else Inr (), put_partition day p s, w)
      | (Inr _, p, w) \<Rightarrow> (Inr (), put_partition day p s, w)))))"

fun flush_days :: "storage \<Rightarrow> (string, series_data) gomap \<Rightarrow> disk \<Rightarrow> unit res \<times> storage \<times> disk" where
  "flush_days s [] w = (Inr (), s, w)"
| "flush_days s ((day, data) # rest) w =
     (case flush_day s day data w of
        (Inl e, s, w) \<Rightarrow> (Inl e, s, w)
      | (Inr _, s, w) \<Rightarrow> flush_days s rest w)"

definition Flush :: "storage \<Rightarrow> disk \<Rightarrow> unit res \<times> storage \<times> disk" where
  "Flush s w =
     (let mem = s_mem s;
          (pend, r) = DrainPending (s_registry s);
          s = s\<lparr>s_mem := [], s_registry := r\<rparr> in
      case saveRegistrySegment s pend w of
        (Inl e, w) \<Rightarrow>
          (Inl e, if is_panic e then s
                  else restoreMem (s\<lparr>s_registry := TrackPending (s_registry s) pend\<rparr>) mem, w)
      | (Inr _, w) \<Rightarrow>
          if mem = [] then (Inr (), s, w)
          else flush_days s (shuffle w 1 (group_by_day (shuffle w 0 mem))) w)"

definition Close :: "storage \<Rightarrow> disk \<Rightarrow> unit res \<times> storage \<times> disk" where
  "Close s w = (if s_closed s then (Inr (), s, w) else Flush (s\<lparr>s_closed := True\<rparr>) w)"

section \<open>Merging on demand\<close>

fun merge_all :: "storage \<Rightarrow> (string \<times> partition) list \<Rightarrow> disk \<Rightarrow> unit res \<times> storage \<times> disk" where
  "merge_all s [] w = (Inr (), s, w)"
| "merge_all s ((day, p) # rest) w =
     (case compactPartition p 2 w of
        (Inl e, p, w) \<Rightarrow> (Inl e, put_partition day p s, w)
      | (Inr _, p, w) \<Rightarrow> merge_all (put_partition day p s) rest w)"

definition ForceMerge :: "storage \<Rightarrow> disk \<Rightarrow> unit res \<times> storage \<times> disk" where
  "ForceMerge s w = merge_all s (shuffle w 0 (s_partitions s)) w"

end
