(* ===== verification/StorageInv.thy ===== *)
theory StorageInv
  imports Storage
begin

text \<open>
  The invariant of the storage handle and its disk, and the samples a handle holds. Ghost state
  names what lies in the files: the data of every part, the records of the index segments and
  the pairs of day and series that the inverted index knows.
\<close>

section \<open>Operations below one directory keep the others\<close>

lemma apart_dirs:
  "a \<noteq> b \<Longrightarrow> apart (day_dir path a) (day_dir path b)"
  "a \<noteq> b \<Longrightarrow> apart (inverted_dir path a) (inverted_dir path b)"
  "apart (day_dir path a) (inverted_dir path b)" "apart (inverted_dir path b) (day_dir path a)"
  "apart (day_dir path a) (indexdb_dir path)" "apart (indexdb_dir path) (day_dir path a)"
  "apart (inverted_dir path b) (indexdb_dir path)" "apart (indexdb_dir path) (inverted_dir path b)"
  by (auto simp: apart_def partitionsDir_def seriesDir_def invertedDir_def indexdbDir_def)

text \<open>
  \<open>agree B fs fs'\<close>: the tree below \<open>B\<close> is the same, and so is the way to it, but for missing
  directories that have been made.
\<close>

definition agree :: "path \<Rightarrow> 'j fs \<Rightarrow> 'j fs \<Rightarrow> bool" where
  "agree B fs fs' \<longleftrightarrow>
     (\<forall>q. prefix B q \<longrightarrow> lookup fs' q = lookup fs q) \<and>
     (\<forall>q. prefix q B \<longrightarrow> lookup fs' q = lookup fs q \<or> (lookup fs q = None \<and> lookup fs' q = Some Dir))"

lemma agreeD:
  assumes "agree B fs fs'"
  shows "prefix B q \<Longrightarrow> lookup fs' q = lookup fs q"
    and "prefix q B \<Longrightarrow> lookup fs' q = lookup fs q \<or> (lookup fs q = None \<and> lookup fs' q = Some Dir)"
  using assms unfolding agree_def by blast+

lemma touches_agree: "touches A fs fs' \<Longrightarrow> apart A B \<Longrightarrow> agree B fs fs'"
  unfolding agree_def using touches_apart by blast

lemma agree_dirs:
  assumes "agree B fs fs'" and "prefix B d \<or> prefix d B" and "dirs_to fs d"
  shows "dirs_to fs' d"
  unfolding dirs_to_def
proof (intro allI impI)
  fix q assume q: "prefix q d"
  have "prefix B q \<or> prefix q B" using assms(2) q prefix_same_cases prefix_order.trans by blast
  moreover have "lookup fs q = Some Dir" using assms(3) q by (simp add: dirs_to_def)
  ultimately show "lookup fs' q = Some Dir" using agreeD[OF assms(1), of q] by auto
qed

lemma agree_partition:
  assumes ag: "agree (p_dir p) fs fs'"
  shows "partition_inv fs p D \<Longrightarrow> partition_inv fs' p D"
    and "orphans_ok fs p \<Longrightarrow> orphans_ok fs' p" and "synced fs p \<Longrightarrow> synced fs' p"
proof -
  note below = agreeD(1)[OF ag]
  have man: "manifest_of fs' (p_dir p) = manifest_of fs (p_dir p)"
    by (rule manifest_of_frame[OF below]) (simp add: manifest_path_def)
  have pd: "lookup fs' (part_dir (p_dir p) nm) = lookup fs (part_dir (p_dir p) nm)" for nm
    by (rule below) (simp add: part_dir_def parts_dir_def)
  have hold: "holds_part fs' (p_dir p) nm d" if "holds_part fs (p_dir p) nm d" for nm d
    using that by (rule holds_part_frame) (rule below, auto simp: part_dir_def parts_dir_def prefix_def)
  have "dirs_to fs (parts_dir (p_dir p)) \<Longrightarrow> dirs_to fs' (parts_dir (p_dir p))"
    by (rule agree_dirs[OF ag]) (auto simp: parts_dir_def)
  then show "partition_inv fs p D \<Longrightarrow> partition_inv fs' p D"
    using hold man by (simp add: partition_inv_def)
  show "orphans_ok fs p \<Longrightarrow> orphans_ok fs' p" by (simp add: orphans_ok_def pd)
  show "synced fs p \<Longrightarrow> synced fs' p" by (simp add: synced_def man)
qed

lemma frame_partition:
  assumes "touches A fs fs'" and "apart A (p_dir p)"
  shows "partition_inv fs p D \<Longrightarrow> partition_inv fs' p D"
    and "orphans_ok fs p \<Longrightarrow> orphans_ok fs' p" and "synced fs p \<Longrightarrow> synced fs' p"
  using agree_partition[OF touches_agree[OF assms]] by blast+

text \<open>A day directory that is not open, with nothing live in it.\<close>

definition dormant :: "jdoc fs \<Rightarrow> path \<Rightarrow> bool" where
  "dormant fs dir \<longleftrightarrow> disk_partition (2 ^ 62) fs dir [] (\<lambda>_. [])"

lemma agree_disk_partition:
  assumes ag: "agree dir fs fs'" and dp: "disk_partition N fs dir dn D"
  shows "disk_partition N fs' dir dn D"
proof -
  note below = agreeD(1)[OF ag] and up = agreeD(2)[OF ag]
  have man: "manifest_of fs' dir = manifest_of fs dir"
    by (rule manifest_of_frame[OF below]) (simp add: manifest_path_def)
  have pd: "lookup fs' (part_dir dir nm) = lookup fs (part_dir dir nm)" for nm
    by (rule below) (simp add: part_dir_def parts_dir_def)
  have hold: "holds_part fs' dir nm d" if "holds_part fs dir nm d" for nm d
    using that by (rule holds_part_frame) (rule below, auto simp: part_dir_def parts_dir_def prefix_def)
  have "lookup fs' q \<noteq> Some (File c)" if q: "prefix q (parts_dir dir)" for q c
  proof -
    have old: "lookup fs q \<noteq> Some (File c)" using dp q by (simp add: disk_partition_def)
    have "prefix q dir \<or> prefix dir q" using q by (auto simp: parts_dir_def)
    then show ?thesis using up[of q] below[of q] old by auto
  qed
  then show ?thesis using dp hold by (simp add: disk_partition_def man pd)
qed

lemma frame_disk_partition:
  "touches A fs fs' \<Longrightarrow> apart A dir \<Longrightarrow> disk_partition N fs dir dn D \<Longrightarrow> disk_partition N fs' dir dn D"
  by (rule agree_disk_partition[OF touches_agree])

lemma agree_seg_dir:
  assumes ag: "agree dir fs fs'" and sd: "seg_dir fs dir S"
  shows "seg_dir fs' dir S"
proof (rule seg_dir_frame[OF sd])
  show "prefix q dir \<Longrightarrow> lookup fs' q = lookup fs q \<or> (lookup fs q = None \<and> lookup fs' q = Some Dir)" for q
    by (rule agreeD(2)[OF ag])
  show "lookup fs' (dir @ [nm]) = lookup fs (dir @ [nm])" for nm by (rule agreeD(1)[OF ag]) simp
  then show "lookup fs' (dir @ [nm]) \<noteq> Some Dir" for nm using seg_dirD(4)[OF sd] by simp
qed

lemma frame_seg_dir: "touches A fs fs' \<Longrightarrow> apart A dir \<Longrightarrow> seg_dir fs dir S \<Longrightarrow> seg_dir fs' dir S"
  by (rule agree_seg_dir[OF touches_agree])

section \<open>Sums over the partitions\<close>

definition psum :: "(string \<Rightarrow> 'p \<Rightarrow> 'a multiset) \<Rightarrow> (string, 'p) gomap \<Rightarrow> 'a multiset" where
  "psum f ps = (\<Sum>(day, p)\<leftarrow>ps. f day p)"

lemma psum_Cons [simp]: "psum f [] = {#}" "psum f ((day, p) # ps) = f day p + psum f ps"
  by (simp_all add: psum_def)

lemma psum_update: "gm_wf ps \<Longrightarrow> psum f (AList.update day p ps) = psum f (AList.delete day ps) + f day p"
proof (induction ps)
  case (Cons x ps)
  have "AList.delete day ps = ps" if "day \<notin> fst ` set ps"
    using that by (simp add: AList.delete_eq filter_id_conv) force
  with Cons show ?case by (cases x) (auto simp: ac_simps)
qed simp

lemma psum_split: "gm_wf ps \<Longrightarrow> map_of ps day = Some p \<Longrightarrow> psum f ps = psum f (AList.delete day ps) + f day p"
proof (induction ps)
  case (Cons x ps)
  have "AList.delete day ps = ps" if "day \<notin> fst ` set ps"
    using that by (simp add: AList.delete_eq filter_id_conv) force
  with Cons show ?case by (cases x) (auto simp: ac_simps split: if_splits)
qed simp

lemma psum_delete_new: "map_of ps day = None \<Longrightarrow> psum f (AList.delete day ps) = psum f ps"
  by (metis AList.delete_conv delete_id map_of_eq_None_iff)

lemma psum_cong: "(\<And>day p. (day, p) \<in> set ps \<Longrightarrow> f day p = h day p) \<Longrightarrow> psum f ps = psum h ps"
  by (induction ps) auto

lemma psum_delete_cong:
  assumes "\<And>d p. d \<noteq> day \<Longrightarrow> f d p = h d p"
  shows "psum f (AList.delete day ps) = psum h (AList.delete day ps)"
  by (rule psum_cong) (auto simp: AList.delete_eq intro: assms)

section \<open>The invariant\<close>

record ghost =
  g_parts :: "string \<Rightarrow> string \<Rightarrow> series_data"
  g_fwd :: "int \<rightharpoonup> (uint64 \<times> Label list) list"
  g_inv :: "string \<Rightarrow> int \<rightharpoonup> (uint64 \<times> Label list) list"
  g_pairs :: "(string \<times> uint64) set"

text \<open>
  The registry: what the segments hold is part of it, every series is in a segment or in \<open>pend\<close>
  (the entries not yet saved), every pair marked as persisted is in a segment of its day.
\<close>

definition labels_fit :: "Label list \<Rightarrow> bool" where
  "labels_fit ls \<longleftrightarrow> list_all label_ok ls \<and> length ls \<le> 2 ^ 43"

definition registry_inv :: "ghost \<Rightarrow> Registry \<Rightarrow> (uint64 \<rightharpoonup> Label list) \<Rightarrow> bool" where
  "registry_inv g r pend \<longleftrightarrow>
     registry_ok r \<and> index_reflects r (g_pairs g) \<and>
     (\<forall>i ls. map_of (names r) i = Some ls \<longrightarrow> labels_fit ls) \<and>
     (\<forall>(i, ls) \<in> seg_records (g_fwd g). map_of (names r) i = Some ls) \<and>
     (\<forall>i ls. map_of (names r) i = Some ls \<longrightarrow> (i, ls) \<in> seg_records (g_fwd g) \<or> pend i = Some ls) \<and>
     (\<forall>day. \<forall>(i, ls) \<in> seg_records (g_inv g day). map_of (names r) i = Some ls \<and> (day, i) \<in> g_pairs g) \<and>
     (\<forall>day. \<forall>i \<in> set (gm_get (persisted r) day). \<exists>ls. (i, ls) \<in> seg_records (g_inv g day))"

definition index_dirs :: "jdoc fs \<Rightarrow> path \<Rightarrow> ghost \<Rightarrow> bool" where
  "index_dirs fs path g \<longleftrightarrow>
     seg_dir fs (indexdb_dir path) (g_fwd g) \<and> (\<forall>day. seg_dir fs (inverted_dir path day) (g_inv g day))"

text \<open>An open partition, and the samples in it: all of its day and indexed for it.\<close>

definition partition_state ::
  "jdoc fs \<Rightarrow> path \<Rightarrow> string \<Rightarrow> partition \<Rightarrow> (string \<Rightarrow> series_data) \<Rightarrow> bool" where
  "partition_state fs path day p D \<longleftrightarrow>
     p_day p = day \<and> p_dir p = day_dir path day \<and> \<not> p_dropped p \<and> partition_inv fs p D \<and> orphans_ok fs p"

definition of_day :: "string \<Rightarrow> Sample \<Rightarrow> bool" where
  "of_day day sm \<longleftrightarrow> dayString (Timestamp sm) = day"

definition samples_indexed :: "Registry \<Rightarrow> string \<Rightarrow> (uint64 \<Rightarrow> Sample multiset) \<Rightarrow> bool" where
  "samples_indexed r day M \<longleftrightarrow>
     (\<forall>sid. \<forall>sm \<in># M sid. of_day day sm \<and> sid \<in> set (gm_get (persisted r) day))"

definition core_inv :: "jdoc fs \<Rightarrow> storage \<Rightarrow> ghost \<Rightarrow> (uint64 \<rightharpoonup> Label list) \<Rightarrow> bool" where
  "core_inv fs s g pend \<longleftrightarrow>
     dirs_to fs (s_path s @ [partitionsDir]) \<and> dirs_to fs (s_path s @ [seriesDir]) \<and>
     index_dirs fs (s_path s) g \<and> registry_inv g (s_registry s) pend \<and>
     gm_wf (s_mem s) \<and> gm_wf (s_partitions s) \<and>
     (\<forall>sid. \<forall>sm \<in> set (gm_get (s_mem s) sid). (dayString (Timestamp sm), sid) \<in> g_pairs g) \<and>
     (\<forall>day p. map_of (s_partitions s) day = Some p \<longrightarrow>
        partition_state fs (s_path s) day p (g_parts g day) \<and>
        samples_indexed (s_registry s) day (samples_in (g_parts g day) (p_parts p))) \<and>
     (\<forall>day. map_of (s_partitions s) day = None \<longrightarrow> dormant fs (day_dir (s_path s) day))"

definition storage_inv :: "jdoc fs \<Rightarrow> storage \<Rightarrow> ghost \<Rightarrow> bool" where
  "storage_inv fs s g \<longleftrightarrow> core_inv fs s g (map_of (pending (s_registry s)))"

text \<open>The samples of a series, on disk and in all.\<close>

definition disk_samples :: "storage \<Rightarrow> ghost \<Rightarrow> uint64 \<Rightarrow> Sample multiset" where
  "disk_samples s g sid = psum (\<lambda>day p. samples_in (g_parts g day) (p_parts p) sid) (s_partitions s)"

definition contents :: "storage \<Rightarrow> ghost \<Rightarrow> uint64 \<Rightarrow> Sample multiset" where
  "contents s g sid = mset (gm_get (s_mem s) sid) + disk_samples s g sid"

lemma core_invD:
  assumes "core_inv fs s g pend"
  shows "dirs_to fs (s_path s @ [partitionsDir])" and "dirs_to fs (s_path s @ [seriesDir])"
    and "index_dirs fs (s_path s) g" and "registry_inv g (s_registry s) pend"
    and "gm_wf (s_mem s)" and "gm_wf (s_partitions s)"
    and "sm \<in> set (gm_get (s_mem s) sid) \<Longrightarrow> (dayString (Timestamp sm), sid) \<in> g_pairs g"
    and "map_of (s_partitions s) day = Some p \<Longrightarrow> partition_state fs (s_path s) day p (g_parts g day)"
    and "map_of (s_partitions s) day = Some p \<Longrightarrow>
      samples_indexed (s_registry s) day (samples_in (g_parts g day) (p_parts p))"
    and "map_of (s_partitions s) day = None \<Longrightarrow> dormant fs (day_dir (s_path s) day)"
  using assms unfolding core_inv_def by blast+

lemma partition_stateD:
  assumes "partition_state fs path day p D"
  shows "p_day p = day" and "p_dir p = day_dir path day" and "\<not> p_dropped p" and "partition_inv fs p D"
    and "orphans_ok fs p"
  using assms by (simp_all add: partition_state_def)

lemma index_dirsD:
  "index_dirs fs path g \<Longrightarrow> seg_dir fs (indexdb_dir path) (g_fwd g)"
  "index_dirs fs path g \<Longrightarrow> seg_dir fs (inverted_dir path day) (g_inv g day)"
  by (simp_all add: index_dirs_def)

lemma frame_partition_state:
  "touches A fs fs' \<Longrightarrow> apart A (day_dir path day) \<Longrightarrow> partition_state fs path day p D \<Longrightarrow>
   partition_state fs' path day p D"
  using frame_partition(1)[of A fs fs' p D] frame_partition(2)[of A fs fs' p] by (simp add: partition_state_def)

lemma frame_dormant: "touches A fs fs' \<Longrightarrow> apart A dir \<Longrightarrow> dormant fs dir \<Longrightarrow> dormant fs' dir"
  unfolding dormant_def by (rule frame_disk_partition)

lemma frame_roots:
  assumes "touches A fs fs'" and "length path < length A" and "dirs_to fs (path @ [x])"
  shows "dirs_to fs' (path @ [x])"
proof (rule touches_dirs[OF assms(1) _ assms(3)])
  show "\<not> strict_prefix A (path @ [x])" using assms(2) by (auto dest: prefix_length_less)
qed

section \<open>Changes that keep the invariant\<close>

text \<open>A partition that is open is worked on, below its directory.\<close>

lemma core_inv_partition:
  assumes inv: "core_inv fs s g pend" and t: "touches (day_dir (s_path s) day) fs fs'"
    and p: "partition_state fs' (s_path s) day p D'"
    and ix: "samples_indexed (s_registry s) day (samples_in D' (p_parts p))"
  shows "core_inv fs' (put_partition day p s) (g\<lparr>g_parts := (g_parts g)(day := D')\<rparr>) pend"
proof -
  note I = core_invD[OF inv]
  let ?g = "g\<lparr>g_parts := (g_parts g)(day := D')\<rparr>"
  have roots: "dirs_to fs' (s_path s @ [partitionsDir])" "dirs_to fs' (s_path s @ [seriesDir])"
    using frame_roots[OF t] I(1,2) by auto
  have idx: "index_dirs fs' (s_path s) ?g"
    using I(3) frame_seg_dir[OF t] apart_dirs(3,5) by (simp add: index_dirs_def)
  have reg: "registry_inv ?g (s_registry s) pend" using I(4) by (simp add: registry_inv_def)
  have others: "partition_state fs' (s_path s) d q (g_parts ?g d)"
    if "map_of (s_partitions (put_partition day p s)) d = Some q" for d q
  proof (cases "d = day")
    case True
    then show ?thesis using that p by (simp add: put_partition_def)
  next
    case False
    then show ?thesis
      using that frame_partition_state[OF t apart_dirs(1)[of day d] I(8)[of d q]] by (simp add: put_partition_def)
  qed
  have "samples_indexed (s_registry s) d (samples_in (g_parts ?g d) (p_parts q))"
    if "map_of (s_partitions (put_partition day p s)) d = Some q" for d q
    using that ix I(9)[of d q] by (auto simp: put_partition_def split: if_splits)
  moreover have "dormant fs' (day_dir (s_path s) d)"
    if "map_of (s_partitions (put_partition day p s)) d = None" for d
    using that frame_dormant[OF t apart_dirs(1)[of day d] I(10)[of d]] by (simp add: put_partition_def split: if_splits)
  ultimately show ?thesis
    using roots idx reg others I(5-7) by (simp add: core_inv_def put_partition_def)
qed

lemma ghost_parts_id [simp]: "g\<lparr>g_parts := (g_parts g)(day := g_parts g day)\<rparr> = g"
  by simp

lemma put_partition_simps [simp]:
  "s_path (put_partition day p s) = s_path s" "s_registry (put_partition day p s) = s_registry s"
  "s_mem (put_partition day p s) = s_mem s"
  "s_partitions (put_partition day p s) = AList.update day p (s_partitions s)"
  "s_threshold (put_partition day p s) = s_threshold s" "s_retention (put_partition day p s) = s_retention s"
  "s_closed (put_partition day p s) = s_closed s"
  by (simp_all add: put_partition_def)

lemma disk_samples_put:
  assumes "gm_wf (s_partitions s)"
  shows "disk_samples (put_partition day p s) (g\<lparr>g_parts := (g_parts g)(day := D)\<rparr>) sid =
    psum (\<lambda>day p. samples_in (g_parts g day) (p_parts p) sid) (AList.delete day (s_partitions s))
      + samples_in D (p_parts p) sid"
proof -
  have "psum (\<lambda>d q. samples_in (((g_parts g)(day := D)) d) (p_parts q) sid) (AList.delete day (s_partitions s))
      = psum (\<lambda>d q. samples_in (g_parts g d) (p_parts q) sid) (AList.delete day (s_partitions s))"
    by (rule psum_delete_cong) simp
  then show ?thesis using assms by (simp add: disk_samples_def psum_update)
qed

text \<open>The samples on disk change by what changes in the partition that is replaced.\<close>

lemma disk_samples_replace:
  assumes "gm_wf (s_partitions s)" and "map_of (s_partitions s) day = Some p"
  shows "disk_samples (put_partition day p' s) (g\<lparr>g_parts := (g_parts g)(day := D')\<rparr>) sid
      + samples_in (g_parts g day) (p_parts p) sid
    = disk_samples s g sid + samples_in D' (p_parts p') sid"
  unfolding disk_samples_put[OF assms(1)] disk_samples_def[of s g]
  using psum_split[OF assms, of "\<lambda>day p. samples_in (g_parts g day) (p_parts p) sid"]
  by (simp add: ac_simps)

lemma disk_samples_new:
  assumes "gm_wf (s_partitions s)" and "map_of (s_partitions s) day = None"
  shows "disk_samples (put_partition day p' s) (g\<lparr>g_parts := (g_parts g)(day := D')\<rparr>) sid
    = disk_samples s g sid + samples_in D' (p_parts p') sid"
  unfolding disk_samples_put[OF assms(1)] psum_delete_new[OF assms(2)] disk_samples_def[of s g] ..

section \<open>Opening a partition on demand\<close>

lemma core_inv_dormant:
  assumes inv: "core_inv fs s g pend" and t: "touches (day_dir (s_path s) day) fs fs'"
    and "map_of (s_partitions s) day = None" and "dormant fs' (day_dir (s_path s) day)"
  shows "core_inv fs' s g pend"
proof -
  note I = core_invD[OF inv]
  have roots: "dirs_to fs' (s_path s @ [partitionsDir])" "dirs_to fs' (s_path s @ [seriesDir])"
    using frame_roots[OF t] I(1,2) by auto
  have idx: "index_dirs fs' (s_path s) g"
    using I(3) frame_seg_dir[OF t] apart_dirs(3,5) by (simp add: index_dirs_def)
  have parts: "partition_state fs' (s_path s) d q (g_parts g d)" if "map_of (s_partitions s) d = Some q" for d q
  proof -
    have "day \<noteq> d" using that assms(3) by auto
    from frame_partition_state[OF t apart_dirs(1)[OF this] I(8)[OF that]] show ?thesis .
  qed
  have dor: "dormant fs' (day_dir (s_path s) d)" if "map_of (s_partitions s) d = None" for d
    using that frame_dormant[OF t apart_dirs(1)[of day d] I(10)[of d]] assms(4) by (cases "d = day") auto
  show ?thesis using roots idx parts dor I(4-7,9) by (simp add: core_inv_def)
qed

lemma getPartition_step:
  assumes inv: "core_inv (w_fs w) s g pend" and run: "getPartition s day w = (r, s', w')"
  shows "core_inv (w_fs w') s' g pend" and "env_same w w'" and "touches (day_dir (s_path s) day) (w_fs w) (w_fs w')"
    and "disk_samples s' g = disk_samples s g"
    and "(r = Inl ErrIO \<and> \<not> healthy w \<and> s' = s) \<or>
      (\<exists>p. r = Inr p \<and> s' = put_partition day p s \<and>
        (map_of (s_partitions s) day = Some p \<or>
         map_of (s_partitions s) day = None \<and> p_nextID p \<le> 2 ^ 62 \<and> p_parts p = []))"
proof -
  note I = core_invD[OF inv]
  have all: "core_inv (w_fs w') s' g pend \<and> env_same w w' \<and> touches (day_dir (s_path s) day) (w_fs w) (w_fs w') \<and>
    (\<forall>sid. disk_samples s' g sid = disk_samples s g sid) \<and>
    ((r = Inl ErrIO \<and> \<not> healthy w \<and> s' = s) \<or>
      (\<exists>p. r = Inr p \<and> s' = put_partition day p s \<and>
        (map_of (s_partitions s) day = Some p \<or>
         map_of (s_partitions s) day = None \<and> p_nextID p \<le> 2 ^ 62 \<and> p_parts p = [])))"
  proof (cases "map_of (s_partitions s) day")
    case (Some p)
    have same: "AList.update day p (s_partitions s) = s_partitions s"
      using Some by (rule AList.update_triv)
    then have "s = put_partition day p s" by (simp add: put_partition_def)
    then show ?thesis using run Some inv by (auto simp: getPartition_def)
  next
    case None
    have dor: "disk_partition (2 ^ 62) (w_fs w) (day_dir (s_path s) day) [] (g_parts g day)"
      using I(10)[OF None] by (simp add: dormant_def disk_partition_def)
    obtain r1 w1 where op: "openPartition (day_dir (s_path s) day) day w = (r1, w1)" by fastforce
    note o1 = openPartition_recovers[OF dor _ _ op, simplified]
    have w': "w' = w1" using run None op by (auto simp: getPartition_def split: sum.splits)
    from o1(4) show ?thesis
    proof (elim disjE exE conjE)
      assume e: "r1 = Inl ErrIO" "\<not> healthy w"
      then have "r = Inl ErrIO" "s' = s" using run None op by (simp_all add: getPartition_def)
      moreover have "dormant (w_fs w1) (day_dir (s_path s) day)"
        using o1(3) by (simp add: dormant_def disk_partition_def)
      ultimately show ?thesis
        using core_inv_dormant[OF inv o1(2) None] o1(1,2) e w' by simp
    next
      fix p assume p: "r1 = Inr p" "partition_inv (w_fs w1) p (g_parts g day)" "p_parts p = []"
        "p_dir p = day_dir (s_path s) day" "p_day p = day" "\<not> p_dropped p" "p_nextID p \<le> 4611686018427387904"
        "orphans_ok (w_fs w1) p"
      have s': "r = Inr p" "s' = put_partition day p s"
        using run None op p(1) by (simp_all add: getPartition_def put_partition_def)
      have "partition_state (w_fs w1) (s_path s) day p (g_parts g day)"
        using p by (simp add: partition_state_def)
      from core_inv_partition[OF inv o1(2) this]
      have "core_inv (w_fs w1) s' g pend" using p(3) by (simp add: s' samples_indexed_def)
      moreover have "disk_samples s' g sid = disk_samples s g sid" for sid
        using disk_samples_new[OF I(6) None, of p g "g_parts g day" sid] p(3) by (simp add: s')
      ultimately show ?thesis using o1(1,2) s' p None w' by simp
    qed
  qed
  then show "core_inv (w_fs w') s' g pend" and "env_same w w'"
    and "touches (day_dir (s_path s) day) (w_fs w) (w_fs w')" and "disk_samples s' g = disk_samples s g"
    and "(r = Inl ErrIO \<and> \<not> healthy w \<and> s' = s) \<or>
      (\<exists>p. r = Inr p \<and> s' = put_partition day p s \<and>
        (map_of (s_partitions s) day = Some p \<or>
         map_of (s_partitions s) day = None \<and> p_nextID p \<le> 2 ^ 62 \<and> p_parts p = []))"
    by (auto simp: fun_eq_iff)
qed

end
