(* ===== verification/FlushProof.thy ===== *)
theory FlushProof
  imports StorageInv
begin

text \<open>
  Flushing and merging keep the invariant whatever fails, and what they do to the samples a
  handle holds.
\<close>

section \<open>Adding a part to an open partition\<close>

definition room_of :: "(string \<Rightarrow> series_data) \<Rightarrow> string list \<Rightarrow> nat" where
  "room_of D nms = (\<Sum>nm\<leftarrow>nms. data_room (D nm))"

lemma merge_fits_room: "merge_fits D nms \<longleftrightarrow> room_of D nms \<le> 2 ^ 48"
  by (simp add: merge_fits_def room_of_def)

lemma room_of_append: "room_of D (xs @ ys) = room_of D xs + room_of D ys"
  by (simp add: room_of_def)

lemma room_of_cong: "(\<And>nm. nm \<in> set nms \<Longrightarrow> D nm = E nm) \<Longrightarrow> room_of D nms = room_of E nms"
  unfolding room_of_def by (rule arg_cong[where f = sum_list], rule map_cong) simp_all

lemma data_room_keys: "gm_wf m \<Longrightarrow> data_room m = (\<Sum>k\<in>#mset (map fst m). block_room (gm_get m k))"
proof -
  assume wf: "gm_wf m"
  have "map (block_room \<circ> snd) m = map (\<lambda>k. block_room (gm_get m k)) (map fst m)"
    using wf by (auto simp: gm_get_def)
  then show ?thesis unfolding data_room_def by (metis mset_map sum_mset_sum_list)
qed

lemma data_room_sorted_version:
  assumes "gm_wf data" and "sorted_version data blocks"
  shows "data_room blocks = data_room data"
proof -
  have "length (gm_get blocks sid) = length (gm_get data sid)" for sid
    using assms(2) by (metis sorted_version_def size_mset)
  then have "block_room (gm_get blocks sid) = block_room (gm_get data sid)" for sid
    by (simp add: block_room_def)
  moreover have "gm_wf blocks" "mset (map fst blocks) = mset (map fst data)"
    using assms(2) by (simp_all add: sorted_version_def)
  ultimately show ?thesis using data_room_keys assms(1) by simp
qed

lemma samples_indexed_add:
  "samples_indexed r day M \<Longrightarrow> samples_indexed r day N \<Longrightarrow> samples_indexed r day (\<lambda>sid. M sid + N sid)"
  by (auto simp: samples_indexed_def)

lemma new_part_name:
  assumes "partition_inv fs p D"
  shows "sprintf06d (p_nextID p) \<notin> set (p_parts p)"
  using assms numbered_new[of "p_nextID p"] by (auto simp: partition_inv_def)

lemma addPart_step:
  assumes inv: "core_inv (w_fs w) s g pend" and p: "map_of (s_partitions s) day = Some p"
    and room: "p_nextID p < 2 ^ 63 - 1" and wf: "gm_wf data" and fits: "part_fits data"
    and ix: "samples_indexed (s_registry s) day (\<lambda>sid. mset (gm_get data sid))"
    and run: "addPart p data w = (r, p', w')"
  obtains D' where "core_inv (w_fs w') (put_partition day p' s) (g\<lparr>g_parts := (g_parts g)(day := D')\<rparr>) pend"
    and "env_same w w'" and "touches (day_dir (s_path s) day) (w_fs w) (w_fs w')"
    and "\<forall>e. r = Inl e \<longrightarrow> \<not> is_panic e" and "p_nextID p' \<le> p_nextID p + 1"
    and "room_of D' (p_parts p') \<le> room_of (g_parts g day) (p_parts p) + data_room data"
    and "(\<forall>sid. samples_in D' (p_parts p') sid = samples_in (g_parts g day) (p_parts p) sid + mset (gm_get data sid)) \<and>
          (r = Inr () \<longrightarrow> synced (w_fs w') p') \<or>
        (\<forall>sid. samples_in D' (p_parts p') sid = samples_in (g_parts g day) (p_parts p) sid) \<and> r \<noteq> Inr ()"
proof -
  note st = partition_stateD[OF core_invD(8)[OF inv p]] and old_ix = core_invD(9)[OF inv p]
  have d: "dirs_to (w_fs w) (parts_dir (p_dir p))" "0 < p_nextID p" using st(4) by (auto simp: partition_inv_def)
  note fr = addPart_frame[OF d(1) st(5) d(2) room run]
  let ?nm = "sprintf06d (p_nextID p)" and ?D = "g_parts g day"
  obtain D' where D': "partition_inv (w_fs w') p' D'"
    and cases: "(p_parts p' = p_parts p \<and> D' = ?D \<and> r \<noteq> Inr () \<and>
          manifest_of (w_fs w') (p_dir p) = manifest_of (w_fs w) (p_dir p)) \<or>
        (\<exists>blocks. sorted_version data blocks \<and> p_parts p' = p_parts p @ [?nm] \<and>
          D' = ?D(?nm := blocks) \<and>
          (synced (w_fs w') p' \<or>
           r \<noteq> Inr () \<and> manifest_of (w_fs w') (p_dir p) = manifest_of (w_fs w) (p_dir p)))"
    and same: "p_dir p' = p_dir p" "p_day p' = p_day p" "p_dropped p' = p_dropped p"
    by (rule addPart_preserves[OF st(4) room wf fits run])
  have added: "(\<forall>sid. samples_in D' (p_parts p') sid = samples_in ?D (p_parts p) sid + mset (gm_get data sid)) \<and>
      room_of D' (p_parts p') = room_of ?D (p_parts p) + data_room data"
    if b: "sorted_version data blocks" "p_parts p' = p_parts p @ [?nm]" "D' = ?D(?nm := blocks)" for blocks
  proof -
    have eq: "D' x = ?D x" if "x \<in> set (p_parts p)" for x
      using that new_part_name[OF st(4)] by (auto simp: b(3))
    have "samples_in D' (p_parts p) sid = samples_in ?D (p_parts p) sid" for sid by (rule samples_in_cong[OF eq])
    moreover have "room_of D' (p_parts p) = room_of ?D (p_parts p)" by (rule room_of_cong[OF eq])
    moreover have "data_room blocks = data_room data" by (rule data_room_sorted_version[OF wf b(1)])
    ultimately show ?thesis using b by (simp add: sorted_version_def room_of_append) (simp add: room_of_def)
  qed
  have res: "(\<forall>sid. samples_in D' (p_parts p') sid = samples_in ?D (p_parts p) sid + mset (gm_get data sid)) \<and>
          (r = Inr () \<longrightarrow> synced (w_fs w') p') \<and> room_of D' (p_parts p') \<le> room_of ?D (p_parts p) + data_room data \<or>
        (\<forall>sid. samples_in D' (p_parts p') sid = samples_in ?D (p_parts p) sid) \<and> r \<noteq> Inr () \<and>
          room_of D' (p_parts p') \<le> room_of ?D (p_parts p) + data_room data"
    using cases
  proof
    assume "\<exists>blocks. sorted_version data blocks \<and> p_parts p' = p_parts p @ [?nm] \<and> D' = ?D(?nm := blocks) \<and>
          (synced (w_fs w') p' \<or> r \<noteq> Inr () \<and> manifest_of (w_fs w') (p_dir p) = manifest_of (w_fs w) (p_dir p))"
    then obtain blocks where b: "sorted_version data blocks" "p_parts p' = p_parts p @ [?nm]" "D' = ?D(?nm := blocks)"
      and syn: "synced (w_fs w') p' \<or> r \<noteq> Inr ()" by blast
    from added[OF b] syn show ?thesis by auto
  qed auto
  have "samples_indexed (s_registry s) day (samples_in D' (p_parts p'))"
    using res samples_indexed_add[OF old_ix ix] old_ix by (auto simp: samples_indexed_def)
  moreover have "partition_state (w_fs w') (s_path s) day p' D'"
    using st D' same fr(3) by (simp add: partition_state_def)
  ultimately have "core_inv (w_fs w') (put_partition day p' s) (g\<lparr>g_parts := (g_parts g)(day := D')\<rparr>) pend"
    using core_inv_partition[OF inv] fr(2) st(2) by simp
  then show thesis using that[of D'] fr st(2) res by auto
qed

lemma compact_step:
  assumes inv: "core_inv (w_fs w) s g pend" and p: "map_of (s_partitions s) day = Some p"
    and room: "p_nextID p < 2 ^ 63 - 1" and fits: "room_of (g_parts g day) (p_parts p) \<le> 2 ^ 48"
    and run: "compactPartition p minParts w = (r, p', w')"
  obtains D' where "core_inv (w_fs w') (put_partition day p' s) (g\<lparr>g_parts := (g_parts g)(day := D')\<rparr>) pend"
    and "env_same w w'" and "touches (day_dir (s_path s) day) (w_fs w) (w_fs w')"
    and "\<forall>e. r = Inl e \<longrightarrow> \<not> is_panic e" and "p_nextID p' \<le> p_nextID p + 1"
    and "\<forall>sid. samples_in D' (p_parts p') sid = samples_in (g_parts g day) (p_parts p) sid"
    and "synced (w_fs w) p \<longrightarrow> synced (w_fs w') p'"
proof -
  note st = partition_stateD[OF core_invD(8)[OF inv p]] and old_ix = core_invD(9)[OF inv p]
  note fr = compactPartition_frame[OF st(4,5) room run]
  obtain D' where D': "partition_inv (w_fs w') p' D'"
    and same_samples: "\<And>sid. samples_in D' (p_parts p') sid = samples_in (g_parts g day) (p_parts p) sid"
    and cases: "(p_parts p' = p_parts p \<and> D' = g_parts g day \<and>
          manifest_of (w_fs w') (p_dir p) = manifest_of (w_fs w) (p_dir p)) \<or>
        (r = Inr () \<and> synced (w_fs w') p')"
    and same: "p_dir p' = p_dir p" "p_day p' = p_day p" "p_dropped p' = p_dropped p"
    by (rule compactPartition_preserves[OF st(4) room _ run]) (use fits in \<open>simp_all add: merge_fits_room\<close>)
  have "partition_state (w_fs w') (s_path s) day p' D'"
    using st D' same fr(3) by (simp add: partition_state_def)
  moreover have "samples_indexed (s_registry s) day (samples_in D' (p_parts p'))"
    using old_ix same_samples by (simp add: samples_indexed_def)
  ultimately have "core_inv (w_fs w') (put_partition day p' s) (g\<lparr>g_parts := (g_parts g)(day := D')\<rparr>) pend"
    using core_inv_partition[OF inv] fr(2) st(2) by simp
  moreover have "synced (w_fs w') p'" if "synced (w_fs w) p"
    using cases that same by (auto simp: synced_def)
  ultimately show thesis using that[of D'] fr st(2) same_samples by auto
qed

section \<open>Saving index segments\<close>

lemma core_inv_index:
  assumes inv: "core_inv fs s g pend" and t: "touches A fs fs'"
    and A: "\<And>day. apart A (day_dir (s_path s) day)" "length (s_path s) < length A"
    and idx: "index_dirs fs' (s_path s) g'" and reg: "registry_inv g' r' pend'"
    and g: "g_parts g' = g_parts g" "g_pairs g' = g_pairs g"
    and pers: "\<And>day. set (gm_get (persisted (s_registry s)) day) \<subseteq> set (gm_get (persisted r') day)"
  shows "core_inv fs' (s\<lparr>s_registry := r'\<rparr>) g' pend'"
proof -
  note I = core_invD[OF inv]
  have roots: "dirs_to fs' (s_path s @ [partitionsDir])" "dirs_to fs' (s_path s @ [seriesDir])"
    using frame_roots[OF t A(2)] I(1,2) by auto
  have ix: "samples_indexed r' day M" if "samples_indexed (s_registry s) day M" for day M
    using that pers by (auto simp: samples_indexed_def)
  show ?thesis
    using roots idx reg I(5-7) frame_partition_state[OF t A(1) I(8)] ix[OF I(9)] frame_dormant[OF t A(1) I(10)]
    by (simp add: core_inv_def g)
qed

lemma seg_records_new: "S n = None \<Longrightarrow> seg_records (S(n \<mapsto> recs)) = seg_records S \<union> set recs"
  by (auto simp: seg_records_def)

lemma registry_invD:
  assumes "registry_inv g r pend"
  shows "registry_ok r" and "index_reflects r (g_pairs g)"
    and "map_of (names r) i = Some ls \<Longrightarrow> labels_fit ls"
    and "(i, ls) \<in> seg_records (g_fwd g) \<Longrightarrow> map_of (names r) i = Some ls"
    and "map_of (names r) i = Some ls \<Longrightarrow> (i, ls) \<in> seg_records (g_fwd g) \<or> pend i = Some ls"
    and "(i, ls) \<in> seg_records (g_inv g day) \<Longrightarrow> map_of (names r) i = Some ls \<and> (day, i) \<in> g_pairs g"
    and "i \<in> set (gm_get (persisted r) day) \<Longrightarrow> \<exists>ls. (i, ls) \<in> seg_records (g_inv g day)"
  using assms unfolding registry_inv_def by blast+

lemma registry_invI:
  assumes "registry_ok r" and "index_reflects r (g_pairs g)"
    and "\<And>i ls. map_of (names r) i = Some ls \<Longrightarrow> labels_fit ls"
    and "\<And>i ls. (i, ls) \<in> seg_records (g_fwd g) \<Longrightarrow> map_of (names r) i = Some ls"
    and "\<And>i ls. map_of (names r) i = Some ls \<Longrightarrow> (i, ls) \<in> seg_records (g_fwd g) \<or> pend i = Some ls"
    and "\<And>i ls day. (i, ls) \<in> seg_records (g_inv g day) \<Longrightarrow> map_of (names r) i = Some ls \<and> (day, i) \<in> g_pairs g"
    and "\<And>i day. i \<in> set (gm_get (persisted r) day) \<Longrightarrow> \<exists>ls. (i, ls) \<in> seg_records (g_inv g day)"
  shows "registry_inv g r pend"
  using assms unfolding registry_inv_def by blast

lemma registry_inv_named: "registry_inv g r pend \<Longrightarrow> (day, i) \<in> g_pairs g \<Longrightarrow> \<exists>ls. map_of (names r) i = Some ls"
  using registry_invD(2)[of g r pend] by (auto simp: index_reflects_def)

lemma day_entries_Inr:
  assumes "\<And>i. i \<in> set ids \<Longrightarrow> map_of (names r) i \<noteq> None" and "gm_wf entries"
  shows "\<exists>es. day_entries r ids entries = Inr es \<and> gm_wf es \<and>
    (\<forall>i. map_of es i = (if i \<in> set ids then map_of (names r) i else map_of entries i))"
  using assms
proof (induction ids arbitrary: entries)
  case (Cons i ids)
  then obtain ls where ls: "map_of (names r) i = Some ls" by fastforce
  have "gm_wf (AList.update i ls entries)" using Cons.prems(2) by simp
  from Cons.IH[OF _ this] Cons.prems(1) ls show ?case by (auto simp: Labels_def)
qed simp

lemma records_ok:
  assumes "gm_wf es" and "\<And>i ls. map_of es i = Some ls \<Longrightarrow> labels_fit ls"
  shows "list_all record_ok (sorted_entries es)"
proof -
  have "record_ok x" if x: "x \<in> set es" for x
  proof -
    obtain i ls where e: "x = (i, ls)" by (cases x)
    then have "labels_fit ls" using assms(2) set_entries[OF assms(1)] x by simp
    then show ?thesis by (simp add: e record_ok_def labels_fit_def)
  qed
  then show ?thesis by (simp add: list_all_iff set_sorted_entries[OF assms(1)])
qed

lemma appendIndexSegment_touches:
  assumes "seg_dir (w_fs w) dir S" and "dir \<noteq> []" and "seg_room S"
    and "list_all record_ok (sorted_entries es)" and "appendIndexSegment dir es w = (r, w')"
  shows "touches dir (w_fs w) (w_fs w')"
  using appendIndexSegment_outcome(2)[OF assms] by (simp add: touches_def)

lemma registry_inv_MarkIndexed:
  assumes R: "registry_inv g r pend" and S: "seg_records S' = seg_records (g_inv g day) \<union> recs"
    and recs: "\<And>i ls. (i, ls) \<in> recs \<longleftrightarrow> i \<in> set ids \<and> map_of (names r) i = Some ls"
    and pairs: "\<And>i. i \<in> set ids \<Longrightarrow> (day, i) \<in> g_pairs g"
  shows "registry_inv (g\<lparr>g_inv := (g_inv g)(day := S')\<rparr>) (MarkIndexed r day ids) pend"
proof -
  note D = registry_invD[OF R]
  have "inv_ids (MarkIndexed r day ids) = inv_ids r" by (rule inv_ids_cong) simp
  then have "registry_ok (MarkIndexed r day ids)" "index_reflects (MarkIndexed r day ids) (g_pairs g)"
    using D(1,2) by (simp_all add: registry_ok_def index_reflects_def)
  moreover have "map_of (names r) i = Some ls \<and> (d, i) \<in> g_pairs g"
    if "(i, ls) \<in> seg_records (((g_inv g)(day := S')) d)" for d i ls
    using that D(6)[of i ls d] S recs pairs by (cases "d = day") auto
  moreover have "\<exists>ls. (i, ls) \<in> seg_records (((g_inv g)(day := S')) d)"
    if "i \<in> set (gm_get (persisted (MarkIndexed r day ids)) d)" for d i
  proof (cases "d = day \<and> i \<in> set ids")
    case True
    then show ?thesis using registry_inv_named[OF R pairs[of i]] recs S by auto
  next
    case False
    then have "i \<in> set (gm_get (persisted r) d)" using that by (auto simp: persisted_MarkIndexed split: if_splits)
    from D(7)[OF this] show ?thesis using S by auto
  qed
  ultimately show ?thesis using D(3,4,5) by (intro registry_invI) simp_all
qed

lemma persistDayIndex_step:
  assumes inv: "core_inv (w_fs w) s g pend" and room: "seg_room (g_inv g day)"
    and data: "\<And>sid. sid \<in> fst ` set data \<Longrightarrow> (day, sid) \<in> g_pairs g"
    and run: "persistDayIndex s day data w = (r, s', w')"
  obtains S' r' where "core_inv (w_fs w') s' (g\<lparr>g_inv := (g_inv g)(day := S')\<rparr>) pend"
    and "env_same w w'" and "touches (inverted_dir (s_path s) day) (w_fs w) (w_fs w')"
    and "s' = s\<lparr>s_registry := r'\<rparr>"
    and "(r = Inl ErrIO \<and> \<not> healthy w) \<or>
      (r = Inr () \<and> (\<forall>sid \<in> fst ` set data. sid \<in> set (gm_get (persisted r') day)))"
proof -
  note I = core_invD[OF inv]
  let ?r = "s_registry s"
  define ids where "ids = UnindexedIDs ?r day (map fst data)"
  have ids: "i \<in> set ids \<longleftrightarrow> i \<in> fst ` set data \<and> i \<notin> set (gm_get (persisted ?r) day)" for i
    by (auto simp: ids_def UnindexedIDs_def)
  show thesis
  proof (cases "ids = []")
    case True
    then have "r = Inr ()" "s' = s" "w' = w" using run by (simp_all add: persistDayIndex_def ids_def)
    moreover have "sid \<in> set (gm_get (persisted ?r) day)" if "sid \<in> fst ` set data" for sid
      using True ids[of sid] that by auto
    ultimately show thesis
      using inv by (intro that[of "g_inv g day" ?r]) simp_all
  next
    case False
    have pairs: "(day, i) \<in> g_pairs g" if "i \<in> set ids" for i using that ids data by blast
    have "map_of (names ?r) i \<noteq> None" if "i \<in> set ids" for i
      using registry_inv_named[OF I(4) pairs[OF that]] by auto
    from day_entries_Inr[OF this, of ids "[]"] obtain es where es: "day_entries ?r ids [] = Inr es" "gm_wf es"
      "\<And>i. map_of es i = (if i \<in> set ids then map_of (names ?r) i else None)"
      by (metis distinct.simps(1) list.map(1) map_of.simps(1))
    have recs: "(i, ls) \<in> set (sorted_entries es) \<longleftrightarrow> i \<in> set ids \<and> map_of (names ?r) i = Some ls" for i ls
      unfolding set_sorted_entries[OF es(2)] set_entries[OF es(2)] es(3) by simp
    have ok: "list_all record_ok (sorted_entries es)"
    proof (rule records_ok[OF es(2)])
      fix i ls assume "map_of es i = Some ls"
      then have "map_of (names ?r) i = Some ls" by (simp add: es(3) split: if_splits)
      then show "labels_fit ls" by (rule registry_invD(3)[OF I(4)])
    qed
    let ?dir = "inverted_dir (s_path s) day"
    note sd = index_dirsD(2)[OF I(3), of day]
    obtain r1 w1 where ap: "appendIndexSegment ?dir es w = (r1, w1)" by fastforce
    note o1 = appendIndexSegment_outcome[OF sd _ room ok ap, simplified]
    have t: "touches ?dir (w_fs w) (w_fs w1)" by (rule appendIndexSegment_touches[OF sd _ room ok ap]) simp
    have idx: "index_dirs (w_fs w1) (s_path s) (g\<lparr>g_inv := (g_inv g)(day := S')\<rparr>)"
      if "seg_dir (w_fs w1) ?dir S'" for S'
      using that I(3) frame_seg_dir[OF t apart_dirs(7)] frame_seg_dir[OF t apart_dirs(2)[of day]]
      by (simp add: index_dirs_def)
    have w': "w' = w1" and r: "r = (case r1 of Inl e \<Rightarrow> Inl e | Inr nm \<Rightarrow> Inr ())"
      "s' = (case r1 of Inl e \<Rightarrow> s | Inr nm \<Rightarrow> s\<lparr>s_registry := MarkIndexed ?r day ids\<rparr>)"
      using run False es(1) ap by (auto simp: persistDayIndex_def ids_def[symmetric] split: sum.splits)
    from o1(3) show thesis
    proof (elim disjE exE conjE)
      assume e: "r1 = Inl ErrIO" "\<not> healthy w" "seg_dir (w_fs w1) ?dir (g_inv g day)"
      have "core_inv (w_fs w1) (s\<lparr>s_registry := ?r\<rparr>) g pend"
        using core_inv_index[OF inv t apart_dirs(4) _ idx[OF e(3), simplified] I(4)] by simp
      then show thesis using o1(1) t e r w' by (intro that[of "g_inv g day" ?r]) simp_all
    next
      fix nm assume r1: "r1 = Inr nm" and sg: "if es = [] then seg_dir (w_fs w1) ?dir (g_inv g day)
         else \<exists>n. g_inv g day n = None \<and> seg_dir (w_fs w1) ?dir ((g_inv g day)(n \<mapsto> sorted_entries es))"
      obtain i where "i \<in> set ids" using False by (cases ids) auto
      then have "map_of es i \<noteq> None" using registry_inv_named[OF I(4) pairs[of i]] by (simp add: es(3))
      then have "es \<noteq> []" by auto
      then obtain n where n: "g_inv g day n = None" "seg_dir (w_fs w1) ?dir ((g_inv g day)(n \<mapsto> sorted_entries es))"
        using sg by auto
      let ?S = "(g_inv g day)(n \<mapsto> sorted_entries es)"
      have "registry_inv (g\<lparr>g_inv := (g_inv g)(day := ?S)\<rparr>) (MarkIndexed ?r day ids) pend"
        by (rule registry_inv_MarkIndexed[OF I(4) seg_records_new[where S = "g_inv g day" and n = n, OF n(1)]])
          (rule recs, rule pairs)
      from core_inv_index[OF inv t apart_dirs(4) _ idx[OF n(2)] this]
      have "core_inv (w_fs w1) (s\<lparr>s_registry := MarkIndexed ?r day ids\<rparr>) (g\<lparr>g_inv := (g_inv g)(day := ?S)\<rparr>) pend"
        by (simp add: persisted_MarkIndexed)
      moreover have "\<forall>sid \<in> fst ` set data. sid \<in> set (gm_get (persisted (MarkIndexed ?r day ids)) day)"
        using ids by (auto simp: persisted_MarkIndexed)
      ultimately show thesis using o1(1) t r r1 w' by (intro that[of ?S "MarkIndexed ?r day ids"]) simp_all
    qed
  qed
qed

end
