(* ===== verification/FlushSteps.thy ===== *)
theory FlushSteps
  imports FlushProof
begin

text \<open>
  The loop of \<open>Flush\<close> over the days: what one round does, and what all of them do when each
  succeeds or one fails.
\<close>

section \<open>One day\<close>

definition all_synced :: "jdoc fs \<Rightarrow> storage \<Rightarrow> bool" where
  "all_synced fs s \<longleftrightarrow> (\<forall>day p. map_of (s_partitions s) day = Some p \<longrightarrow> synced fs p)"

text \<open>The samples of one day to be flushed: indexed for it, and small enough for part and merge.\<close>

definition day_fits :: "storage \<Rightarrow> ghost \<Rightarrow> string \<Rightarrow> series_data \<Rightarrow> bool" where
  "day_fits s g day data \<longleftrightarrow>
     gm_wf data \<and>
     (\<forall>sid \<in> fst ` set data. (day, sid) \<in> g_pairs g) \<and>
     (\<forall>sid. \<forall>sm \<in> set (gm_get data sid). of_day day sm) \<and>
     data_room data \<le> 2 ^ 48 \<and>
     (\<forall>p. map_of (s_partitions s) day = Some p \<longrightarrow>
        p_nextID p \<le> 2 ^ 62 \<and> room_of (g_parts g day) (p_parts p) + data_room data \<le> 2 ^ 48)"

definition day_ready :: "storage \<Rightarrow> ghost \<Rightarrow> string \<Rightarrow> series_data \<Rightarrow> bool" where
  "day_ready s g day data \<longleftrightarrow> day_fits s g day data \<and> seg_room (g_inv g day)"

text \<open>Only the days of \<open>ds\<close> have changed.\<close>

definition same_but :: "string set \<Rightarrow> storage \<Rightarrow> ghost \<Rightarrow> storage \<Rightarrow> ghost \<Rightarrow> bool" where
  "same_but ds s g s' g' \<longleftrightarrow>
     s_path s' = s_path s \<and> s_threshold s' = s_threshold s \<and> s_retention s' = s_retention s \<and> s_closed s' = s_closed s \<and>
     names (s_registry s') = names (s_registry s) \<and> pending (s_registry s') = pending (s_registry s) \<and>
     g_fwd g' = g_fwd g \<and> g_pairs g' = g_pairs g \<and>
     (\<forall>d. d \<notin> ds \<longrightarrow> g_parts g' d = g_parts g d \<and> g_inv g' d = g_inv g d \<and>
        map_of (s_partitions s') d = map_of (s_partitions s) d)"

lemma same_but_refl [simp]: "same_but ds s g s g"
  by (simp add: same_but_def)

lemma same_but_trans: "same_but a s g s1 g1 \<Longrightarrow> same_but b s1 g1 s2 g2 \<Longrightarrow> same_but (a \<union> b) s g s2 g2"
  unfolding same_but_def by simp

lemma same_but_mono: "same_but a s g s' g' \<Longrightarrow> a \<subseteq> b \<Longrightarrow> same_but b s g s' g'"
  unfolding same_but_def by blast

lemma day_ready_cong: "same_but ds s g s' g' \<Longrightarrow> day \<notin> ds \<Longrightarrow> day_ready s g day data \<Longrightarrow> day_ready s' g' day data"
  by (simp add: same_but_def day_ready_def day_fits_def)

lemma core_inv_mem:
  "core_inv fs s g pend \<Longrightarrow> gm_wf m \<Longrightarrow>
   (\<And>sid sm. sm \<in> set (gm_get m sid) \<Longrightarrow> (dayString (Timestamp sm), sid) \<in> g_pairs g) \<Longrightarrow>
   core_inv fs (s\<lparr>s_mem := m\<rparr>) g pend"
  by (simp add: core_inv_def)

lemma day_samples:
  assumes "day_fits s g day data" and "sm \<in> set (gm_get data sid)"
  shows "of_day day sm" and "(day, sid) \<in> g_pairs g"
proof -
  show "of_day day sm" using assms by (auto simp: day_fits_def)
  have "sid \<in> fst ` set data" using gm_get_empty_iff[of data sid] assms(2) by force
  then show "(day, sid) \<in> g_pairs g" using assms(1) by (auto simp: day_fits_def)
qed

text \<open>The samples as \<open>addPart\<close> leaves them, in another order perhaps.\<close>

definition same_samples :: "series_data \<Rightarrow> series_data \<Rightarrow> bool" where
  "same_samples data data1 \<longleftrightarrow> gm_wf data1 \<and> mset (map fst data1) = mset (map fst data) \<and>
     (\<forall>sid. mset (gm_get data1 sid) = mset (gm_get data sid))"

lemma data_after_add_same:
  assumes "gm_wf data"
  shows "same_samples data (data_after_add p data w)"
proof -
  have "same_samples data data" using assms by (simp add: same_samples_def)
  moreover have "same_samples data (sorted_blocks v data)" for v
    unfolding same_samples_def using sorted_version_sorted_blocks[OF assms, of v] unfolding sorted_version_def by blast
  ultimately show ?thesis by (simp add: data_after_add_def split: prod.splits sum.splits)
qed

lemma data_room_same:
  assumes "gm_wf data" and "same_samples data data1"
  shows "data_room data1 = data_room data"
proof -
  have "length (gm_get data1 sid) = length (gm_get data sid)" for sid
    using assms(2) by (metis same_samples_def size_mset)
  then have "block_room (gm_get data1 sid) = block_room (gm_get data sid)" for sid
    by (simp add: block_room_def)
  moreover have "gm_wf data1" "mset (map fst data1) = mset (map fst data)"
    using assms(2) by (simp_all add: same_samples_def)
  ultimately show ?thesis using data_room_keys assms(1) by simp
qed

lemma day_fits_same:
  assumes fits: "day_fits s g day data" and same: "same_samples data data1"
  shows "day_fits s g day data1"
proof -
  have "gm_wf data" using fits by (simp add: day_fits_def)
  then have room: "data_room data1 = data_room data" using same by (rule data_room_same)
  have "set (map fst data1) = set (map fst data)" using same unfolding same_samples_def by (metis set_mset_mset)
  then have keys: "fst ` set data1 = fst ` set data" by simp
  have "set (gm_get data1 sid) = set (gm_get data sid)" for sid
    using same unfolding same_samples_def by (metis set_mset_mset)
  then show ?thesis using fits same by (simp add: day_fits_def room keys same_samples_def)
qed

lemma restoreMem_inv:
  assumes inv: "core_inv fs s g pend" and ready: "day_fits s0 g0 day data" and g: "g_pairs g = g_pairs g0"
  shows "core_inv fs (restoreMem s data) g pend"
    and "gm_get (s_mem (restoreMem s data)) sid = gm_get (s_mem s) sid @ gm_get data sid"
proof -
  have wf: "gm_wf data" "gm_wf (s_mem s)" using ready core_invD(5)[OF inv] by (simp_all add: day_fits_def)
  note m = merge_into_props[OF wf]
  show "gm_get (s_mem (restoreMem s data)) sid = gm_get (s_mem s) sid @ gm_get data sid"
    using m by (simp add: restoreMem_def)
  have "(dayString (Timestamp sm), k) \<in> g_pairs g" if "sm \<in> set (gm_get (merge_into (s_mem s) data) k)" for sm k
    using that m core_invD(7)[OF inv] day_samples[OF ready, of sm k] by (auto simp: g of_day_def)
  then show "core_inv fs (restoreMem s data) g pend"
    unfolding restoreMem_def using m by (intro core_inv_mem[OF inv]) auto
qed

lemma samples_indexed_data:
  assumes "day_fits s g day data" and "\<forall>sid \<in> fst ` set data. sid \<in> set (gm_get (persisted r) day)"
  shows "samples_indexed r day (\<lambda>sid. mset (gm_get data sid))"
  unfolding samples_indexed_def
proof (intro allI ballI conjI)
  fix sid sm assume "sm \<in># mset (gm_get data sid)"
  then have sm: "sm \<in> set (gm_get data sid)" by simp
  show "of_day day sm" by (rule day_samples(1)[OF assms(1) sm])
  have "sid \<in> fst ` set data" using gm_get_empty_iff[of data sid] sm by force
  then show "sid \<in> set (gm_get (persisted r) day)" using assms(2) by blast
qed

lemma persistDayIndex_names:
  "persistDayIndex s day data w = (r, s', w') \<Longrightarrow>
   names (s_registry s') = names (s_registry s) \<and> pending (s_registry s') = pending (s_registry s)"
  by (auto simp: persistDayIndex_def Let_def split: if_splits sum.splits prod.splits)

lemma synced_open: "p_parts p = [] \<Longrightarrow> partition_inv fs p D \<Longrightarrow> synced fs p"
  by (auto simp: synced_def partition_inv_def)

text \<open>The part: added, then perhaps merged; or an error after which the samples are in the buffer.\<close>

lemma add_compact_step:
  assumes inv: "core_inv (w_fs w) s g pend" and p: "map_of (s_partitions s) day = Some p"
    and ready: "day_fits s g day data"
    and ix: "samples_indexed (s_registry s) day (\<lambda>sid. mset (gm_get data sid))"
    and same: "same_samples data data1"
    and run: "(case addPart p data w of
        (Inl e, p, w) \<Rightarrow> (Inl e, restore_on e (put_partition day p s) data1, w)
      | (Inr _, p, w) \<Rightarrow>
     (case maybeCompact s p w of
        (Inl e, p, w) \<Rightarrow> (if is_panic e then Inl e else Inr (), put_partition day p s, w)
      | (Inr _, p, w) \<Rightarrow> (Inr (), put_partition day p s, w))) = (r, s', w')"
  obtains D' p' where "core_inv (w_fs w') s' (g\<lparr>g_parts := (g_parts g)(day := D')\<rparr>) pend"
    and "env_same w w'" and "touches (day_dir (s_path s) day) (w_fs w) (w_fs w')"
    and "(\<forall>sid. samples_in D' (p_parts p') sid = samples_in (g_parts g day) (p_parts p) sid + mset (gm_get data sid)) \<and>
          (r = Inr () \<longrightarrow> synced (w_fs w') p') \<or>
        (\<forall>sid. samples_in D' (p_parts p') sid = samples_in (g_parts g day) (p_parts p) sid) \<and> r \<noteq> Inr ()"
    and "(r = Inr () \<and> s' = put_partition day p' s) \<or>
      (\<exists>e. r = Inl e \<and> s' = restoreMem (put_partition day p' s) data1)"
proof -
  have rm: "p_nextID p \<le> 2 ^ 62" "room_of (g_parts g day) (p_parts p) + data_room data \<le> 2 ^ 48" "gm_wf data"
    using ready p by (simp_all add: day_fits_def)
  have fits: "part_fits data" using ready by (simp add: day_fits_def part_fits_room)
  obtain r1 p1 w1 where add: "addPart p data w = (r1, p1, w1)" by (metis prod_cases3)
  have room1: "p_nextID p < 2 ^ 63 - 1" using rm(1) by simp
  obtain D1 where D1: "core_inv (w_fs w1) (put_partition day p1 s) (g\<lparr>g_parts := (g_parts g)(day := D1)\<rparr>) pend"
    and a1: "env_same w w1" "touches (day_dir (s_path s) day) (w_fs w) (w_fs w1)"
      "\<forall>e. r1 = Inl e \<longrightarrow> \<not> is_panic e" "p_nextID p1 \<le> p_nextID p + 1"
      "room_of D1 (p_parts p1) \<le> room_of (g_parts g day) (p_parts p) + data_room data"
    and c1: "(\<forall>sid. samples_in D1 (p_parts p1) sid = samples_in (g_parts g day) (p_parts p) sid + mset (gm_get data sid)) \<and>
          (r1 = Inr () \<longrightarrow> synced (w_fs w1) p1) \<or>
        (\<forall>sid. samples_in D1 (p_parts p1) sid = samples_in (g_parts g day) (p_parts p) sid) \<and> r1 \<noteq> Inr ()"
    by (rule addPart_step[OF inv p room1 rm(3) fits ix add])
  let ?g = "g\<lparr>g_parts := (g_parts g)(day := D1)\<rparr>"
  show thesis
  proof (cases r1)
    case (Inl e)
    then have e: "r = Inl e" "s' = restoreMem (put_partition day p1 s) data1" "w' = w1"
      using run add a1(3) Inl by (auto simp: restore_on_def)
    have "core_inv (w_fs w1) s' ?g pend" unfolding e by (rule restoreMem_inv(1)[OF D1 day_fits_same[OF ready same]]) simp
    then show thesis using that[of D1 p1] a1 c1 e by auto
  next
    case (Inr u)
    obtain r2 p2 w2 where cp: "compactPartition p1 (s_threshold s) w1 = (r2, p2, w2)" by (metis prod_cases3)
    have p1: "map_of (s_partitions (put_partition day p1 s)) day = Some p1" by simp
    have room2: "p_nextID p1 < 2 ^ 63 - 1" using a1(4) rm(1) by simp
    obtain D2 where D2: "core_inv (w_fs w2) (put_partition day p2 (put_partition day p1 s)) (?g\<lparr>g_parts := (g_parts ?g)(day := D2)\<rparr>) pend"
      and a2: "env_same w1 w2" "touches (day_dir (s_path s) day) (w_fs w1) (w_fs w2)" "\<forall>e. r2 = Inl e \<longrightarrow> \<not> is_panic e"
        "\<forall>sid. samples_in D2 (p_parts p2) sid = samples_in D1 (p_parts p1) sid" "synced (w_fs w1) p1 \<longrightarrow> synced (w_fs w2) p2"
      by (rule compact_step[OF D1 p1 room2 _ cp]) (use a1(5) rm(2) in simp_all)
    have put: "put_partition day p2 (put_partition day p1 s) = put_partition day p2 s"
      by (simp add: put_partition_def AList.update_last)
    have e: "r = Inr ()" "s' = put_partition day p2 s" "w' = w2"
      using run add Inr cp a2(3) by (cases r2; auto simp: maybeCompact_def)+
    show thesis
      using that[of D2 p2] D2 a1 a2 c1 Inr e put env_same_trans[OF a1(1) a2(1)] touches_trans[OF a1(2) a2(2)] by auto
  qed
qed

text \<open>
  \<open>dup\<close>: the samples are in the buffer again although the part is live, because saving the
  manifest failed after the part was added to the list in memory.
\<close>

definition day_outcome ::
  "unit res \<Rightarrow> storage \<Rightarrow> ghost \<Rightarrow> storage \<Rightarrow> ghost \<Rightarrow> series_data \<Rightarrow> bool \<Rightarrow> bool" where
  "day_outcome r s g s' g' data dup \<longleftrightarrow>
     (\<forall>sid. mset (gm_get (s_mem s') sid) = mset (gm_get (s_mem s) sid) + (if r = Inr () then {#} else mset (gm_get data sid)) \<and>
        disk_samples s' g' sid = disk_samples s g sid + (if r = Inr () \<or> dup then mset (gm_get data sid) else {#}))"

lemma day_failed:
  assumes inv: "core_inv fs s1 g1 pend" and ready: "day_fits s g day data" and sb: "same_but {day} s g s1 g1"
    and mem: "s_mem s1 = s_mem s" and ds: "\<And>sid. disk_samples s1 g1 sid = disk_samples s g sid"
  shows "core_inv fs (restoreMem s1 data) g1 pend" and "same_but {day} s g (restoreMem s1 data) g1"
    and "day_outcome (Inl e) s g (restoreMem s1 data) g1 data False"
proof -
  have g: "g_pairs g1 = g_pairs g" using sb by (simp add: same_but_def)
  show "core_inv fs (restoreMem s1 data) g1 pend" by (rule restoreMem_inv(1)[OF inv ready g])
  show "same_but {day} s g (restoreMem s1 data) g1" using sb by (simp add: same_but_def restoreMem_def)
  have "disk_samples (restoreMem s1 data) g1 sid = disk_samples s1 g1 sid" for sid
    by (simp add: disk_samples_def restoreMem_def)
  then show "day_outcome (Inl e) s g (restoreMem s1 data) g1 data False"
    using restoreMem_inv(2)[OF inv ready g] mem ds by (simp add: day_outcome_def)
qed

text \<open>The second half of a round, once the partition is open.\<close>

lemma day_part_step:
  assumes inv: "core_inv (w_fs w) s1 g1 pend" and ready: "day_fits s g day data" and sb: "same_but {day} s g s1 g1"
    and mem: "s_mem s1 = s_mem s" and ds: "\<And>sid. disk_samples s1 g1 sid = disk_samples s g sid"
    and p: "map_of (s_partitions s1) day = Some p" and fits1: "day_fits s1 g1 day data"
    and persd: "\<forall>sid \<in> fst ` set data. sid \<in> set (gm_get (persisted (s_registry s1)) day)"
    and same: "same_samples data data1"
    and run: "(case addPart p data w of
        (Inl e, p, w) \<Rightarrow> (Inl e, restore_on e (put_partition day p s1) data1, w)
      | (Inr _, p, w) \<Rightarrow>
     (case maybeCompact s1 p w of
        (Inl e, p, w) \<Rightarrow> (if is_panic e then Inl e else Inr (), put_partition day p s1, w)
      | (Inr _, p, w) \<Rightarrow> (Inr (), put_partition day p s1, w))) = (r, s', w')"
  obtains g' dup where "core_inv (w_fs w') s' g' pend" and "env_same w w'" and "same_but {day} s g s' g'"
    and "touches (day_dir (s_path s) day) (w_fs w) (w_fs w')" and "day_outcome r s g s' g' data dup"
    and "r = Inr () \<longrightarrow> (\<exists>p. map_of (s_partitions s') day = Some p \<and> synced (w_fs w') p)"
proof -
  note I = core_invD[OF inv]
  obtain D' p' where D': "core_inv (w_fs w') s' (g1\<lparr>g_parts := (g_parts g1)(day := D')\<rparr>) pend"
    and e: "env_same w w'" and t: "touches (day_dir (s_path s1) day) (w_fs w) (w_fs w')"
    and c: "(\<forall>sid. samples_in D' (p_parts p') sid = samples_in (g_parts g1 day) (p_parts p) sid + mset (gm_get data sid)) \<and>
          (r = Inr () \<longrightarrow> synced (w_fs w') p') \<or>
        (\<forall>sid. samples_in D' (p_parts p') sid = samples_in (g_parts g1 day) (p_parts p) sid) \<and> r \<noteq> Inr ()"
    and s': "(r = Inr () \<and> s' = put_partition day p' s1) \<or>
      (\<exists>e. r = Inl e \<and> s' = restoreMem (put_partition day p' s1) data1)"
    by (rule add_compact_step[OF inv p fits1 samples_indexed_data[OF fits1 persd] same run])
  let ?g = "g1\<lparr>g_parts := (g_parts g1)(day := D')\<rparr>" and ?s = "put_partition day p' s1"
  have ds': "disk_samples ?s ?g sid = disk_samples s g sid + mset (gm_get data sid)"
    if "samples_in D' (p_parts p') sid = samples_in (g_parts g1 day) (p_parts p) sid + mset (gm_get data sid)" for sid
    using disk_samples_replace[OF I(6) p, of p' g1 D' sid] ds that by (simp add: ac_simps)
  have ds0: "disk_samples ?s ?g sid = disk_samples s g sid"
    if "samples_in D' (p_parts p') sid = samples_in (g_parts g1 day) (p_parts p) sid" for sid
    using disk_samples_replace[OF I(6) p, of p' g1 D' sid] ds that by simp
  have sb': "same_but {day} s g ?s ?g" using sb by (simp add: same_but_def)
  have path: "s_path s1 = s_path s" using sb by (simp add: same_but_def)
  define dup where "dup \<longleftrightarrow> (\<forall>sid. samples_in D' (p_parts p') sid = samples_in (g_parts g1 day) (p_parts p) sid + mset (gm_get data sid))"
  from s' show thesis
  proof (elim disjE exE conjE)
    assume r: "r = Inr ()" and s': "s' = ?s"
    have "day_outcome r s g s' ?g data False" using ds' c mem by (simp add: day_outcome_def r s')
    moreover have "synced (w_fs w') p'" using c r by auto
    ultimately show thesis using D' e t sb' path by (intro that[of ?g False]) (simp_all add: s')
  next
    fix er assume r: "r = Inl er" and s': "s' = restoreMem ?s data1"
    have ds2: "disk_samples s' ?g sid = disk_samples ?s ?g sid" for sid
      by (simp add: disk_samples_def restoreMem_def s')
    have wf: "gm_wf data1" "gm_wf (s_mem s1)" using same I(5) by (simp_all add: same_samples_def)
    have "gm_get (s_mem s') sid = gm_get (s_mem s) sid @ gm_get data1 sid" for sid
      using merge_into_props[OF wf] mem by (simp add: s' restoreMem_def)
    then have "mset (gm_get (s_mem s') sid) = mset (gm_get (s_mem s) sid) + mset (gm_get data sid)" for sid
      using same by (simp add: same_samples_def)
    then have "day_outcome r s g s' ?g data dup"
      using c ds' ds0 by (auto simp: day_outcome_def r ds2 dup_def)
    moreover have "same_but {day} s g s' ?g" using sb' by (simp add: s' same_but_def restoreMem_def)
    ultimately show thesis using D' e t path r by (intro that[of ?g dup]) simp_all
  qed
qed

lemma day_fits_open:
  assumes "day_fits s g day data" and "same_but {day} s g s1 g1" and "g_parts g1 = g_parts g"
    and "map_of (s_partitions s1) day = Some p"
    and "map_of (s_partitions s) day = Some p \<or> p_nextID p \<le> 2 ^ 62 \<and> p_parts p = []"
  shows "day_fits s1 g1 day data"
  using assms by (auto simp: day_fits_def same_but_def room_of_def)

lemma all_synced_day:
  assumes syn: "all_synced fs s" and sb: "same_but {day} s g s' g'" and inv: "core_inv fs s g pend"
    and t: "touches (inverted_dir (s_path s) day) fs fs1" "touches (day_dir (s_path s) day) fs1 fs'"
    and day: "\<exists>p. map_of (s_partitions s') day = Some p \<and> synced fs' p"
  shows "all_synced fs' s'"
  unfolding all_synced_def
proof (intro allI impI)
  fix d q assume q: "map_of (s_partitions s') d = Some q"
  show "synced fs' q"
  proof (cases "d = day")
    case True
    then show ?thesis using day q by auto
  next
    case False
    then have q0: "map_of (s_partitions s) d = Some q" using sb q by (simp add: same_but_def)
    then have dir: "p_dir q = day_dir (s_path s) d" and sy: "synced fs q"
      using partition_stateD(2)[OF core_invD(8)[OF inv q0]] syn by (auto simp: all_synced_def)
    have "synced fs1 q" by (rule frame_partition(3)[OF t(1) _ sy]) (simp only: dir apart_dirs)
    then show ?thesis
      by (rule frame_partition(3)[OF t(2), rotated]) (use dir apart_dirs(1) False in metis)
  qed
qed

lemma flush_day_step:
  assumes inv: "core_inv (w_fs w) s g pend" and rdy: "day_ready s g day data"
    and run: "flush_day s day data w = (r, s', w')"
  obtains g' dup where "core_inv (w_fs w') s' g' pend" and "env_same w w'" and "same_but {day} s g s' g'"
    and "day_outcome r s g s' g' data dup"
    and "r = Inr () \<longrightarrow> all_synced (w_fs w) s \<longrightarrow> all_synced (w_fs w') s'"
proof -
  have pairs: "\<And>sid. sid \<in> fst ` set data \<Longrightarrow> (day, sid) \<in> g_pairs g" and room: "seg_room (g_inv g day)"
    and ready: "day_fits s g day data"
    using rdy by (auto simp: day_ready_def day_fits_def)
  obtain r1 s1 w1 where ps: "persistDayIndex s day data w = (r1, s1, w1)" by (metis prod_cases3)
  obtain S' r0 where inv1: "core_inv (w_fs w1) s1 (g\<lparr>g_inv := (g_inv g)(day := S')\<rparr>) pend"
    and e1: "env_same w w1" and t1: "touches (inverted_dir (s_path s) day) (w_fs w) (w_fs w1)"
    and s1: "s1 = s\<lparr>s_registry := r0\<rparr>"
    and c1: "(r1 = Inl ErrIO \<and> \<not> healthy w) \<or>
      (r1 = Inr () \<and> (\<forall>sid \<in> fst ` set data. sid \<in> set (gm_get (persisted r0) day)))"
    by (rule persistDayIndex_step[OF inv room pairs ps])
  let ?g1 = "g\<lparr>g_inv := (g_inv g)(day := S')\<rparr>"
  have sb1: "same_but {day} s g s1 ?g1"
    using persistDayIndex_names[OF ps] s1 by (simp add: same_but_def)
  have ds1: "disk_samples s1 ?g1 sid = disk_samples s g sid" for sid by (simp add: disk_samples_def s1)
  have mem1: "s_mem s1 = s_mem s" "s_partitions s1 = s_partitions s" "s_path s1 = s_path s" "s_registry s1 = r0"
    by (simp_all add: s1)
  show thesis
  proof (cases "r1 = Inr ()")
    case False
    then have e: "r = Inl ErrIO" "s' = restoreMem s1 data" "w' = w1"
      using run ps c1 by (auto simp: flush_day_def restore_on_def)
    show thesis
      using that[of ?g1 False] day_failed[OF inv1 ready sb1 mem1(1) ds1] e1 by (simp add: e)
  next
    case True
    then have persd: "\<forall>sid \<in> fst ` set data. sid \<in> set (gm_get (persisted r0) day)" using c1 by auto
    obtain r2 s2 w2 where gp: "getPartition s1 day w1 = (r2, s2, w2)" by (metis prod_cases3)
    note g2 = getPartition_step[OF inv1 gp]
    have env2: "env_same w w2" using e1 g2(2) by (rule env_same_trans)
    show thesis
    proof (cases r2)
      case (Inl er)
      then have e2: "r2 = Inl ErrIO" "s2 = s1" using g2(5) by auto
      then have e: "r = Inl ErrIO" "s' = restoreMem s1 data" "w' = w2"
        using run ps True gp by (auto simp: flush_day_def restore_on_def)
      have inv2: "core_inv (w_fs w2) s1 ?g1 pend" using g2(1) e2 by simp
      show thesis
        using that[of ?g1 False] day_failed[OF inv2 ready sb1 mem1(1) ds1] env2 by (simp add: e)
    next
      case (Inr p)
      then have s2: "s2 = put_partition day p s1"
        and pc: "map_of (s_partitions s) day = Some p \<or> p_nextID p \<le> 2 ^ 62 \<and> p_parts p = []"
        using g2(5) mem1(2) by auto
      have sb2: "same_but {day} s g s2 ?g1" using sb1 by (simp add: s2 same_but_def)
      have p2: "map_of (s_partitions s2) day = Some p" by (simp add: s2)
      have ds2: "disk_samples s2 ?g1 sid = disk_samples s g sid" for sid using g2(4) ds1 by simp
      have mem2: "s_mem s2 = s_mem s" "s_registry s2 = r0" by (simp_all add: s2 s1)
      have fits2: "day_fits s2 ?g1 day data" by (rule day_fits_open[OF ready sb2 _ p2 pc]) simp
      have run2: "(case addPart p data w2 of
          (Inl e, q, w) \<Rightarrow> (Inl e, restore_on e (put_partition day q s2) (data_after_add p data w2), w)
        | (Inr _, p, w) \<Rightarrow>
       (case maybeCompact s2 p w of
          (Inl e, p, w) \<Rightarrow> (if is_panic e then Inl e else Inr (), put_partition day p s2, w)
        | (Inr _, p, w) \<Rightarrow> (Inr (), put_partition day p s2, w))) = (r, s', w')"
        using run ps True gp Inr by (simp add: flush_day_def)
      obtain g' dup where g': "core_inv (w_fs w') s' g' pend" "env_same w2 w'" "same_but {day} s g s' g'"
        and t3: "touches (day_dir (s_path s) day) (w_fs w2) (w_fs w')" and out: "day_outcome r s g s' g' data dup"
        and syn: "r = Inr () \<longrightarrow> (\<exists>p. map_of (s_partitions s') day = Some p \<and> synced (w_fs w') p)"
        by (rule day_part_step[OF g2(1) ready sb2 mem2(1) ds2 p2 fits2 persd[folded mem2(2)] data_after_add_same run2])
          (use ready in \<open>simp add: day_ready_def day_fits_def\<close>)
      have t23: "touches (day_dir (s_path s) day) (w_fs w1) (w_fs w')"
        using g2(3) t3 unfolding mem1 by (rule touches_trans)
      show thesis
        using that[OF g'(1) env_same_trans[OF env2 g'(2)] g'(3) out] syn
          all_synced_day[OF _ g'(3) inv t1 t23] by blast
    qed
  qed
qed

section \<open>All days\<close>

definition days_samples :: "(string, series_data) gomap \<Rightarrow> uint64 \<Rightarrow> Sample multiset" where
  "days_samples days sid = psum (\<lambda>day data. mset (gm_get data sid)) days"

lemma days_samples_Cons [simp]:
  "days_samples [] sid = {#}" "days_samples ((day, data) # days) sid = mset (gm_get data sid) + days_samples days sid"
  by (simp_all add: days_samples_def)

text \<open>
  All rounds succeed, or the one with number \<open>k\<close> fails: the days before it are on disk, its samples
  are back in the buffer, and those of the later days are nowhere.
\<close>

definition days_outcome ::
  "unit res \<Rightarrow> storage \<Rightarrow> ghost \<Rightarrow> storage \<Rightarrow> ghost \<Rightarrow> (string, series_data) gomap \<Rightarrow> bool" where
  "days_outcome r s g s' g' days \<longleftrightarrow>
     (r = Inr () \<and> (\<forall>sid. mset (gm_get (s_mem s') sid) = mset (gm_get (s_mem s) sid) \<and>
        disk_samples s' g' sid = disk_samples s g sid + days_samples days sid)) \<or>
     (r \<noteq> Inr () \<and> (\<exists>done1 day data rest dup. days = done1 @ (day, data) # rest \<and>
        (\<forall>sid. mset (gm_get (s_mem s') sid) = mset (gm_get (s_mem s) sid) + mset (gm_get data sid) \<and>
          disk_samples s' g' sid = disk_samples s g sid + days_samples done1 sid +
            (if dup then mset (gm_get data sid) else {#}))))"

lemma days_outcome_Cons:
  assumes "day_outcome (Inr ()) s g s1 g1 data dup" and "days_outcome r s1 g1 s' g' days"
  shows "days_outcome r s g s' g' ((day, data) # days)"
  using assms(2) unfolding days_outcome_def
proof (elim disjE conjE exE)
  fix done1 d dt rest dup'
  assume "r \<noteq> Inr ()" "days = done1 @ (d, dt) # rest"
    and "\<forall>sid. mset (gm_get (s_mem s') sid) = mset (gm_get (s_mem s1) sid) + mset (gm_get dt sid) \<and>
      disk_samples s' g' sid = disk_samples s1 g1 sid + days_samples done1 sid + (if dup' then mset (gm_get dt sid) else {#})"
  then have "r \<noteq> Inr () \<and> (day, data) # days = ((day, data) # done1) @ (d, dt) # rest \<and>
      (\<forall>sid. mset (gm_get (s_mem s') sid) = mset (gm_get (s_mem s) sid) + mset (gm_get dt sid) \<and>
        disk_samples s' g' sid = disk_samples s g sid + days_samples ((day, data) # done1) sid +
          (if dup' then mset (gm_get dt sid) else {#}))"
    using assms(1) by (simp add: day_outcome_def ac_simps)
  then show "(r = Inr () \<and> (\<forall>sid. mset (gm_get (s_mem s') sid) = mset (gm_get (s_mem s) sid) \<and>
        disk_samples s' g' sid = disk_samples s g sid + days_samples ((day, data) # days) sid)) \<or>
     (r \<noteq> Inr () \<and> (\<exists>done1 daya dataa rest dup. (day, data) # days = done1 @ (daya, dataa) # rest \<and>
        (\<forall>sid. mset (gm_get (s_mem s') sid) = mset (gm_get (s_mem s) sid) + mset (gm_get dataa sid) \<and>
          disk_samples s' g' sid = disk_samples s g sid + days_samples done1 sid +
            (if dup then mset (gm_get dataa sid) else {#}))))"
    by blast
qed (use assms(1) in \<open>simp add: day_outcome_def ac_simps\<close>)

lemma days_outcome_fail:
  assumes "day_outcome (Inl e) s g s' g' data dup"
  shows "days_outcome (Inl e) s g s' g' ((day, data) # rest)"
proof -
  have "(day, data) # rest = [] @ (day, data) # rest \<and>
      (\<forall>sid. mset (gm_get (s_mem s') sid) = mset (gm_get (s_mem s) sid) + mset (gm_get data sid) \<and>
        disk_samples s' g' sid = disk_samples s g sid + days_samples [] sid + (if dup then mset (gm_get data sid) else {#}))"
    using assms by (simp add: day_outcome_def)
  then show ?thesis unfolding days_outcome_def by blast
qed

theorem flush_days_outcome:
  assumes "core_inv (w_fs w) s g pend" and "distinct (map fst days)"
    and "\<forall>(day, data) \<in> set days. day_ready s g day data" and "flush_days s days w = (r, s', w')"
  shows "\<exists>g'. core_inv (w_fs w') s' g' pend \<and> env_same w w' \<and> same_but (fst ` set days) s g s' g' \<and>
    days_outcome r s g s' g' days \<and>
    (r = Inr () \<longrightarrow> all_synced (w_fs w) s \<longrightarrow> all_synced (w_fs w') s')"
  using assms
proof (induction s days w arbitrary: g rule: flush_days.induct)
  case (1 s w)
  then show ?case by (intro exI[of _ g]) (simp add: days_outcome_def)
next
  case (2 s day data rest w)
  obtain r1 s1 w1 where fd: "flush_day s day data w = (r1, s1, w1)" by (metis prod_cases3)
  have rdy: "day_ready s g day data" using "2.prems"(3) by simp
  obtain g1 dup where g1: "core_inv (w_fs w1) s1 g1 pend" "env_same w w1" "same_but {day} s g s1 g1"
    "day_outcome r1 s g s1 g1 data dup" "r1 = Inr () \<longrightarrow> all_synced (w_fs w) s \<longrightarrow> all_synced (w_fs w1) s1"
    by (rule flush_day_step[OF "2.prems"(1) rdy fd])
  show ?case
  proof (cases r1)
    case (Inl e)
    then have e: "r = Inl e" "s' = s1" "w' = w1" using "2.prems"(4) fd by simp_all
    have "same_but (fst ` set ((day, data) # rest)) s g s1 g1" using g1(3) by (rule same_but_mono) simp
    then show ?thesis using g1 e Inl days_outcome_fail by (intro exI[of _ g1]) auto
  next
    case (Inr u)
    have run1: "flush_days s1 rest w1 = (r, s', w')" using "2.prems"(4) fd Inr by simp
    have "day_ready s1 g1 d dt" if "(d, dt) \<in> set rest" for d dt
      using day_ready_cong[OF g1(3), of d dt] that "2.prems"(2,3) by force
    then have rdy1: "\<forall>(d, dt) \<in> set rest. day_ready s1 g1 d dt" by auto
    from "2.IH"[OF fd[symmetric] Inr refl g1(1) _ rdy1 run1] "2.prems"(2)
    obtain g' where g': "core_inv (w_fs w') s' g' pend" "env_same w1 w'" "same_but (fst ` set rest) s1 g1 s' g'"
      "days_outcome r s1 g1 s' g' rest" "r = Inr () \<longrightarrow> all_synced (w_fs w1) s1 \<longrightarrow> all_synced (w_fs w') s'"
      by auto
    have "same_but (fst ` set ((day, data) # rest)) s g s' g'"
      using same_but_trans[OF g1(3) g'(3)] by simp
    moreover have "days_outcome r s g s' g' ((day, data) # rest)"
      by (rule days_outcome_Cons[OF _ g'(4)]) (use g1(4) Inr in simp)
    ultimately show ?thesis
      using g' g1 Inr env_same_trans[OF g1(2) g'(2)] by (intro exI[of _ g']) simp
  qed
qed

end
