(* ===== verification/FlushTop.thy ===== *)
theory FlushTop
  imports FlushSteps
begin

text \<open>
  \<open>Flush\<close> as a whole: the grouping of the buffer by days, the forward segment, and the outcome
  of a flush.
\<close>

section \<open>Grouping by day\<close>

text \<open>\<open>groups byDay M\<close>: the groups hold exactly the samples \<open>M\<close>, each under its day, in order.\<close>

definition groups :: "(string, series_data) gomap \<Rightarrow> (uint64 \<Rightarrow> Sample list) \<Rightarrow> bool" where
  "groups byDay M \<longleftrightarrow>
     gm_wf byDay \<and> (\<forall>(day, m) \<in> set byDay. gm_wf m \<and> (\<forall>(sid, xs) \<in> set m. xs \<noteq> [])) \<and>
     (\<forall>day sid. gm_get (gm_get byDay day) sid = filter (of_day day) (M sid))"

lemma gm_get_entry: "gm_wf m \<Longrightarrow> (k, v) \<in> set m \<Longrightarrow> gm_get m k = v"
  by (simp add: gm_get_def)

lemma set_update_cases: "x \<in> set (AList.update k v m) \<Longrightarrow> x = (k, v) \<or> x \<in> set m"
  by (induction m) (auto split: if_splits)

lemma groups_day:
  assumes "groups byDay M"
  shows "gm_wf (gm_get byDay day)" and "(sid, xs) \<in> set (gm_get byDay day) \<Longrightarrow> xs \<noteq> []"
proof -
  have "gm_get byDay day = [] \<or> (day, gm_get byDay day) \<in> set byDay"
    by (auto simp: gm_get_def split: option.splits dest: map_of_SomeD)
  then show "gm_wf (gm_get byDay day)" "(sid, xs) \<in> set (gm_get byDay day) \<Longrightarrow> xs \<noteq> []"
    using assms by (auto simp: groups_def)
qed

lemma group_sample_groups:
  assumes g: "groups byDay M"
  shows "groups (group_sample sid byDay sm) (M(sid := M sid @ [sm]))"
proof -
  let ?day = "dayString (Timestamp sm)"
  let ?m = "AList.update sid (gm_get (gm_get byDay ?day) sid @ [sm]) (gm_get byDay ?day)"
  have gs: "group_sample sid byDay sm = AList.update ?day ?m byDay" by (simp add: group_sample_def Let_def)
  have "gm_wf ?m" using groups_day(1)[OF g] by simp
  moreover have "xs \<noteq> []" if "(i, xs) \<in> set ?m" for i xs
    using set_update_cases[OF that] groups_day(2)[OF g] by auto
  ultimately have m: "gm_wf ?m \<and> (\<forall>(i, xs) \<in> set ?m. xs \<noteq> [])" by auto
  have "gm_wf b \<and> (\<forall>(i, xs) \<in> set b. xs \<noteq> [])" if "(d, b) \<in> set (AList.update ?day ?m byDay)" for d b
    using set_update_cases[OF that] m g by (auto simp: groups_def)
  then have "\<forall>(d, b) \<in> set (AList.update ?day ?m byDay). gm_wf b \<and> (\<forall>(i, xs) \<in> set b. xs \<noteq> [])" by blast
  moreover have "gm_get (gm_get (AList.update ?day ?m byDay) d) i = filter (of_day d) ((M(sid := M sid @ [sm])) i)" for d i
    using g by (cases "d = ?day"; cases "i = sid") (auto simp: groups_def of_day_def)
  moreover have "gm_wf (AList.update ?day ?m byDay)" using g by (simp add: groups_def)
  ultimately show ?thesis unfolding gs groups_def by blast
qed

lemma group_series_groups:
  "groups byDay M \<Longrightarrow> groups (foldl (group_sample sid) byDay samples) (M(sid := M sid @ samples))"
proof (induction samples arbitrary: byDay M)
  case (Cons sm samples)
  from Cons.IH[OF group_sample_groups[OF Cons.prems, of sid sm]] show ?case by (simp cong: if_cong)
qed simp

lemma group_by_day_groups:
  assumes "gm_wf mem"
  shows "groups (group_by_day mem) (gm_get mem)"
proof -
  have "gm_wf mem \<Longrightarrow> groups byDay M \<Longrightarrow>
      groups (foldl (\<lambda>byDay (sid, samples). foldl (group_sample sid) byDay samples) byDay mem)
        (\<lambda>sid. M sid @ gm_get mem sid)" for byDay M
  proof (induction mem arbitrary: byDay M)
    case (Cons e mem)
    obtain sid xs where e: "e = (sid, xs)" by (cases e)
    have new: "gm_get mem sid = []"
      using Cons.prems(1) by (simp add: e gm_get_def map_of_eq_None_iff[THEN iffD2])
    have "(\<lambda>i. (M(sid := M sid @ xs)) i @ gm_get mem i) = (\<lambda>i. M i @ gm_get (e # mem) i)"
      using new by (auto simp: e gm_get_def fun_eq_iff)
    with Cons.IH[OF _ group_series_groups[OF Cons.prems(2), of sid xs]] Cons.prems(1) show ?case by (simp add: e)
  qed simp
  from this[OF assms, of "[]" "\<lambda>_. []"] show ?thesis by (simp add: group_by_day_def groups_def)
qed

text \<open>The groups of some of the days are the samples of these days.\<close>

lemma days_samples_filter:
  assumes "distinct (map fst xs)" and "\<And>day data. (day, data) \<in> set xs \<Longrightarrow> gm_get data sid = filter (of_day day) ys"
  shows "days_samples xs sid = filter_mset (\<lambda>sm. dayString (Timestamp sm) \<in> fst ` set xs) (mset ys)"
  using assms
proof (induction xs)
  case (Cons x xs)
  obtain day data where x: "x = (day, data)" by (cases x)
  have "filter_mset (\<lambda>sm. dayString (Timestamp sm) \<in> fst ` set (x # xs)) (mset ys) =
      filter_mset (of_day day) (mset ys) + filter_mset (\<lambda>sm. dayString (Timestamp sm) \<in> fst ` set xs) (mset ys)"
    using Cons.prems(1) by (induction ys) (auto simp: x of_day_def)
  moreover have "gm_get data sid = filter (of_day day) ys" using Cons.prems(2) by (simp add: x)
  moreover have "days_samples xs sid = filter_mset (\<lambda>sm. dayString (Timestamp sm) \<in> fst ` set xs) (mset ys)"
    using Cons by simp
  ultimately show ?case by (simp add: x)
qed (simp add: days_samples_def)

lemma groups_covers:
  assumes "groups byDay M" and "sm \<in> set (M sid)"
  shows "dayString (Timestamp sm) \<in> fst ` set byDay"
proof -
  let ?day = "dayString (Timestamp sm)"
  have "sm \<in> set (gm_get (gm_get byDay ?day) sid)" using assms by (auto simp: groups_def of_day_def)
  then have "gm_get byDay ?day \<noteq> []" by auto
  then show ?thesis using gm_get_empty_iff[of byDay ?day] by force
qed

lemma groups_shuffle: "groups byDay M \<Longrightarrow> groups (shuffle w k byDay) M"
proof -
  assume g: "groups byDay M"
  then have wf: "gm_wf byDay" "gm_wf (shuffle w k byDay)"
    by (auto simp: groups_def) (metis distinct_shuffle mset_eq_imp_distinct_iff mset_map mset_shuffle)
  have "map_of (shuffle w k byDay) = map_of byDay" using wf by (simp add: map_of_inject_set)
  then show ?thesis using g wf by (simp add: groups_def gm_get_def)
qed

lemma shuffle_map:
  assumes "gm_wf m"
  shows "gm_wf (shuffle w k m)" and "gm_get (shuffle w k m) = gm_get m"
proof -
  show wf: "gm_wf (shuffle w k m)" using assms by (metis mset_eq_imp_distinct_iff mset_map mset_shuffle)
  have "map_of (shuffle w k m) = map_of m" using wf assms by (simp add: map_of_inject_set)
  then show "gm_get (shuffle w k m) = gm_get m" by (simp add: gm_get_def fun_eq_iff)
qed

lemma data_room_mono:
  assumes "gm_wf a" and "gm_wf b" and "\<And>k. k \<in> fst ` set a \<Longrightarrow> k \<in> fst ` set b"
    and "\<And>k. length (gm_get a k) \<le> length (gm_get b k)"
  shows "data_room a \<le> data_room b"
proof -
  have room: "data_room m = (\<Sum>k\<in>fst ` set m. block_room (gm_get m k))" if "gm_wf m" for m :: series_data
    using data_room_keys[OF that] sum_list_distinct_conv_sum_set[OF that, of "\<lambda>k. block_room (gm_get m k)"]
    by (metis list.set_map mset_map sum_mset_sum_list)
  have "data_room a \<le> (\<Sum>k\<in>fst ` set a. block_room (gm_get b k))"
    unfolding room[OF assms(1)] using assms(4) by (intro sum_mono) (simp add: block_room_def)
  also have "\<dots> \<le> data_room b"
    unfolding room[OF assms(2)] using assms(3) by (intro sum_mono2) auto
  finally show ?thesis .
qed

section \<open>Entries waiting to be saved\<close>

lemma registry_inv_pending:
  assumes "registry_inv g r pend" and "gm_wf q" and "\<And>i ls. map_of q i = Some ls \<Longrightarrow> map_of (names r) i = Some ls"
  shows "registry_inv g (r\<lparr>pending := q\<rparr>) pend"
proof -
  have "inv_ids (r\<lparr>pending := q\<rparr>) = inv_ids r" by (rule inv_ids_cong) simp
  then have "registry_ok (r\<lparr>pending := q\<rparr>)" "index_reflects (r\<lparr>pending := q\<rparr>) (g_pairs g)"
    using registry_invD(1,2)[OF assms(1)] assms(2,3) by (simp_all add: registry_ok_def index_reflects_def)
  then show ?thesis using assms(1) by (simp add: registry_inv_def)
qed

lemma pending_named:
  "registry_ok r \<Longrightarrow> map_of (pending r) i = Some ls \<Longrightarrow> map_of (names r) i = Some ls"
  "registry_ok r \<Longrightarrow> gm_wf (pending r)"
  by (simp_all add: registry_ok_def)

lemma DrainPending_eq: "DrainPending r = (pending r, r\<lparr>pending := []\<rparr>)"
  by (cases r) (simp add: DrainPending_def)

lemma TrackPending_eq:
  assumes "registry_ok r"
  shows "\<exists>q. TrackPending (r\<lparr>pending := []\<rparr>) (pending r) = r\<lparr>pending := q\<rparr> \<and> gm_wf q \<and> map_of q = map_of (pending r)"
proof -
  let ?q = "pending (TrackPending (r\<lparr>pending := []\<rparr>) (pending r))"
  have "gm_wf (foldl (\<lambda>p (sid, labels). AList.update sid labels p) q es)"
    if "gm_wf q" for q es :: "(uint64, Label list) gomap"
    using that by (induction es arbitrary: q) auto
  then have "gm_wf ?q" by (simp add: TrackPending_def)
  moreover have "map_of ?q = map_of (pending r)" using Drain_Track_pending[OF assms DrainPending_eq] .
  moreover have "TrackPending (r\<lparr>pending := []\<rparr>) (pending r) = r\<lparr>pending := ?q\<rparr>" by (simp add: TrackPending_def)
  ultimately show ?thesis by blast
qed

lemma saveRegistry_step:
  assumes inv: "core_inv (w_fs w) s g (map_of pend)" and wf: "gm_wf pend"
    and sub: "\<And>i ls. map_of pend i = Some ls \<Longrightarrow> map_of (names (s_registry s)) i = Some ls"
    and room: "seg_room (g_fwd g)" and run: "saveRegistrySegment s pend w = (r, w')"
  obtains S' where "env_same w w'" and "touches (indexdb_dir (s_path s)) (w_fs w) (w_fs w')"
    and "(r = Inl ErrIO \<and> \<not> healthy w \<and> core_inv (w_fs w') s g (map_of pend)) \<or>
      (r = Inr () \<and> core_inv (w_fs w') s (g\<lparr>g_fwd := S'\<rparr>) Map.empty)"
proof -
  note I = core_invD[OF inv]
  note R = registry_invD[OF I(4)]
  let ?dir = "indexdb_dir (s_path s)"
  note sd = index_dirsD(1)[OF I(3)]
  have ok: "list_all record_ok (sorted_entries pend)" by (rule records_ok[OF wf], rule R(3), erule sub)
  obtain r1 w1 where ap: "appendIndexSegment ?dir pend w = (r1, w1)" by fastforce
  have r: "r = (case r1 of Inl e \<Rightarrow> Inl e | Inr _ \<Rightarrow> Inr ())" "w' = w1"
    using run ap by (auto simp: saveRegistrySegment_def io_bind_def io_return_def split: sum.splits)
  note o1 = appendIndexSegment_outcome[OF sd _ room ok ap, simplified]
  have t: "touches ?dir (w_fs w) (w_fs w1)" by (rule appendIndexSegment_touches[OF sd _ room ok ap]) simp
  have idx: "index_dirs (w_fs w1) (s_path s) (g\<lparr>g_fwd := S'\<rparr>)" if "seg_dir (w_fs w1) ?dir S'" for S'
    using that I(3) frame_seg_dir[OF t apart_dirs(8)] by (simp add: index_dirs_def)
  have core: "core_inv (w_fs w1) s (g\<lparr>g_fwd := S'\<rparr>) q"
    if "seg_dir (w_fs w1) ?dir S'" "registry_inv (g\<lparr>g_fwd := S'\<rparr>) (s_registry s) q" for S' q
    using core_inv_index[OF inv t apart_dirs(6) _ idx[OF that(1)] that(2)] by simp
  show thesis
  proof (cases r1)
    case (Inl e)
    then have "r1 = Inl ErrIO" "\<not> healthy w" "seg_dir (w_fs w1) ?dir (g_fwd g)" using o1(3) by auto
    then show thesis
      using that[of "g_fwd g"] core[of "g_fwd g"] I(4) o1(1) t r by simp
  next
    case (Inr nm)
    then have sg: "if pend = [] then seg_dir (w_fs w1) ?dir (g_fwd g)
         else \<exists>n. g_fwd g n = None \<and> seg_dir (w_fs w1) ?dir ((g_fwd g)(n \<mapsto> sorted_entries pend))"
      using o1(3) by blast
    obtain S' where S': "seg_dir (w_fs w1) ?dir S'" "seg_records S' = seg_records (g_fwd g) \<union> set pend"
    proof (cases "pend = []")
      case True
      then show thesis using that[of "g_fwd g"] sg by simp
    next
      case False
      then obtain n where n: "g_fwd g n = None" "seg_dir (w_fs w1) ?dir ((g_fwd g)(n \<mapsto> sorted_entries pend))"
        using sg by auto
      then show thesis
        using that[of "(g_fwd g)(n \<mapsto> sorted_entries pend)"] seg_records_new[where S = "g_fwd g" and n = n]
        by (simp add: set_sorted_entries[OF wf])
    qed
    have fwd: "map_of (names (s_registry s)) i = Some ls" if "(i, ls) \<in> seg_records S'" for i ls
    proof -
      from that consider "(i, ls) \<in> seg_records (g_fwd g)" | "map_of pend i = Some ls"
        using S'(2) set_entries[OF wf, of i ls] by blast
      then show ?thesis using R(4) sub by cases
    qed
    have all: "(i, ls) \<in> seg_records S'" if "map_of (names (s_registry s)) i = Some ls" for i ls
      using R(5)[OF that] S'(2) set_entries[OF wf, of i ls] by blast
    have "registry_inv (g\<lparr>g_fwd := S'\<rparr>) (s_registry s) Map.empty"
    proof (rule registry_invI[OF R(1) _ R(3)])
      show "index_reflects (s_registry s) (g_pairs (g\<lparr>g_fwd := S'\<rparr>))" using R(2) by simp
      show "map_of (names (s_registry s)) i = Some ls" if "(i, ls) \<in> seg_records (g_fwd (g\<lparr>g_fwd := S'\<rparr>))" for i ls
        using that by (intro fwd) simp
    qed (use all R(6,7) in auto)
    then show thesis using that[of S'] core[OF S'(1)] o1(1) t r Inr by simp
  qed
qed

end
