(* ===== verification/FlushOutcome.thy ===== *)
theory FlushOutcome
  imports FlushTop
begin

text \<open>
  What a flush does to the samples and names a storage handle holds, whatever system calls fail.
\<close>

section \<open>The outcome of a flush\<close>

text \<open>
  Room for a flush: part and segment numbers below their limits, buffer and open partitions
  small enough that no block offset wraps.
\<close>

definition flush_room :: "storage \<Rightarrow> ghost \<Rightarrow> bool" where
  "flush_room s g \<longleftrightarrow>
     data_room (s_mem s) \<le> 2 ^ 48 \<and> seg_room (g_fwd g) \<and> (\<forall>day. seg_room (g_inv g day)) \<and>
     (\<forall>day p. map_of (s_partitions s) day = Some p \<longrightarrow>
        p_nextID p \<le> 2 ^ 62 \<and> room_of (g_parts g day) (p_parts p) + data_room (s_mem s) \<le> 2 ^ 48)"

text \<open>
  A flush that succeeds moves the buffer to disk. A flush that fails has moved some days
  (\<open>saved\<close>), has the samples of the day that failed in the buffer again (\<open>lost\<close> says what is in
  neither place), or it has failed before the first day and changed nothing.
\<close>

definition flushed :: "storage \<Rightarrow> ghost \<Rightarrow> storage \<Rightarrow> ghost \<Rightarrow> bool" where
  "flushed s g s' g' \<longleftrightarrow>
     (\<forall>sid. gm_get (s_mem s') sid = [] \<and> disk_samples s' g' sid = contents s g sid)"

definition flush_refused :: "storage \<Rightarrow> ghost \<Rightarrow> storage \<Rightarrow> ghost \<Rightarrow> bool" where
  "flush_refused s g s' g' \<longleftrightarrow>
     (\<forall>sid. gm_get (s_mem s') sid = gm_get (s_mem s) sid \<and> disk_samples s' g' sid = disk_samples s g sid)"

definition flush_cut ::
  "string set \<Rightarrow> string \<Rightarrow> bool \<Rightarrow> storage \<Rightarrow> ghost \<Rightarrow> storage \<Rightarrow> ghost \<Rightarrow> bool" where
  "flush_cut saved day dup s g s' g' \<longleftrightarrow> day \<notin> saved \<and>
     (\<forall>sid. mset (gm_get (s_mem s') sid) = filter_mset (of_day day) (mset (gm_get (s_mem s) sid)) \<and>
        disk_samples s' g' sid = disk_samples s g sid +
          filter_mset (\<lambda>sm. dayString (Timestamp sm) \<in> saved) (mset (gm_get (s_mem s) sid)) +
          (if dup then filter_mset (of_day day) (mset (gm_get (s_mem s) sid)) else {#}))"

lemma groups_entry:
  assumes "groups byDay M" and "(day, data) \<in> set byDay"
  shows "gm_wf data" and "gm_get data sid = filter (of_day day) (M sid)"
    and "sid \<in> fst ` set data \<Longrightarrow> \<exists>sm \<in> set (M sid). of_day day sm"
proof -
  have e: "gm_get byDay day = data" using assms by (intro gm_get_entry) (auto simp: groups_def)
  show "gm_wf data" using assms by (auto simp: groups_def)
  show get: "gm_get data sid = filter (of_day day) (M sid)" for sid
    using assms(1) e by (auto simp: groups_def)
  assume "sid \<in> fst ` set data"
  then obtain xs where xs: "(sid, xs) \<in> set data" by auto
  then have "xs \<noteq> []" using groups_day(2)[OF assms(1), of sid xs day] e by simp
  moreover have "gm_get data sid = xs" using xs \<open>gm_wf data\<close> by (intro gm_get_entry)
  ultimately have "filter (of_day day) (M sid) \<noteq> []" using get by simp
  then show "\<exists>sm \<in> set (M sid). of_day day sm" by (auto simp: filter_empty_conv)
qed

lemma groups_ready:
  assumes inv: "core_inv fs s g pend" and room: "flush_room s g" and gr: "groups byDay (gm_get (s_mem s))"
    and e: "(day, data) \<in> set byDay"
  shows "day_ready s g day data"
proof -
  note E = groups_entry[OF gr e]
  have pairs: "(day, sid) \<in> g_pairs g" if "sid \<in> fst ` set data" for sid
    using E(3)[OF that] core_invD(7)[OF inv] by (auto simp: of_day_def)
  have "data_room data \<le> data_room (s_mem s)"
  proof (rule data_room_mono[OF E(1) core_invD(5)[OF inv]])
    fix k
    show "length (gm_get data k) \<le> length (gm_get (s_mem s) k)" by (simp add: E(2))
    assume "k \<in> fst ` set data"
    then have "gm_get (s_mem s) k \<noteq> []" using E(3) by fastforce
    then show "k \<in> fst ` set (s_mem s)" using gm_get_empty_iff[of "s_mem s" k] by force
  qed
  then show ?thesis
    using room E(1,2) pairs by (fastforce simp: day_ready_def day_fits_def flush_room_def)
qed

lemma flush_days_groups:
  assumes gr: "groups days (gm_get mem)" and out: "days_outcome r s g s' g' days"
    and s: "s_mem s = []"
  shows "r = Inr () \<and> (\<forall>sid. gm_get (s_mem s') sid = [] \<and> disk_samples s' g' sid = disk_samples s g sid + mset (gm_get mem sid)) \<or>
    (r \<noteq> Inr () \<and> (\<exists>saved day dup. day \<notin> saved \<and>
     (\<forall>sid. mset (gm_get (s_mem s') sid) = filter_mset (of_day day) (mset (gm_get mem sid)) \<and>
        disk_samples s' g' sid = disk_samples s g sid +
          filter_mset (\<lambda>sm. dayString (Timestamp sm) \<in> saved) (mset (gm_get mem sid)) +
          (if dup then filter_mset (of_day day) (mset (gm_get mem sid)) else {#}))))"
  using out unfolding days_outcome_def
proof (elim disjE exE conjE)
  have dist: "distinct (map fst days)" using gr by (simp add: groups_def)
  have of: "days_samples xs sid = filter_mset (\<lambda>sm. dayString (Timestamp sm) \<in> fst ` set xs) (mset (gm_get mem sid))"
    if "set xs \<subseteq> set days" "distinct (map fst xs)" for xs sid
    by (rule days_samples_filter[OF that(2)]) (use groups_entry(2)[OF gr] that(1) in blast)
  {
    assume r: "r = Inr ()"
      and all: "\<forall>sid. mset (gm_get (s_mem s') sid) = mset (gm_get (s_mem s) sid) \<and>
        disk_samples s' g' sid = disk_samples s g sid + days_samples days sid"
    have "days_samples days sid = mset (gm_get mem sid)" for sid
      unfolding of[OF order_refl dist] using groups_covers[OF gr, of _ sid] by (intro filter_mset_eq_conv[THEN iffD2]) auto
    then show ?thesis using r all s by simp
  }
  fix done1 day data rest dup
  assume r: "r \<noteq> Inr ()" and days: "days = done1 @ (day, data) # rest"
    and all: "\<forall>sid. mset (gm_get (s_mem s') sid) = mset (gm_get (s_mem s) sid) + mset (gm_get data sid) \<and>
          disk_samples s' g' sid = disk_samples s g sid + days_samples done1 sid +
            (if dup then mset (gm_get data sid) else {#})"
  have data: "mset (gm_get data sid) = filter_mset (of_day day) (mset (gm_get mem sid))" for sid
    using groups_entry(2)[OF gr, of day data sid] days by simp
  have ds: "days_samples done1 sid = filter_mset (\<lambda>sm. dayString (Timestamp sm) \<in> fst ` set done1) (mset (gm_get mem sid))" for sid
    by (rule of) (use days dist in auto)
  have new: "day \<notin> fst ` set done1" using dist days by auto
  show ?thesis using new all r s by (intro disjI2 conjI exI[of _ "fst ` set done1"] exI[of _ day] exI[of _ dup]) (simp_all add: data ds)
qed

lemma core_inv_registry:
  assumes "core_inv fs s g pend" and "registry_inv g r q" and "persisted r = persisted (s_registry s)"
  shows "core_inv fs (s\<lparr>s_registry := r\<rparr>) g q"
proof -
  have "samples_indexed r day M = samples_indexed (s_registry s) day M" for day M
    using assms(3) by (simp add: samples_indexed_def)
  then show ?thesis using assms(1,2) by (simp add: core_inv_def)
qed

text \<open>The forward segment could not be written: the entries wait again, the buffer is back.\<close>

lemma flush_restored:
  assumes inv: "core_inv fs (s\<lparr>s_mem := [], s_registry := (s_registry s)\<lparr>pending := []\<rparr>\<rparr>) g (map_of (pending (s_registry s)))"
    and ok: "registry_inv g (s_registry s) (map_of (pending (s_registry s)))" and wf: "gm_wf (s_mem s)"
    and mem: "\<And>sid sm. sm \<in> set (gm_get (s_mem s) sid) \<Longrightarrow> (dayString (Timestamp sm), sid) \<in> g_pairs g"
    and s': "s' = restoreMem (s\<lparr>s_mem := [],
      s_registry := TrackPending ((s_registry s)\<lparr>pending := []\<rparr>) (pending (s_registry s))\<rparr>) (s_mem s)"
  shows "storage_inv fs s' g" and "flush_refused s g s' g" and "s_path s' = s_path s"
    and "names (s_registry s') = names (s_registry s)"
proof -
  obtain q where q: "TrackPending ((s_registry s)\<lparr>pending := []\<rparr>) (pending (s_registry s)) = (s_registry s)\<lparr>pending := q\<rparr>"
    and wq: "gm_wf q" "map_of q = map_of (pending (s_registry s))"
    using TrackPending_eq[OF registry_invD(1)[OF ok]] by blast
  note m = merge_into_props[OF wf, of "[]"]
  have get: "gm_get (merge_into [] (s_mem s)) sid = gm_get (s_mem s) sid" for sid using m by simp
  have reg: "registry_inv g ((s_registry s)\<lparr>pending := q\<rparr>) (map_of (pending (s_registry s)))"
    by (rule registry_inv_pending[OF ok wq(1)]) (use wq(2) pending_named(1)[OF registry_invD(1)[OF ok]] in simp)
  have "core_inv fs (s\<lparr>s_mem := [], s_registry := (s_registry s)\<lparr>pending := q\<rparr>\<rparr>) g (map_of (pending (s_registry s)))"
    using core_inv_registry[OF inv reg] by simp
  from core_inv_mem[OF this, of "merge_into [] (s_mem s)"]
  show "storage_inv fs s' g" using m mem get by (simp add: s' q restoreMem_def storage_inv_def wq(2))
  show "flush_refused s g s' g"
    using get by (simp add: flush_refused_def s' q restoreMem_def disk_samples_def)
  show "s_path s' = s_path s" "names (s_registry s') = names (s_registry s)" by (simp_all add: s' q restoreMem_def)
qed

lemma shuffle_empty: "shuffle w k [] = []"
  using length_shuffle[of w k "[]"] by (simp only: list.size length_0_conv)

theorem Flush_outcome:
  assumes inv: "storage_inv (w_fs w) s g" and room: "flush_room s g" and run: "Flush s w = (r, s', w')"
  obtains g' where "storage_inv (w_fs w') s' g'" and "env_same w w'" and "s_path s' = s_path s"
    and "names (s_registry s') = names (s_registry s)" and "g_pairs g' = g_pairs g"
    and "(r = Inr () \<and> flushed s g s' g' \<and> pending (s_registry s') = [] \<and>
          (all_synced (w_fs w) s \<longrightarrow> all_synced (w_fs w') s')) \<or>
      (r = Inl ErrIO \<and> \<not> healthy w \<and> flush_refused s g s' g') \<or>
      (r \<noteq> Inr () \<and> (\<exists>saved day dup. flush_cut saved day dup s g s' g'))"
proof -
  let ?reg = "(s_registry s)\<lparr>pending := []\<rparr>" and ?pend = "pending (s_registry s)"
  let ?s = "s\<lparr>s_mem := [], s_registry := ?reg\<rparr>"
  note I = core_invD[OF inv[unfolded storage_inv_def]]
  note ok = registry_invD(1)[OF I(4)]
  have reg: "registry_inv g ?reg (map_of ?pend)" by (rule registry_inv_pending[OF I(4)]) simp_all
  have "core_inv (w_fs w) (s\<lparr>s_registry := ?reg\<rparr>) g (map_of ?pend)"
    by (rule core_inv_registry[OF inv[unfolded storage_inv_def] reg]) simp
  from core_inv_mem[OF this, of "[]"] have inv1: "core_inv (w_fs w) ?s g (map_of ?pend)"
    by (cases s) simp
  obtain r1 w1 where sv: "saveRegistrySegment ?s ?pend w = (r1, w1)" by fastforce
  obtain S' where e1: "env_same w w1" and t1: "touches (indexdb_dir (s_path s)) (w_fs w) (w_fs w1)"
    and c1: "(r1 = Inl ErrIO \<and> \<not> healthy w \<and> core_inv (w_fs w1) ?s g (map_of ?pend)) \<or>
      (r1 = Inr () \<and> core_inv (w_fs w1) ?s (g\<lparr>g_fwd := S'\<rparr>) Map.empty)"
    using saveRegistry_step[OF inv1 pending_named(2)[OF ok] _ _ sv] pending_named(1)[OF ok] room
    by (auto simp: flush_room_def)
  have dr: "DrainPending (s_registry s) = (?pend, ?reg)" by (rule DrainPending_eq)
  show thesis
  proof (cases "r1 = Inr ()")
    case False
    then have c: "r1 = Inl ErrIO" "\<not> healthy w" "core_inv (w_fs w1) ?s g (map_of ?pend)" using c1 by auto
    then have e: "r = Inl ErrIO" "w' = w1"
      "s' = restoreMem (s\<lparr>s_mem := [], s_registry := TrackPending ?reg ?pend\<rparr>) (s_mem s)"
      using run sv by (simp_all add: Flush_def dr)
    note f = flush_restored[OF c(3) I(4,5,7) e(3)]
    show thesis by (rule that[of g]) (use f e1 e c in simp_all)
  next
    case True
    let ?g = "g\<lparr>g_fwd := S'\<rparr>"
    have inv2: "core_inv (w_fs w1) ?s ?g Map.empty" using c1 True by auto
    let ?days = "shuffle w1 1 (group_by_day (shuffle w1 0 (s_mem s)))"
    have "groups ?days (gm_get (shuffle w1 0 (s_mem s)))"
      by (rule groups_shuffle[OF group_by_day_groups[OF shuffle_map(1)[OF I(5)]]])
    then have gr: "groups ?days (gm_get (s_mem s))" by (simp only: shuffle_map(2)[OF I(5)])
    have run2: "flush_days ?s ?days w1 = (r, s', w')"
    proof (cases "s_mem s = []")
      case True
      then have "?days = []" by (simp add: shuffle_empty group_by_day_def)
      then show ?thesis using run sv \<open>r1 = Inr ()\<close> True by (simp add: Flush_def dr Let_def)
    next
      case False
      then show ?thesis using run sv True by (simp add: Flush_def dr Let_def)
    qed
    have "day_ready ?s ?g day data" if "(day, data) \<in> set ?days" for day data
      using groups_ready[OF inv[unfolded storage_inv_def] room gr that] by (simp add: day_ready_def day_fits_def)
    then have rdy: "\<forall>(day, data) \<in> set ?days. day_ready ?s ?g day data" by blast
    have dist: "distinct (map fst ?days)" using gr by (simp add: groups_def)
    obtain g' where g': "core_inv (w_fs w') s' g' Map.empty" "env_same w1 w'" "same_but (fst ` set ?days) ?s ?g s' g'"
      and out: "days_outcome r ?s ?g s' g' ?days"
      and syn: "r = Inr () \<longrightarrow> all_synced (w_fs w1) ?s \<longrightarrow> all_synced (w_fs w') s'"
      using flush_days_outcome[OF inv2 dist rdy run2] by blast
    have same: "pending (s_registry s') = []" "names (s_registry s') = names (s_registry s)" "s_path s' = s_path s"
      "g_pairs g' = g_pairs g" using g'(3) by (simp_all add: same_but_def)
    have ds: "disk_samples ?s ?g sid = disk_samples s g sid" for sid by (simp add: disk_samples_def)
    have "synced (w_fs w1) p" if "map_of (s_partitions s) day = Some p" "synced (w_fs w) p" for day p
    proof (rule frame_partition(3)[OF t1 _ that(2)])
      show "apart (indexdb_dir (s_path s)) (p_dir p)"
        by (simp only: partition_stateD(2)[OF I(8)[OF that(1)]] apart_dirs)
    qed
    then have syn1: "all_synced (w_fs w) s \<longrightarrow> all_synced (w_fs w1) ?s" by (simp add: all_synced_def)
    have "storage_inv (w_fs w') s' g'" using g'(1) same(1) by (simp add: storage_inv_def)
    moreover have "(r = Inr () \<and> flushed s g s' g') \<or> (r \<noteq> Inr () \<and> (\<exists>saved day dup. flush_cut saved day dup s g s' g'))"
      using flush_days_groups[OF gr out] by (simp add: flushed_def flush_cut_def contents_def ds add.commute)
    ultimately show thesis
      using that[of g'] env_same_trans[OF e1 g'(2)] same syn syn1 by blast
  qed
qed

end
