(* ===== verification/StorageOps.thy ===== *)
theory StorageOps
  imports FlushOutcome
begin

text \<open>
  The other operations of a storage handle on the invariant and on the samples it holds:
  \<open>Append\<close>, \<open>ForceMerge\<close>, and a handle on a new directory.
\<close>

section \<open>Appending\<close>

lemma labels_fit_sorted: "labels_fit ls \<Longrightarrow> labels_fit (sortedLabels ls)"
  by (simp add: labels_fit_def list_all_iff sortedLabels_def)

lemma resolve_step:
  assumes inv: "registry_inv g r (map_of (pending r))" and fit: "labels_fit ls" and room: "nextID r + 1 \<noteq> 0"
    and run: "Resolve r ls = (i, r')"
  shows "registry_inv g r' (map_of (pending r'))" and "map_of (names r) \<subseteq>\<^sub>m map_of (names r')"
    and "persisted r' = persisted r" and "\<exists>ls'. map_of (names r') i = Some ls' \<and> CanonicalKey ls' = CanonicalKey ls"
proof -
  note R = registry_invD[OF inv]
  note ok' = Resolve_ok[OF R(1) run room] and ix' = Resolve_reflects[OF R(2,1) run]
  show "\<exists>ls'. map_of (names r') i = Some ls' \<and> CanonicalKey ls' = CanonicalKey ls"
    by (rule registry_ok_byKey[OF ok' Resolve_byKey[OF run]])
  have new: "map_of (names r) (nextID r) = None" using R(1) by (rule registry_ok_fresh)
  from run have "r' = r \<or> i = nextID r \<and> persisted r' = persisted r \<and>
      map_of (names r') = (map_of (names r))(i \<mapsto> sortedLabels ls) \<and>
      map_of (pending r') = (map_of (pending r))(i \<mapsto> sortedLabels ls)"
    by (cases rule: Resolve_cases) (auto simp: update_conv' fun_eq_iff)
  then consider "r' = r" | (fresh) "i = nextID r" "persisted r' = persisted r"
      "map_of (names r') = (map_of (names r))(i \<mapsto> sortedLabels ls)"
      "map_of (pending r') = (map_of (pending r))(i \<mapsto> sortedLabels ls)" by blast
  then have "registry_inv g r' (map_of (pending r')) \<and> map_of (names r) \<subseteq>\<^sub>m map_of (names r') \<and>
      persisted r' = persisted r"
  proof cases
    case fresh
    have sub: "map_of (names r) \<subseteq>\<^sub>m map_of (names r')" using new fresh(1,3) by (auto simp: map_le_def)
    have keep: "map_of (names r') j = Some l" if "map_of (names r) j = Some l" for j l
      using that new fresh(1,3) by auto
    have "registry_inv g r' (map_of (pending r'))"
    proof (rule registry_invI[OF ok' ix'])
      show "labels_fit l" if "map_of (names r') j = Some l" for j l
        using that R(3)[of j l] labels_fit_sorted[OF fit] fresh(3) by (auto split: if_splits)
      show "map_of (names r') j = Some l" if "(j, l) \<in> seg_records (g_fwd g)" for j l
        by (rule keep[OF R(4)[OF that]])
      show "(j, l) \<in> seg_records (g_fwd g) \<or> map_of (pending r') j = Some l" if "map_of (names r') j = Some l" for j l
        using that R(5)[of j l] fresh(3,4) by (auto split: if_splits)
      show "map_of (names r') j = Some l \<and> (d, j) \<in> g_pairs g" if "(j, l) \<in> seg_records (g_inv g d)" for j l d
        using R(6)[OF that] keep by blast
      show "\<exists>l. (j, l) \<in> seg_records (g_inv g d)" if "j \<in> set (gm_get (persisted r') d)" for j d
        by (rule R(7)) (use that fresh(2) in simp)
    qed
    then show ?thesis using sub fresh(2) by blast
  qed (use inv in simp)
  then show "registry_inv g r' (map_of (pending r'))" "map_of (names r) \<subseteq>\<^sub>m map_of (names r')"
    "persisted r' = persisted r" by blast+
qed

lemma IndexForDay_frame [simp]:
  "names (IndexForDay r day i) = names r" "pending (IndexForDay r day i) = pending r"
  "persisted (IndexForDay r day i) = persisted r" "nextID (IndexForDay r day i) = nextID r"
  "byKey (IndexForDay r day i) = byKey r"
  by (simp_all add: IndexForDay_def)

lemma registry_inv_index:
  assumes inv: "registry_inv g r pend" and nm: "map_of (names r) i = Some ls"
  shows "registry_inv (g\<lparr>g_pairs := insert (day, i) (g_pairs g)\<rparr>) (IndexForDay r day i) pend"
proof -
  note R = registry_invD[OF inv]
  have "registry_ok (IndexForDay r day i)" using R(1) by (simp add: registry_ok_def)
  moreover have "index_reflects (IndexForDay r day i) (g_pairs (g\<lparr>g_pairs := insert (day, i) (g_pairs g)\<rparr>))"
    using IndexForDay_reflects[OF R(2) nm] by simp
  ultimately show ?thesis using R(3-7) by (intro registry_invI) auto
qed

lemma registry_inv_index_days:
  assumes "registry_inv g r pend" and "map_of (names r) i = Some ls"
  shows "registry_inv (g\<lparr>g_pairs := (\<lambda>day. (day, i)) ` set days \<union> g_pairs g\<rparr>)
      (foldl (\<lambda>r day. IndexForDay r day i) r days) pend \<and>
    names (foldl (\<lambda>r day. IndexForDay r day i) r days) = names r \<and>
    pending (foldl (\<lambda>r day. IndexForDay r day i) r days) = pending r \<and>
    persisted (foldl (\<lambda>r day. IndexForDay r day i) r days) = persisted r"
  using assms
proof (induction days arbitrary: g r)
  case (Cons day days)
  have "registry_inv (g\<lparr>g_pairs := insert (day, i) (g_pairs g)\<rparr>) (IndexForDay r day i) pend"
    by (rule registry_inv_index[OF Cons.prems])
  from Cons.IH[OF this] Cons.prems(2) show ?case by simp
qed simp

theorem Append_step:
  assumes inv: "storage_inv fs s g" and fit: "labels_fit labels" and room: "nextID (s_registry s) + 1 \<noteq> 0"
    and ne: "samples \<noteq> []" and run: "Append s labels samples = (sid, s')"
  obtains g' where "storage_inv fs s' g'" and "s_path s' = s_path s" and "s_partitions s' = s_partitions s"
    and "map_of (names (s_registry s)) \<subseteq>\<^sub>m map_of (names (s_registry s'))"
    and "\<exists>ls. map_of (names (s_registry s')) sid = Some ls \<and> CanonicalKey ls = CanonicalKey labels"
    and "\<forall>i. gm_get (s_mem s') i = gm_get (s_mem s) i @ (if i = sid then samples else [])"
    and "\<forall>i. disk_samples s' g' i = disk_samples s g i"
    and "g_pairs g' = (\<lambda>sm. (dayString (Timestamp sm), sid)) ` set samples \<union> g_pairs g"
    and "g_parts g' = g_parts g" and "g_fwd g' = g_fwd g" and "g_inv g' = g_inv g"
proof -
  note I = core_invD[OF inv[unfolded storage_inv_def]]
  obtain r1 where res: "Resolve (s_registry s) labels = (sid, r1)"
    using run ne by (auto simp: Append_def Let_def split: prod.splits)
  let ?r = "foldl (\<lambda>r day. IndexForDay r day sid) r1 (sample_days samples)"
  let ?g = "g\<lparr>g_pairs := (\<lambda>day. (day, sid)) ` set (sample_days samples) \<union> g_pairs g\<rparr>"
  let ?m = "AList.update sid (gm_get (s_mem s) sid @ samples) (s_mem s)"
  have s': "s' = s\<lparr>s_registry := ?r, s_mem := ?m\<rparr>" using run ne res by (simp add: Append_def)
  note st = resolve_step[OF I(4) fit room res]
  from st(4) obtain ls where ls: "map_of (names r1) sid = Some ls" "CanonicalKey ls = CanonicalKey labels" by blast
  have ix: "registry_inv ?g ?r (map_of (pending r1))" "names ?r = names r1" "pending ?r = pending r1" "persisted ?r = persisted r1"
    using registry_inv_index_days[OF st(1) ls(1)] by blast+
  have pairs: "(\<lambda>day. (day, sid)) ` set (sample_days samples) = (\<lambda>sm. (dayString (Timestamp sm), sid)) ` set samples"
    by (auto simp: sample_days_def)
  have mem: "gm_get ?m i = gm_get (s_mem s) i @ (if i = sid then samples else [])" for i
    by (cases "i = sid") simp_all
  have "core_inv fs s' ?g (map_of (pending r1))"
    unfolding core_inv_def
  proof (intro conjI allI impI ballI)
    fix i sm assume "sm \<in> set (gm_get (s_mem s') i)"
    then show "(dayString (Timestamp sm), i) \<in> g_pairs ?g"
      using I(7)[of sm i] by (auto simp: s' mem pairs split: if_splits)
  next
    fix day p assume p: "map_of (s_partitions s') day = Some p"
    then show "partition_state fs (s_path s') day p (g_parts ?g day)" using I(8)[of day p] by (simp add: s')
    show "samples_indexed (s_registry s') day (samples_in (g_parts ?g day) (p_parts p))"
      using p I(9)[of day p] st(3) ix(4) by (simp add: s' samples_indexed_def)
  qed (use I(1-3,5,6,10) ix(1) in \<open>simp_all add: s' index_dirs_def\<close>)
  then have "storage_inv fs s' ?g" by (simp add: storage_inv_def s' ix(3))
  then show thesis
    by (rule that) (use st(2) ls ix(2) mem pairs in \<open>simp_all add: s' disk_samples_def\<close>)
qed

section \<open>Merging on demand\<close>

definition merge_room :: "storage \<Rightarrow> ghost \<Rightarrow> bool" where
  "merge_room s g \<longleftrightarrow> (\<forall>day p. map_of (s_partitions s) day = Some p \<longrightarrow>
     p_nextID p < 2 ^ 63 - 1 \<and> room_of (g_parts g day) (p_parts p) \<le> 2 ^ 48)"

lemma merge_all_step:
  assumes "core_inv (w_fs w) s g pend" and "gm_wf ps"
    and "\<forall>(day, p) \<in> set ps. map_of (s_partitions s) day = Some p \<and>
      p_nextID p < 2 ^ 63 - 1 \<and> room_of (g_parts g day) (p_parts p) \<le> 2 ^ 48"
    and "merge_all s ps w = (r, s', w')"
  shows "\<exists>g'. core_inv (w_fs w') s' g' pend \<and> env_same w w' \<and> s' = s\<lparr>s_partitions := s_partitions s'\<rparr> \<and>
    (\<forall>sid. disk_samples s' g' sid = disk_samples s g sid) \<and> (\<forall>e. r = Inl e \<longrightarrow> \<not> is_panic e) \<and>
    g_pairs g' = g_pairs g \<and> g_fwd g' = g_fwd g \<and> g_inv g' = g_inv g \<and>
    (all_synced (w_fs w) s \<longrightarrow> all_synced (w_fs w') s')"
  using assms
proof (induction s ps w arbitrary: g rule: merge_all.induct)
  case (1 s w)
  then show ?case by (intro exI[of _ g]) auto
next
  case (2 s day p rest w)
  note inv = "2.prems"(1)
  have p: "map_of (s_partitions s) day = Some p" "p_nextID p < 2 ^ 63 - 1" "room_of (g_parts g day) (p_parts p) \<le> 2 ^ 48"
    using "2.prems"(3) by auto
  obtain r1 p1 w1 where cp: "compactPartition p 2 w = (r1, p1, w1)" by (metis prod_cases3)
  obtain D' where D': "core_inv (w_fs w1) (put_partition day p1 s) (g\<lparr>g_parts := (g_parts g)(day := D')\<rparr>) pend"
    and c: "env_same w w1" "touches (day_dir (s_path s) day) (w_fs w) (w_fs w1)" "\<forall>e. r1 = Inl e \<longrightarrow> \<not> is_panic e"
      "\<forall>sid. samples_in D' (p_parts p1) sid = samples_in (g_parts g day) (p_parts p) sid"
      "synced (w_fs w) p \<longrightarrow> synced (w_fs w1) p1"
    by (rule compact_step[OF inv p cp])
  let ?s = "put_partition day p1 s" and ?g = "g\<lparr>g_parts := (g_parts g)(day := D')\<rparr>"
  have ds: "disk_samples ?s ?g sid = disk_samples s g sid" for sid
    using disk_samples_replace[OF core_invD(6)[OF inv] p(1), of p1 g D' sid] c(4) by simp
  have syn: "all_synced (w_fs w1) ?s" if a: "all_synced (w_fs w) s"
    unfolding all_synced_def
  proof (intro allI impI)
    fix d q assume q: "map_of (s_partitions ?s) d = Some q"
    show "synced (w_fs w1) q"
    proof (cases "d = day")
      case True
      then show ?thesis using q a p(1) c(5) by (simp add: all_synced_def)
    next
      case False
      then have q0: "map_of (s_partitions s) d = Some q" using q by simp
      then have dir: "p_dir q = day_dir (s_path s) d" and sy: "synced (w_fs w) q"
        using partition_stateD(2)[OF core_invD(8)[OF inv q0]] a by (auto simp: all_synced_def)
      show ?thesis
        by (rule frame_partition(3)[OF c(2) _ sy]) (use dir apart_dirs(1) False in metis)
    qed
  qed
  have upd: "?s = s\<lparr>s_partitions := s_partitions ?s\<rparr>" by (simp add: put_partition_def)
  show ?case
  proof (cases r1)
    case (Inl e)
    then have "r = Inl e" "s' = ?s" "w' = w1" using "2.prems"(4) cp by simp_all
    then show ?thesis using D' c ds syn upd Inl by (intro exI[of _ ?g]) simp
  next
    case (Inr u)
    have run1: "merge_all ?s rest w1 = (r, s', w')" using "2.prems"(4) cp Inr by simp
    have rest: "\<forall>(d, q) \<in> set rest. map_of (s_partitions ?s) d = Some q \<and>
        p_nextID q < 2 ^ 63 - 1 \<and> room_of (g_parts ?g d) (p_parts q) \<le> 2 ^ 48"
      using "2.prems"(2,3) by (force simp: put_partition_def)
    from "2.IH"[OF cp[symmetric] Inr refl D' _ rest run1] "2.prems"(2)
    obtain g' where "core_inv (w_fs w') s' g' pend" "env_same w1 w'" "s' = ?s\<lparr>s_partitions := s_partitions s'\<rparr>"
      "\<forall>sid. disk_samples s' g' sid = disk_samples ?s ?g sid" "\<forall>e. r = Inl e \<longrightarrow> \<not> is_panic e"
      "g_pairs g' = g_pairs ?g" "g_fwd g' = g_fwd ?g" "g_inv g' = g_inv ?g"
      "all_synced (w_fs w1) ?s \<longrightarrow> all_synced (w_fs w') s'"
      by auto
    then show ?thesis
      using ds syn env_same_trans[OF c(1)] upd by (intro exI[of _ g']) (auto simp: put_partition_def)
  qed
qed

lemma shuffle_wf: "gm_wf m \<Longrightarrow> gm_wf (shuffle w k m)"
  by (metis mset_eq_imp_distinct_iff mset_map mset_shuffle)

theorem ForceMerge_step:
  assumes inv: "storage_inv (w_fs w) s g" and room: "merge_room s g" and run: "ForceMerge s w = (r, s', w')"
  obtains g' where "storage_inv (w_fs w') s' g'" and "env_same w w'" and "s' = s\<lparr>s_partitions := s_partitions s'\<rparr>"
    and "\<forall>sid. disk_samples s' g' sid = disk_samples s g sid" and "\<forall>e. r = Inl e \<longrightarrow> \<not> is_panic e"
    and "g_pairs g' = g_pairs g" and "all_synced (w_fs w) s \<longrightarrow> all_synced (w_fs w') s'"
proof -
  note I = core_invD[OF inv[unfolded storage_inv_def]]
  let ?ps = "shuffle w 0 (s_partitions s)"
  have wf: "gm_wf ?ps" by (rule shuffle_wf[OF I(6)])
  have "\<forall>(day, p) \<in> set ?ps. map_of (s_partitions s) day = Some p \<and>
      p_nextID p < 2 ^ 63 - 1 \<and> room_of (g_parts g day) (p_parts p) \<le> 2 ^ 48"
    using room set_entries[OF I(6)] by (auto simp: merge_room_def)
  from merge_all_step[OF inv[unfolded storage_inv_def] wf this run[unfolded ForceMerge_def]]
  obtain g' where g': "core_inv (w_fs w') s' g' (map_of (pending (s_registry s)))" "env_same w w'"
      "s' = s\<lparr>s_partitions := s_partitions s'\<rparr>" "\<forall>sid. disk_samples s' g' sid = disk_samples s g sid"
      "\<forall>e. r = Inl e \<longrightarrow> \<not> is_panic e" "g_pairs g' = g_pairs g" "all_synced (w_fs w) s \<longrightarrow> all_synced (w_fs w') s'"
    by blast
  have "s_registry s' = s_registry s" using arg_cong[OF g'(3), of s_registry] by simp
  then have "storage_inv (w_fs w') s' g'" using g'(1) by (simp add: storage_inv_def)
  then show thesis using g' by (intro that)
qed

end
