(* ===== verification/Recovery.thy ===== *)
theory Recovery
  imports StorageOps
begin

text \<open>
  Opening a storage directory: \<open>Open\<close> rebuilds from the files a handle that holds exactly the
  series and samples that the files hold, and keeps them.
\<close>

section \<open>Folds over computations\<close>

text \<open>Either every step succeeds, or the fold ends with the first error.\<close>

lemma io_fold_outcome:
  assumes "Inv [] s w"
    and "\<And>ys x zs s w r w'. xs = ys @ x # zs \<Longrightarrow> Inv ys s w \<Longrightarrow> f s x w = (r, w') \<Longrightarrow>
      (\<exists>s'. r = Inr s' \<and> Inv (ys @ [x]) s' w') \<or> (r = Inl ErrIO \<and> Bad w')"
    and "io_fold f s xs w = (r, w')"
  shows "(\<exists>s'. r = Inr s' \<and> Inv xs s' w') \<or> (r = Inl ErrIO \<and> Bad w')"
  using assms
proof (induction xs arbitrary: Inv s w)
  case Nil
  then show ?case by (auto simp: io_return_def)
next
  case (Cons x xs)
  obtain r1 w1 where x: "f s x w = (r1, w1)" by fastforce
  from Cons.prems(2)[of "[]" x xs, OF _ _ x] Cons.prems(1)
  consider s1 where "r1 = Inr s1" "Inv [x] s1 w1" | "r1 = Inl ErrIO" "Bad w1" by auto
  then show ?case
  proof cases
    case 1
    have run: "io_fold f s1 xs w1 = (r, w')" using Cons.prems(3) x 1(1) by (simp add: io_bind_def)
    show ?thesis
    proof (rule Cons.IH[of "\<lambda>ys. Inv (x # ys)", OF 1(2) _ run])
      fix ys y zs s w r w'
      assume "xs = ys @ y # zs" "Inv (x # ys) s w" "f s y w = (r, w')"
      then show "(\<exists>s'. r = Inr s' \<and> Inv (x # ys @ [y]) s' w') \<or> (r = Inl ErrIO \<and> Bad w')"
        using Cons.prems(2)[of "x # ys" y zs s w r w'] by simp
    qed
  next
    case 2
    then show ?thesis using Cons.prems(3) x by (simp add: io_bind_def)
  qed
qed

section \<open>The files of a storage directory\<close>

text \<open>\<open>P day\<close>: the parts the manifest of the day lists.\<close>

definition disk_image :: "jdoc fs \<Rightarrow> path \<Rightarrow> ghost \<Rightarrow> (string \<Rightarrow> string list) \<Rightarrow> bool" where
  "disk_image fs path g P \<longleftrightarrow>
     index_dirs fs path g \<and>
     (\<forall>day. disk_partition (2 ^ 62) fs (day_dir path day) (P day) (g_parts g day) \<and>
        (P day \<noteq> [] \<longrightarrow> dirs_to fs (day_dir path day)))"

text \<open>
  What the files hold makes sense: IDs name one label set each, every series of an inverted
  segment is in a forward segment, samples lie in the partition of their day and are indexed
  for it, days have names of eight digits.
\<close>

definition recoverable :: "ghost \<Rightarrow> (string \<Rightarrow> string list) \<Rightarrow> (uint64 \<rightharpoonup> Label list) \<Rightarrow> bool" where
  "recoverable g P N \<longleftrightarrow>
     naming_ok N \<and> (\<forall>i ls. N i = Some ls \<longrightarrow> i + 1 \<noteq> 0 \<and> labels_fit ls) \<and>
     (\<forall>i ls. (i, ls) \<in> seg_records (g_fwd g) \<longleftrightarrow> N i = Some ls) \<and>
     (\<forall>day i ls. (i, ls) \<in> seg_records (g_inv g day) \<longrightarrow> N i = Some ls \<and> partitionNameRE day) \<and>
     (\<forall>day. P day \<noteq> [] \<longrightarrow> partitionNameRE day) \<and>
     (\<forall>day sid. \<forall>sm \<in># samples_in (g_parts g day) (P day) sid.
        of_day day sm \<and> (\<exists>ls. (sid, ls) \<in> seg_records (g_inv g day)))"

lemma recoverableD:
  assumes "recoverable g P N"
  shows "naming_ok N" and "N i = Some ls \<Longrightarrow> i + 1 \<noteq> 0 \<and> labels_fit ls"
    and "(i, ls) \<in> seg_records (g_fwd g) \<longleftrightarrow> N i = Some ls"
    and "(i, ls) \<in> seg_records (g_inv g day) \<Longrightarrow> N i = Some ls \<and> partitionNameRE day"
    and "P day \<noteq> [] \<Longrightarrow> partitionNameRE day"
    and "sm \<in># samples_in (g_parts g day) (P day) sid \<Longrightarrow>
      of_day day sm \<and> (\<exists>ls. (sid, ls) \<in> seg_records (g_inv g day))"
  using assms unfolding recoverable_def by blast+

text \<open>Work below one of the directories keeps the image, if it keeps that directory.\<close>

lemma disk_image_index:
  assumes "disk_image fs path g P" and "touches A fs fs'" and "\<And>day. apart A (day_dir path day)"
    and "index_dirs fs' path g"
  shows "disk_image fs' path g P"
proof -
  have "dirs_to fs (day_dir path day) \<Longrightarrow> dirs_to fs' (day_dir path day)" for day
    by (rule touches_dirs[OF assms(2)]) (use assms(3) in \<open>auto simp: apart_def strict_prefix_def\<close>)
  then show ?thesis using assms frame_disk_partition[OF assms(2,3)] by (simp add: disk_image_def)
qed

lemma disk_image_day:
  assumes "disk_image fs path g P" and "touches (day_dir path day) fs fs'"
    and "disk_partition (2 ^ 62) fs' (day_dir path day) (P day) (g_parts g day)"
  shows "disk_image fs' path g P"
proof -
  have "index_dirs fs' path g"
    using assms(1) frame_seg_dir[OF assms(2)] apart_dirs(3,5) by (simp add: disk_image_def index_dirs_def)
  moreover have "disk_partition (2 ^ 62) fs' (day_dir path d) (P d) (g_parts g d)" for d
    using assms(1,3) frame_disk_partition[OF assms(2) apart_dirs(1)[of day d]]
    by (cases "d = day") (simp_all add: disk_image_def)
  moreover have "dirs_to fs (day_dir path d) \<Longrightarrow> dirs_to fs' (day_dir path d)" for d
    by (rule touches_dirs[OF assms(2)]) (auto simp: strict_prefix_def)
  ultimately show ?thesis using assms(1) by (simp add: disk_image_def)
qed

lemma neq_string: "\<exists>x. x \<noteq> (day :: string)"
  by (rule exI[of _ "CHR ''a'' # day"]) simp

lemma disk_image_roots:
  assumes "disk_image fs path g P"
  shows "(\<forall>day. touches (day_dir path day) fs fs') \<Longrightarrow> disk_image fs' path g P"
    and "(\<forall>day. touches (inverted_dir path day) fs fs') \<Longrightarrow> disk_image fs' path g P"
proof -
  assume t: "\<forall>day. touches (day_dir path day) fs fs'"
  show "disk_image fs' path g P"
  proof (rule disk_image_day[OF assms t[rule_format, of "[]"]])
    obtain x where x: "x \<noteq> ([] :: string)" using neq_string[of "[]"] by blast
    show "disk_partition (2 ^ 62) fs' (day_dir path []) (P []) (g_parts g [])"
      by (rule frame_disk_partition[OF t[rule_format, of x] apart_dirs(1)[OF x]]) (use assms in \<open>simp add: disk_image_def\<close>)
  qed
next
  assume t: "\<forall>day. touches (inverted_dir path day) fs fs'"
  have "seg_dir fs' (inverted_dir path day) (g_inv g day)" for day
  proof -
    obtain x where x: "x \<noteq> day" using neq_string[of day] by blast
    show ?thesis
      by (rule frame_seg_dir[OF t[rule_format, of x] apart_dirs(2)[OF x]])
        (use assms in \<open>simp add: disk_image_def index_dirs_def\<close>)
  qed
  moreover have "seg_dir fs' (indexdb_dir path) (g_fwd g)"
    by (rule frame_seg_dir[OF t[rule_format, of "[]"] apart_dirs(7)]) (use assms in \<open>simp add: disk_image_def index_dirs_def\<close>)
  ultimately have "index_dirs fs' path g" by (simp add: index_dirs_def)
  then show "disk_image fs' path g P"
    by (rule disk_image_index[OF assms t[rule_format, of "[]"] apart_dirs(4)])
qed

lemma mkdirAll_touches:
  assumes "mkdirAll p w = (r, w')" and "prefix p A"
  shows "touches A (w_fs w) (w_fs w')"
  using mkdirAll_effect[OF assms(1)] assms(2) unfolding touches_def by (metis prefix_order.trans)

lemma disk_image_nofile:
  assumes "disk_image fs path g P"
  shows "prefix q (path @ [partitionsDir]) \<Longrightarrow> lookup fs q \<noteq> Some (File c)"
    and "prefix q (path @ [seriesDir]) \<Longrightarrow> lookup fs q \<noteq> Some (File c)"
proof -
  have "prefix (path @ [partitionsDir]) (parts_dir (day_dir path []))"
    "prefix (path @ [seriesDir]) (indexdb_dir path)" by (simp_all add: parts_dir_def)
  then show "prefix q (path @ [partitionsDir]) \<Longrightarrow> lookup fs q \<noteq> Some (File c)"
    "prefix q (path @ [seriesDir]) \<Longrightarrow> lookup fs q \<noteq> Some (File c)"
    using assms unfolding disk_image_def index_dirs_def disk_partition_def seg_dir_def
    by (meson prefix_order.trans)+
qed

section \<open>The registry\<close>

lemma load_inverted_records:
  assumes "index_reflects r X" and "\<forall>(i, ls) \<in> set recs. map_of (names r) i = Some ls"
  shows "index_reflects (foldl (load_inverted day) r recs) (X \<union> {day} \<times> fst ` set recs) \<and>
    names (foldl (load_inverted day) r recs) = names r \<and> byKey (foldl (load_inverted day) r recs) = byKey r \<and>
    nextID (foldl (load_inverted day) r recs) = nextID r \<and> pending (foldl (load_inverted day) r recs) = pending r \<and>
    (\<forall>d. set (gm_get (persisted (foldl (load_inverted day) r recs)) d) =
       set (gm_get (persisted r) d) \<union> (if d = day then fst ` set recs else {}))"
  using assms
proof (induction recs arbitrary: r X)
  case (Cons rec recs)
  obtain i ls where rec: "rec = (i, ls)" by (cases rec)
  let ?r = "load_inverted day r rec"
  have r: "?r = LoadInvertedEntry r day i ls" by (simp add: load_inverted_def rec)
  have same: "names ?r = names r" "byKey ?r = byKey r" "nextID ?r = nextID r" "pending ?r = pending r"
    by (simp_all add: r LoadInvertedEntry_def)
  have pers: "set (gm_get (persisted ?r) d) = set (gm_get (persisted r) d) \<union> (if d = day then {i} else {})" for d
    by (cases "d = day") (auto simp: r LoadInvertedEntry_def markPersistedLocked_def)
  have "index_reflects ?r (insert (day, i) X)"
    unfolding r using Cons.prems rec by (intro LoadInvertedEntry_reflects) auto
  from Cons.IH[OF this] Cons.prems(2) same pers
  show ?case by (auto simp: rec Un_insert_right insert_commute Sigma_Un_distrib2)
qed simp

text \<open>The registry after the inverted segments of the days \<open>ds\<close>, from a registry that names \<open>N\<close>.\<close>

definition loaded :: "ghost \<Rightarrow> Registry \<Rightarrow> string set \<Rightarrow> Registry \<Rightarrow> bool" where
  "loaded g r0 ds r \<longleftrightarrow>
     index_reflects r {(d, i). d \<in> ds \<and> (\<exists>ls. (i, ls) \<in> seg_records (g_inv g d))} \<and>
     names r = names r0 \<and> byKey r = byKey r0 \<and> nextID r = nextID r0 \<and> pending r = pending r0 \<and>
     (\<forall>d i. i \<in> set (gm_get (persisted r) d) \<longleftrightarrow> d \<in> ds \<and> (\<exists>ls. (i, ls) \<in> seg_records (g_inv g d)))"

lemma loaded_day:
  assumes l: "loaded g r0 ds r" and N: "\<forall>i ls. (i, ls) \<in> seg_records (g_inv g day) \<longrightarrow> map_of (names r0) i = Some ls"
    and recs: "set recs = seg_records (g_inv g day)"
  shows "loaded g r0 (insert day ds) (foldl (load_inverted day) r recs)"
proof -
  let ?X = "{(d, i). d \<in> ds \<and> (\<exists>ls. (i, ls) \<in> seg_records (g_inv g d))}"
  have ix: "index_reflects r ?X" using l by (simp add: loaded_def)
  have nm: "\<forall>(i, ls) \<in> set recs. map_of (names r) i = Some ls" using l N recs by (auto simp: loaded_def)
  have "?X \<union> {day} \<times> fst ` set recs = {(d, i). d \<in> insert day ds \<and> (\<exists>ls. (i, ls) \<in> seg_records (g_inv g d))}"
    unfolding recs by force
  with load_inverted_records[OF ix nm, of day] show ?thesis
    using l unfolding loaded_def recs by (auto simp: image_iff)
qed

lemma replay_touches:
  assumes "seg_dir (w_fs w) dir S" and "replay_segments f dir r0 w = (r, w')"
  shows "touches dir (w_fs w) (w_fs w')"
  using replay_segments_outcome(4)[OF assms] unfolding touches_def by (metis strict_prefixI' append_eq_Cons_conv)

lemma inverted_day_step:
  assumes im: "disk_image (w_fs v) path g P" and env: "env_same w v" and sr: "(\<forall>x \<in> X. dirs_to (w_fs v) (path @ [x]))"
    and N: "\<forall>i ls. (i, ls) \<in> seg_records (g_inv g nm) \<longrightarrow> map_of (names r0) i = Some ls"
    and run: "replay_segments (load_inverted nm) (inverted_dir path nm) s v = (q, v')"
  shows "loaded g r0 ds s \<Longrightarrow> disk_image (w_fs v') path g P \<and> env_same w v' \<and> (\<forall>x \<in> X. dirs_to (w_fs v') (path @ [x])) \<and>
    ((\<exists>s'. q = Inr s' \<and> loaded g r0 (insert nm ds) s') \<or> (q = Inl ErrIO \<and> \<not> healthy w))"
proof -
  assume l: "loaded g r0 ds s"
  have sd: "seg_dir (w_fs v) (inverted_dir path nm) (g_inv g nm)" using im by (simp add: disk_image_def index_dirs_def)
  note o1 = replay_segments_outcome[OF sd run] and t = replay_touches[OF sd run]
  have "seg_dir (w_fs v') (inverted_dir path d) (g_inv g d)" for d
    using o1(2) im frame_seg_dir[OF t apart_dirs(2)[of nm d]]
    by (cases "d = nm") (simp_all add: disk_image_def index_dirs_def)
  moreover have "seg_dir (w_fs v') (indexdb_dir path) (g_fwd g)"
    by (rule frame_seg_dir[OF t apart_dirs(7)]) (use im in \<open>simp add: disk_image_def index_dirs_def\<close>)
  ultimately have "index_dirs (w_fs v') path g" by (simp add: index_dirs_def)
  then have "disk_image (w_fs v') path g P" by (rule disk_image_index[OF im t apart_dirs(4)])
  moreover have "(\<forall>x \<in> X. dirs_to (w_fs v') (path @ [x]))" using frame_roots[OF t] sr by simp
  moreover have "env_same w v'" using env o1(1) by (rule env_same_trans)
  moreover have "(\<exists>s'. q = Inr s' \<and> loaded g r0 (insert nm ds) s') \<or> (q = Inl ErrIO \<and> \<not> healthy w)"
    using o1(3) loaded_day[OF l N] healthy_env[OF _ env] by blast
  ultimately show ?thesis by blast
qed

lemma loadInverted_outcome:
  assumes im: "disk_image (w_fs w) path g P" and sr: "(\<forall>x \<in> X. dirs_to (w_fs w) (path @ [x]))"
    and N: "\<And>day i ls. (i, ls) \<in> seg_records (g_inv g day) \<Longrightarrow> map_of (names r0) i = Some ls \<and> partitionNameRE day"
    and r0: "index_reflects r0 {}" "\<And>d. gm_get (persisted r0) d = []"
    and run: "loadInverted path r0 w = (r, w')"
  shows "disk_image (w_fs w') path g P \<and> env_same w w' \<and> (\<forall>x \<in> X. dirs_to (w_fs w') (path @ [x])) \<and>
    ((\<exists>r1. r = Inr r1 \<and> loaded g r0 UNIV r1) \<or> (r = Inl ErrIO \<and> \<not> healthy w))"
proof -
  let ?root = "path @ [seriesDir, invertedDir]"
  have empty: "loaded g r0 {} r0" using r0 by (simp add: loaded_def)
  have all: "loaded g r0 UNIV r1" if "loaded g r0 ds r1" "\<And>day. day \<notin> ds \<Longrightarrow> seg_records (g_inv g day) = {}" for ds r1
  proof -
    have "d \<in> ds \<and> (\<exists>ls. (i, ls) \<in> seg_records (g_inv g d)) \<longleftrightarrow> (\<exists>ls. (i, ls) \<in> seg_records (g_inv g d))" for d i
      using that(2)[of d] by auto
    then show ?thesis using that(1) by (simp add: loaded_def)
  qed
  have sd: "seg_dir (w_fs w) (inverted_dir path day) (g_inv g day)" for day
    using im by (simp add: disk_image_def index_dirs_def)
  obtain r1 w1 where rd: "readDir ?root w = (r1, w1)" by fastforce
  have fs1: "w_fs w1 = w_fs w" "env_same w w1" using reads_onlyD[OF reads_only_simps(5) rd] by auto
  have nofile: "lookup (w_fs w) q \<noteq> Some (File c)" if "prefix q ?root" for q c
  proof -
    have "prefix ?root (inverted_dir path [])" by simp
    with that show ?thesis using seg_dirD(1)[OF sd] prefix_order.trans by blast
  qed
  have miss: "missing_err (w_fs w) ?root = ErrNotExist"
    using nofile by (auto simp: missing_err_def list_all_iff split: option.splits node.splits)
  have notin: "seg_records (g_inv g day) = {}" if "(day, True) \<notin> set (children (w_fs w) ?root)" for day
  proof -
    have "lookup (w_fs w) (inverted_dir path day) \<noteq> Some Dir" using that by (auto simp: in_children)
    then have "g_inv g day = Map.empty" using seg_dirD(7)[OF sd] dirs_to_self by blast
    then show ?thesis by (simp add: seg_records_def)
  qed
  have root: "lookup (w_fs w) ?root = None \<or> lookup (w_fs w) ?root = Some Dir"
    using nofile[of ?root] by (metis node.exhaust option.exhaust prefix_order.refl)
  consider "r1 = Inl ErrNotExist" "lookup (w_fs w) ?root = None" | "r1 = Inl ErrIO" "\<not> healthy w"
    | "r1 = Inr (children (w_fs w) ?root)"
    using rd root miss by (auto simp: readDir_def sys_run healthy_def split: if_splits)
  then show ?thesis
  proof cases
    case 1
    have "seg_records (g_inv g day) = {}" for day
    proof -
      have "prefix ?root (inverted_dir path day)" by simp
      then have "\<not> dirs_to (w_fs w) (inverted_dir path day)" using 1(2) unfolding dirs_to_def by fastforce
      then have "g_inv g day = Map.empty" using seg_dirD(7)[OF sd] by blast
      then show ?thesis by (simp add: seg_records_def)
    qed
    then have "loaded g r0 UNIV r0" using all[OF empty] by simp
    then show ?thesis using run rd 1 fs1 im sr by (auto simp: loadInverted_def)
  next
    case 2
    then show ?thesis using run rd fs1 im sr by (simp add: loadInverted_def)
  next
    case 3
    let ?es = "children (w_fs w) ?root"
    let ?Ok = "\<lambda>w1. disk_image (w_fs w1) path g P \<and> env_same w w1 \<and> (\<forall>x \<in> X. dirs_to (w_fs w1) (path @ [x]))"
    let ?Inv = "\<lambda>ys r1 w1. ?Ok w1 \<and> loaded g r0 {day. (day, True) \<in> set ys \<and> partitionNameRE day} r1"
    have fold: "io_fold (load_inverted_day ?root) r0 ?es w1 = (r, w')" using run rd 3 by (simp add: loadInverted_def Let_def)
    have "(\<exists>r1. r = Inr r1 \<and> ?Inv ?es r1 w') \<or> (r = Inl ErrIO \<and> (?Ok w' \<and> \<not> healthy w))"
    proof (rule io_fold_outcome[where Inv = ?Inv and Bad = "\<lambda>w1. ?Ok w1 \<and> \<not> healthy w", OF _ _ fold])
      show "?Inv [] r0 w1" using im fs1 sr empty by simp
      fix ys x zs s v q v'
      assume "?es = ys @ x # zs" and I: "?Inv ys s v" and step: "load_inverted_day ?root s x v = (q, v')"
      show "(\<exists>s'. q = Inr s' \<and> ?Inv (ys @ [x]) s' v') \<or> (q = Inl ErrIO \<and> ?Ok v' \<and> \<not> healthy w)"
      proof -
        obtain nm isdir where x: "x = (nm, isdir)" by (cases x)
        show ?thesis
        proof (cases "isdir \<and> partitionNameRE nm")
          case False
          then have "q = Inr s" "v' = v" using step by (auto simp: load_inverted_day_def x io_return_def)
          moreover have "{day. (day, True) \<in> set (ys @ [x]) \<and> partitionNameRE day} =
              {day. (day, True) \<in> set ys \<and> partitionNameRE day}" using False by (auto simp: x)
          ultimately show ?thesis using I by simp
        next
          case True
          have rp: "replay_segments (load_inverted nm) (inverted_dir path nm) s v = (q, v')"
            using step True by (simp add: load_inverted_day_def x)
          have set: "{day. (day, True) \<in> set (ys @ [x]) \<and> partitionNameRE day} =
              insert nm {day. (day, True) \<in> set ys \<and> partitionNameRE day}" using True by (auto simp: x)
          show ?thesis
            using inverted_day_step[OF _ _ _ _ rp, where g = g and P = P and w = w and ?r0.0 = r0 and X = X] I N unfolding set by blast
        qed
      qed
    qed
    moreover have "seg_records (g_inv g day) = {}" if "\<not> ((day, True) \<in> set ?es \<and> partitionNameRE day)" for day
      using notin[of day] N[of _ _ day] that by fastforce
    ultimately show ?thesis using all by blast
  qed
qed

text \<open>The whole registry: names from the forward segments, the index from the inverted ones.\<close>

lemma LoadEntries_frame:
  "pending (LoadEntries r es) = pending r" "invertedByDay (LoadEntries r es) = invertedByDay r"
  "persisted (LoadEntries r es) = persisted r"
proof -
  have "pending (fst (foldl load_entry (r, m) es)) = pending r \<and>
      invertedByDay (fst (foldl load_entry (r, m) es)) = invertedByDay r \<and>
      persisted (fst (foldl load_entry (r, m) es)) = persisted r" for m
  proof (induction es arbitrary: r m)
    case (Cons e es)
    obtain r1 m1 where e: "load_entry (r, m) e = (r1, m1)" by fastforce
    then have "pending r1 = pending r \<and> invertedByDay r1 = invertedByDay r \<and> persisted r1 = persisted r"
      by (auto simp: load_entry_def Let_def split: prod.splits if_splits)
    then show ?case using Cons.IH[of r1 m1] e by simp
  qed simp
  then show "pending (LoadEntries r es) = pending r" "invertedByDay (LoadEntries r es) = invertedByDay r"
    "persisted (LoadEntries r es) = persisted r"
    by (simp_all add: LoadEntries_def case_prod_unfold Let_def)
qed

lemma replay_forward_frame:
  "pending (replay_forward r recs) = pending r" "invertedByDay (replay_forward r recs) = invertedByDay r"
  "persisted (replay_forward r recs) = persisted r"
  by (induction recs arbitrary: r) (auto simp: LoadEntries_frame)

lemma load_forward_fold: "foldl load_forward r recs = replay_forward r recs"
  by (simp add: load_forward_def[abs_def] replay_forward_def)

lemma forward_loaded:
  assumes rec: "recoverable g P N" and recs: "set recs = seg_records (g_fwd g)"
  defines "r \<equiv> foldl load_forward NewRegistry recs"
  shows "registry_ok r" and "map_of (names r) = N" and "pending r = []" and "index_reflects r {}"
    and "gm_get (persisted r) d = []"
proof -
  note R = recoverableD[OF rec]
  have r: "r = replay_forward NewRegistry recs" by (simp add: r_def load_forward_fold)
  have room: "i + 1 \<noteq> 0" if "N i \<noteq> None" for i using R(2) that by blast
  have all: "\<forall>(i, ls) \<in> set recs. N i = Some ls" using R(3) recs by auto
  have new: "names NewRegistry = []" by (simp add: NewRegistry_def)
  note f' = replay_forward_ok[OF R(1) room registry_ok_New _ all, unfolded new, simplified]
  have f: "registry_ok r" "\<And>i. map_of (names r) i = (if i \<in> fst ` set recs then N i else None)"
    unfolding r using f' by simp_all
  show "registry_ok r" by (rule f(1))
  show "map_of (names r) = N"
  proof
    fix i
    have "i \<in> fst ` set recs" if "N i = Some ls" for ls
    proof -
      have "(i, ls) \<in> set recs" using that R(3) recs by blast
      then show ?thesis by force
    qed
    then show "map_of (names r) i = N i" using f(2)[of i] by (cases "N i") auto
  qed
  show "pending r = []" "gm_get (persisted r) d = []"
    by (simp_all add: r replay_forward_frame NewRegistry_def)
  have "inv_ids r = inv_ids NewRegistry" by (rule inv_ids_cong) (simp add: r replay_forward_frame)
  then show "index_reflects r {}" by (simp add: index_reflects_def r replay_forward_frame NewRegistry_def inv_ids_def)
qed

text \<open>The pairs of day and series that the inverted segments hold.\<close>

definition seg_pairs :: "ghost \<Rightarrow> (string \<times> uint64) set" where
  "seg_pairs g = {(d, i). \<exists>ls. (i, ls) \<in> seg_records (g_inv g d)}"

theorem loadRegistry_outcome:
  assumes im: "disk_image (w_fs w) path g P" and sr: "(\<forall>x \<in> X. dirs_to (w_fs w) (path @ [x]))"
    and rec: "recoverable g P N" and run: "loadRegistry path NewRegistry w = (r, w')"
  shows "disk_image (w_fs w') path g P \<and> env_same w w' \<and> (\<forall>x \<in> X. dirs_to (w_fs w') (path @ [x])) \<and>
    ((\<exists>r1. r = Inr r1 \<and> registry_inv (g\<lparr>g_pairs := seg_pairs g\<rparr>) r1 Map.empty \<and> pending r1 = [] \<and>
        map_of (names r1) = N \<and>
        (\<forall>d i. i \<in> set (gm_get (persisted r1) d) \<longleftrightarrow> (d, i) \<in> seg_pairs g)) \<or> (r = Inl ErrIO \<and> \<not> healthy w))"
proof -
  note R = recoverableD[OF rec]
  obtain q1 w1 where rp: "replay_segments load_forward (indexdb_dir path) NewRegistry w = (q1, w1)" by fastforce
  have sd: "seg_dir (w_fs w) (indexdb_dir path) (g_fwd g)" using im by (simp add: disk_image_def index_dirs_def)
  note o1 = replay_segments_outcome[OF sd rp] and t = replay_touches[OF sd rp]
  have "seg_dir (w_fs w1) (inverted_dir path d) (g_inv g d)" for d
    by (rule frame_seg_dir[OF t apart_dirs(8)]) (use im in \<open>simp add: disk_image_def index_dirs_def\<close>)
  then have "index_dirs (w_fs w1) path g" using o1(2) by (simp add: index_dirs_def)
  then have im1: "disk_image (w_fs w1) path g P" by (rule disk_image_index[OF im t apart_dirs(6)])
  have sr1: "(\<forall>x \<in> X. dirs_to (w_fs w1) (path @ [x]))" using frame_roots[OF t] sr by simp
  from o1(3) show ?thesis
  proof (elim disjE exE conjE)
    assume "q1 = Inl ErrIO" "\<not> healthy w"
    then show ?thesis using run rp im1 sr1 o1(1) by (simp add: loadRegistry_def io_bind_def)
  next
    fix recs assume q1: "q1 = Inr (foldl load_forward NewRegistry recs)" and recs: "set recs = seg_records (g_fwd g)"
    define r0 where "r0 = foldl load_forward NewRegistry recs"
    note F = forward_loaded[OF rec recs, folded r0_def]
    have run2: "loadInverted path r0 w1 = (r, w')" using run rp q1 by (simp add: loadRegistry_def io_bind_def r0_def)
    have N: "map_of (names r0) i = Some ls \<and> partitionNameRE day" if "(i, ls) \<in> seg_records (g_inv g day)" for day i ls
      using R(4)[OF that] F(2) by simp
    note o2 = loadInverted_outcome[OF im1 sr1 N F(4,5) run2]
    have reg: "registry_inv (g\<lparr>g_pairs := seg_pairs g\<rparr>) r1 Map.empty \<and> pending r1 = [] \<and> map_of (names r1) = N \<and>
        (\<forall>d i. i \<in> set (gm_get (persisted r1) d) \<longleftrightarrow> (d, i) \<in> seg_pairs g)" if "loaded g r0 UNIV r1" for r1
    proof -
      have l: "index_reflects r1 (seg_pairs g)" "names r1 = names r0" "byKey r1 = byKey r0" "nextID r1 = nextID r0"
        "pending r1 = []" "\<And>d i. i \<in> set (gm_get (persisted r1) d) \<longleftrightarrow> (d, i) \<in> seg_pairs g"
        using that F(3) by (simp_all add: loaded_def seg_pairs_def)
      have nm: "map_of (names r1) = N" using l(2) F(2) by simp
      have ok: "registry_ok r1" using F(1,3) l by (simp add: registry_ok_def)
      have "registry_inv (g\<lparr>g_pairs := seg_pairs g\<rparr>) r1 Map.empty"
      proof (rule registry_invI[OF ok])
        show "labels_fit ls" if "map_of (names r1) i = Some ls" for i ls
          using R(2)[of i ls] that by (simp only: nm)
        show "map_of (names r1) i = Some ls \<and> (day, i) \<in> g_pairs (g\<lparr>g_pairs := seg_pairs g\<rparr>)"
          if "(i, ls) \<in> seg_records (g_inv (g\<lparr>g_pairs := seg_pairs g\<rparr>) day)" for i ls day
          using R(4)[of i ls day] that unfolding nm by (auto simp: seg_pairs_def)
        show "\<exists>ls. (i, ls) \<in> seg_records (g_inv (g\<lparr>g_pairs := seg_pairs g\<rparr>) day)"
          if "i \<in> set (gm_get (persisted r1) day)" for i day
          using that l(6) by (simp add: seg_pairs_def)
        show "map_of (names r1) i = Some ls" if "(i, ls) \<in> seg_records (g_fwd (g\<lparr>g_pairs := seg_pairs g\<rparr>))" for i ls
          using that R(3)[of i ls] unfolding nm by simp
        show "(i, ls) \<in> seg_records (g_fwd (g\<lparr>g_pairs := seg_pairs g\<rparr>)) \<or> Map.empty i = Some ls"
          if "map_of (names r1) i = Some ls" for i ls
          using that R(3)[of i ls] unfolding nm by simp
      qed (use l(1) in simp)
      then show ?thesis using l nm by blast
    qed
    show ?thesis
      using o2 reg env_same_trans[OF o1(1)] healthy_env[OF _ o1(1)] by blast
  qed
qed

section \<open>The partitions\<close>

definition opened :: "jdoc fs \<Rightarrow> path \<Rightarrow> ghost \<Rightarrow> (string \<Rightarrow> string list) \<Rightarrow> (string, partition) gomap \<Rightarrow> bool" where
  "opened fs path g P ps \<longleftrightarrow> gm_wf ps \<and>
     (\<forall>day p. map_of ps day = Some p \<longrightarrow>
        partition_state fs path day p (g_parts g day) \<and> synced fs p \<and> p_parts p = P day \<and> p_nextID p \<le> 2 ^ 62)"

lemma opened_update:
  assumes "opened fs path g P ps" and t: "touches (day_dir path day) fs fs'"
    and p: "partition_state fs' path day p (g_parts g day)" "synced fs' p" "p_parts p = P day" "p_nextID p \<le> 2 ^ 62"
  shows "opened fs' path g P (AList.update day p ps)"
  unfolding opened_def
proof (intro conjI allI impI)
  show "gm_wf (AList.update day p ps)" using assms(1) by (simp add: opened_def)
  fix d q assume q: "map_of (AList.update day p ps) d = Some q"
  have all: "partition_state fs' path d q (g_parts g d) \<and> synced fs' q \<and> p_parts q = P d \<and> p_nextID q \<le> 2 ^ 62"
  proof (cases "d = day")
    case True
    then show ?thesis using q p by simp
  next
    case False
    then have old: "partition_state fs path d q (g_parts g d)" "synced fs q" "p_parts q = P d" "p_nextID q \<le> 2 ^ 62"
      using q assms(1) unfolding opened_def by (metis fun_upd_other update_conv')+
    have ap: "apart (day_dir path day) (day_dir path d)" using apart_dirs(1)[of day d] False by simp
    have dir: "p_dir q = day_dir path d" using old(1) by (rule partition_stateD(2))
    have "synced fs' q" by (rule frame_partition(3)[OF t _ old(2)]) (simp only: dir ap)
    then show ?thesis using frame_partition_state[OF t ap old(1)] old by blast
  qed
  then show "partition_state fs' path d q (g_parts g d)" "synced fs' q" "p_parts q = P d" "p_nextID q \<le> 2 ^ 62"
    by blast+
qed

lemma load_partition_step:
  assumes im: "disk_image (w_fs v) path g P" and env: "env_same w v" and op: "opened (w_fs v) path g P ps"
    and rt: "dirs_to (w_fs v) (path @ [x1])" "dirs_to (w_fs v) (path @ [x2])"
    and run: "openPartition (day_dir path nm) nm v = (q, v')"
  shows "disk_image (w_fs v') path g P \<and> env_same w v' \<and> dirs_to (w_fs v') (path @ [x1]) \<and> dirs_to (w_fs v') (path @ [x2]) \<and>
    ((\<exists>p. q = Inr p \<and> opened (w_fs v') path g P (AList.update nm p ps)) \<or> (q = Inl ErrIO \<and> \<not> healthy w))"
proof -
  have dp: "disk_partition (2 ^ 62) (w_fs v) (day_dir path nm) (P nm) (g_parts g nm)"
    using im by (simp add: disk_image_def)
  note o1 = openPartition_recovers[OF dp _ _ run]
  have t: "touches (day_dir path nm) (w_fs v) (w_fs v')" using o1(2) by simp
  have im': "disk_image (w_fs v') path g P" using disk_image_day[OF im t] o1(3) by simp
  have env': "env_same w v'" using env o1(1) by (simp add: env_same_trans)
  have rt': "dirs_to (w_fs v') (path @ [x1])" "dirs_to (w_fs v') (path @ [x2])"
    using frame_roots[OF t] rt by simp_all
  have "(\<exists>p. q = Inr p \<and> opened (w_fs v') path g P (AList.update nm p ps)) \<or> (q = Inl ErrIO \<and> \<not> healthy w)"
  proof (cases q)
    case (Inr p)
    then have p: "partition_inv (w_fs v') p (g_parts g nm)" "synced (w_fs v') p" "p_parts p = P nm" "p_dir p = day_dir path nm"
      "p_day p = nm" "\<not> p_dropped p" "p_nextID p \<le> 2 ^ 62" "orphans_ok (w_fs v') p"
      using o1(4) by auto
    have "partition_state (w_fs v') path nm p (g_parts g nm)" using p by (simp add: partition_state_def)
    from opened_update[OF op t this p(2,3,7)] show ?thesis using Inr by blast
  next
    case (Inl e)
    then show ?thesis using o1(4) healthy_env[OF _ env] by auto
  qed
  then show ?thesis using im' env' rt' by blast
qed

lemma loadPartitions_outcome:
  assumes im: "disk_image (w_fs w) path g P" and rt: "dirs_to (w_fs w) (path @ [partitionsDir])" "dirs_to (w_fs w) (path @ [x])"
    and rec: "recoverable g P N" and run: "loadPartitions path w = (r, w')"
  shows "disk_image (w_fs w') path g P \<and> env_same w w' \<and> dirs_to (w_fs w') (path @ [partitionsDir]) \<and> dirs_to (w_fs w') (path @ [x]) \<and>
    ((\<exists>ps. r = Inr ps \<and> opened (w_fs w') path g P ps \<and> (\<forall>day. P day \<noteq> [] \<longrightarrow> map_of ps day \<noteq> None)) \<or>
     (r = Inl ErrIO \<and> \<not> healthy w))"
proof -
  let ?root = "path @ [partitionsDir]"
  obtain r1 w1 where rd: "readDir ?root w = (r1, w1)" by fastforce
  note o1 = readDir_outcome[OF rd rt(1)]
  show ?thesis
  proof (cases r1)
    case (Inl e)
    then show ?thesis using run rd o1 im rt by (auto simp: loadPartitions_def io_bind_def)
  next
    case (Inr es)
    have es: "es = children (w_fs w) ?root" using o1(3) Inr by simp
    let ?Ok = "\<lambda>v. disk_image (w_fs v) path g P \<and> env_same w v \<and> dirs_to (w_fs v) ?root \<and> dirs_to (w_fs v) (path @ [x])"
    let ?Inv = "\<lambda>ys ps v. ?Ok v \<and> opened (w_fs v) path g P ps \<and>
      (\<forall>day. (day, True) \<in> set ys \<longrightarrow> partitionNameRE day \<longrightarrow> map_of ps day \<noteq> None)"
    have fold: "io_fold (load_partition path) [] es w1 = (r, w')"
      using run rd Inr by (simp add: loadPartitions_def io_bind_def)
    have out: "(\<exists>ps. r = Inr ps \<and> ?Inv es ps w') \<or> (r = Inl ErrIO \<and> (?Ok w' \<and> \<not> healthy w))"
    proof (rule io_fold_outcome[where Inv = ?Inv and Bad = "\<lambda>v. ?Ok v \<and> \<not> healthy w", OF _ _ fold])
      show "?Inv [] [] w1" using im rt o1(1,2) by (simp add: opened_def)
      fix ys e zs ps v q v'
      assume I: "?Inv ys ps v" and step: "load_partition path ps e v = (q, v')"
      obtain nm isdir where e: "e = (nm, isdir)" by (cases e)
      show "(\<exists>ps'. q = Inr ps' \<and> ?Inv (ys @ [e]) ps' v') \<or> (q = Inl ErrIO \<and> ?Ok v' \<and> \<not> healthy w)"
      proof (cases "isdir \<and> partitionNameRE nm")
        case False
        then have "q = Inr ps" "v' = v" using step by (auto simp: load_partition_def e io_return_def)
        then show ?thesis using I False by (auto simp: e)
      next
        case True
        obtain q1 v1 where op: "openPartition (day_dir path nm) nm v = (q1, v1)" by fastforce
        have q: "q = (case q1 of Inl e \<Rightarrow> Inl e | Inr p \<Rightarrow> Inr (AList.update nm p ps))" "v' = v1"
          using step True op by (auto simp: load_partition_def e io_bind_def io_return_def split: sum.splits)
        have im: "disk_image (w_fs v) path g P" "env_same w v" "opened (w_fs v) path g P ps"
          "dirs_to (w_fs v) ?root" "dirs_to (w_fs v) (path @ [x])" using I by blast+
        note st = load_partition_step[OF im op]
        have "map_of (AList.update nm p ps) day \<noteq> None"
          if "(day, True) \<in> set (ys @ [e])" "partitionNameRE day" for p day
          using I that by (auto simp: e update_conv')
        then show ?thesis using st q by (cases q1) auto
      qed
    qed
    have "(day, True) \<in> set es \<and> partitionNameRE day" if "P day \<noteq> []" for day
    proof -
      have "dirs_to (w_fs w) (day_dir path day)" using im that by (simp add: disk_image_def)
      then have "lookup (w_fs w) (?root @ [day]) = Some Dir" using dirs_to_self by fastforce
      then show ?thesis using recoverableD(5)[OF rec that] by (simp add: es in_children)
    qed
    then show ?thesis using out by blast
  qed
qed

section \<open>Open\<close>

text \<open>A handle that holds what the files hold, and nothing in its buffer.\<close>

definition recovered ::
  "jdoc fs \<Rightarrow> path \<Rightarrow> ghost \<Rightarrow> (string \<Rightarrow> string list) \<Rightarrow> (uint64 \<rightharpoonup> Label list) \<Rightarrow> storage \<Rightarrow> bool" where
  "recovered fs path g P N s \<longleftrightarrow>
     storage_inv fs s (g\<lparr>g_pairs := seg_pairs g\<rparr>) \<and> all_synced fs s \<and> s_path s = path \<and> s_mem s = [] \<and>
     pending (s_registry s) = [] \<and> map_of (names (s_registry s)) = N \<and>
     (\<forall>day. case map_of (s_partitions s) day of
        None \<Rightarrow> P day = [] | Some p \<Rightarrow> p_parts p = P day \<and> p_nextID p \<le> 2 ^ 62)"

lemma disk_dormant:
  "disk_partition (2 ^ 62) fs dir [] D \<Longrightarrow> dormant fs dir"
  by (simp add: dormant_def disk_partition_def)

lemma recovered_intro:
  assumes im: "disk_image fs path g P" and rec: "recoverable g P N"
    and rt: "dirs_to fs (path @ [partitionsDir])" "dirs_to fs (path @ [seriesDir])"
    and reg: "registry_inv (g\<lparr>g_pairs := seg_pairs g\<rparr>) r Map.empty" "pending r = []" "map_of (names r) = N"
      "\<forall>d i. i \<in> set (gm_get (persisted r) d) \<longleftrightarrow> (d, i) \<in> seg_pairs g"
    and op: "opened fs path g P ps" "\<forall>day. P day \<noteq> [] \<longrightarrow> map_of ps day \<noteq> None"
  shows "recovered fs path g P N ((new_storage path)\<lparr>s_registry := r, s_partitions := ps\<rparr>)"
proof -
  let ?g = "g\<lparr>g_pairs := seg_pairs g\<rparr>" and ?s = "(new_storage path)\<lparr>s_registry := r, s_partitions := ps\<rparr>"
  have p: "partition_state fs path day p (g_parts g day)" "synced fs p" "p_parts p = P day" "p_nextID p \<le> 2 ^ 62"
    if "map_of ps day = Some p" for day p using op(1) that unfolding opened_def by blast+
  have ix: "samples_indexed r day (samples_in (g_parts g day) (p_parts p))" if "map_of ps day = Some p" for day p
    using recoverableD(6)[OF rec] reg(4) unfolding samples_indexed_def p(3)[OF that] seg_pairs_def by blast
  have dor: "dormant fs (day_dir path day)" if "map_of ps day = None" for day
  proof -
    have "P day = []" using op(2) that by auto
    moreover have "disk_partition (2 ^ 62) fs (day_dir path day) (P day) (g_parts g day)"
      using im unfolding disk_image_def by blast
    ultimately show ?thesis using disk_dormant by metis
  qed
  have wf: "gm_wf ps" using op(1) by (simp add: opened_def)
  have idx: "index_dirs fs path ?g" using im by (simp add: disk_image_def index_dirs_def)
  have "core_inv fs ?s ?g Map.empty"
    unfolding core_inv_def using rt idx reg(1) wf p(1) ix dor by (auto simp: new_storage_def)
  then have "storage_inv fs ?s ?g" using reg(2) by (simp add: storage_inv_def)
  moreover have "all_synced fs ?s" using p(2) by (simp add: all_synced_def)
  ultimately show ?thesis
    using reg(2,3) p(3,4) op(2) unfolding recovered_def by (auto simp: new_storage_def split: option.splits)
qed

theorem Open_recovers:
  assumes im: "disk_image (w_fs w) path g P" and rec: "recoverable g P N" and run: "Open path w = (r, w')"
  shows "disk_image (w_fs w') path g P \<and> env_same w w' \<and>
    ((\<exists>s. r = Inr s \<and> recovered (w_fs w') path g P N s) \<or> (r = Inl ErrIO \<and> \<not> healthy w))"
proof -
  obtain r1 w1 where m1: "mkdirAll (path @ [partitionsDir]) w = (r1, w1)" by fastforce
  note o1 = mkdirAll_outcome[OF m1 disk_image_nofile(1)[OF im]]
  have im1: "disk_image (w_fs w1) path g P"
    by (rule disk_image_roots(1)[OF im]) (intro allI mkdirAll_touches[OF m1], simp)
  show ?thesis
  proof (cases "r1 = Inr ()")
    case False
    then show ?thesis using run m1 o1 im1 by (auto simp: Open_def io_bind_def)
  next
    case True
    have d1: "dirs_to (w_fs w1) (path @ [partitionsDir])" using mkdirAll_Inr m1 True by blast
    obtain r2 w2 where m2: "mkdirAll (path @ [seriesDir]) w1 = (r2, w2)" by fastforce
    note o2 = mkdirAll_outcome[OF m2 disk_image_nofile(2)[OF im1]]
    have t2: "touches (inverted_dir path day) (w_fs w1) (w_fs w2)" for day
      by (rule mkdirAll_touches[OF m2]) simp
    have im2: "disk_image (w_fs w2) path g P" by (rule disk_image_roots(2)[OF im1]) (use t2 in blast)
    have d2: "dirs_to (w_fs w2) (path @ [partitionsDir])" using frame_roots[OF t2 _ d1] by simp
    have e2: "env_same w w2" using o1(1) o2(1) by (rule env_same_trans)
    show ?thesis
    proof (cases "r2 = Inr ()")
      case False
      then show ?thesis using run m1 True m2 o2 im2 e2 healthy_env[OF _ o1(1)] by (auto simp: Open_def io_bind_def)
    next
      case True2: True
      have s2: "dirs_to (w_fs w2) (path @ [seriesDir])" using mkdirAll_Inr m2 True2 by blast
      obtain r3 w3 where lr: "loadRegistry path NewRegistry w2 = (r3, w3)" by fastforce
      have o3: "disk_image (w_fs w3) path g P" "env_same w2 w3"
          "\<forall>x \<in> {partitionsDir, seriesDir}. dirs_to (w_fs w3) (path @ [x])"
        and c3: "(\<exists>r. r3 = Inr r \<and> registry_inv (g\<lparr>g_pairs := seg_pairs g\<rparr>) r Map.empty \<and> pending r = [] \<and>
          map_of (names r) = N \<and> (\<forall>d i. i \<in> set (gm_get (persisted r) d) \<longleftrightarrow> (d, i) \<in> seg_pairs g)) \<or>
          (r3 = Inl ErrIO \<and> \<not> healthy w2)"
        using loadRegistry_outcome[OF im2 _ rec lr, of "{partitionsDir, seriesDir}"] d2 s2 by blast+
      have e3: "env_same w w3" using e2 o3(2) by (rule env_same_trans)
      have run3: "(r, w') = (case r3 of Inl e \<Rightarrow> (Inl e, w3) | Inr r \<Rightarrow>
          io_bind (loadPartitions path) (\<lambda>ps. io_return ((new_storage path)\<lparr>s_registry := r, s_partitions := ps\<rparr>)) w3)"
        using run m1 True m2 True2 lr by (simp add: Open_def io_bind_def new_storage_def split: sum.splits)
      from c3 show ?thesis
      proof (elim disjE exE conjE)
        assume "r3 = Inl ErrIO" "\<not> healthy w2"
        then show ?thesis using run3 o3(1) e3 healthy_env[OF _ e2] by auto
      next
        fix reg assume r3: "r3 = Inr reg" and reg: "registry_inv (g\<lparr>g_pairs := seg_pairs g\<rparr>) reg Map.empty" "pending reg = []"
          "map_of (names reg) = N" "\<forall>d i. i \<in> set (gm_get (persisted reg) d) \<longleftrightarrow> (d, i) \<in> seg_pairs g"
        obtain r4 w4 where lp: "loadPartitions path w3 = (r4, w4)" by fastforce
        have r: "r = (case r4 of Inl e \<Rightarrow> Inl e | Inr ps \<Rightarrow> Inr ((new_storage path)\<lparr>s_registry := reg, s_partitions := ps\<rparr>))"
          "w' = w4" using run3 r3 lp by (auto simp: io_bind_def io_return_def split: sum.splits)
        have o4: "disk_image (w_fs w4) path g P" "env_same w3 w4" "dirs_to (w_fs w4) (path @ [partitionsDir])"
            "dirs_to (w_fs w4) (path @ [seriesDir])"
          and c4: "(\<exists>ps. r4 = Inr ps \<and> opened (w_fs w4) path g P ps \<and> (\<forall>day. P day \<noteq> [] \<longrightarrow> map_of ps day \<noteq> None)) \<or>
            (r4 = Inl ErrIO \<and> \<not> healthy w3)"
          using loadPartitions_outcome[OF o3(1) _ _ rec lp, of seriesDir] o3(3) by blast+
        have "(\<exists>s. r = Inr s \<and> recovered (w_fs w4) path g P N s) \<or> (r = Inl ErrIO \<and> \<not> healthy w)"
          using c4 recovered_intro[OF o4(1) rec o4(3,4) reg] healthy_env[OF _ e3] unfolding r by auto
        then show ?thesis using o4(1) env_same_trans[OF e3 o4(2)] r(2) by blast
      qed
    qed
  qed
qed

section \<open>Recovery of a handle\<close>

text \<open>The parts that a handle has open, by day.\<close>

definition parts_of :: "storage \<Rightarrow> string \<Rightarrow> string list" where
  "parts_of s day = (case map_of (s_partitions s) day of None \<Rightarrow> [] | Some p \<Rightarrow> p_parts p)"

text \<open>Part numbers below their limit, and all days with names of eight digits: the years 0 to 9999.\<close>

definition reopenable :: "storage \<Rightarrow> ghost \<Rightarrow> bool" where
  "reopenable s g \<longleftrightarrow>
     (\<forall>day p. map_of (s_partitions s) day = Some p \<longrightarrow> partitionNameRE day \<and> p_nextID p \<le> 2 ^ 62) \<and>
     (\<forall>(day, i) \<in> g_pairs g. partitionNameRE day)"

lemma disk_image_handle:
  assumes inv: "storage_inv fs s g" and syn: "all_synced fs s" and re: "reopenable s g"
  shows "disk_image fs (s_path s) g (parts_of s)"
proof -
  note I = core_invD[OF inv[unfolded storage_inv_def]]
  have "disk_partition (2 ^ 62) fs (day_dir (s_path s) day) (parts_of s day) (g_parts g day) \<and>
      (parts_of s day \<noteq> [] \<longrightarrow> dirs_to fs (day_dir (s_path s) day))" for day
  proof (cases "map_of (s_partitions s) day")
    case None
    then show ?thesis using I(10)[OF None] by (simp add: parts_of_def dormant_def disk_partition_def)
  next
    case (Some p)
    note st = partition_stateD[OF I(8)[OF Some]]
    have n: "p_nextID p \<le> 2 ^ 62" using re Some by (simp add: reopenable_def)
    have man: "manifest_of fs (day_dir (s_path s) day) = Some (p_parts p)"
      using syn Some st(2) unfolding all_synced_def synced_def by metis
    have dt: "dirs_to fs (parts_dir (day_dir (s_path s) day))" using st(2,4) by (simp add: partition_inv_def)
    have "numbered (2 ^ 62) nm \<and> holds_part fs (day_dir (s_path s) day) nm (g_parts g day nm)" if "nm \<in> set (p_parts p)" for nm
      using st(2,4) that numbered_mono[OF _ n] by (simp add: partition_inv_def)
    moreover have "lookup fs q \<noteq> Some (File c)" if "prefix q (parts_dir (day_dir (s_path s) day))" for q c
      using dt that by (simp add: dirs_to_def)
    moreover have "i < 2 ^ 62" if "lookup fs (part_dir (day_dir (s_path s) day) nm) \<noteq> None" "Atoi nm = Some i" for nm i
    proof -
      have "i < p_nextID p" using st(2,5) that unfolding orphans_ok_def by metis
      then show ?thesis using n by simp
    qed
    moreover have "distinct (p_parts p)" using st(4) by (simp add: partition_inv_def)
    moreover have "dirs_to fs (day_dir (s_path s) day)"
    proof -
      have "prefix (day_dir (s_path s) day) (parts_dir (day_dir (s_path s) day))" by (simp add: parts_dir_def)
      then show ?thesis using dt prefix_order.trans unfolding dirs_to_def by blast
    qed
    ultimately show ?thesis using man Some by (simp add: disk_partition_def parts_of_def)
  qed
  then show ?thesis using I(3) by (simp add: disk_image_def)
qed

lemma recoverable_handle:
  assumes inv: "storage_inv fs s g" and re: "reopenable s g" and pend: "pending (s_registry s) = []"
  shows "recoverable g (parts_of s) (map_of (names (s_registry s)))"
proof -
  note I = core_invD[OF inv[unfolded storage_inv_def]]
  note R = registry_invD[OF I(4)]
  let ?N = "map_of (names (s_registry s))"
  have "i + 1 \<noteq> 0" if "?N i = Some ls" for i ls
  proof -
    have "i < nextID (s_registry s)" using R(1) that by (simp add: registry_ok_def)
    then have "unat i < 2 ^ 64 - 1" using unsigned_less[of "nextID (s_registry s)", where 'a = nat] by (simp add: word_less_nat_alt)
    then show ?thesis by (rule room_unat)
  qed
  moreover have "naming_ok ?N" using R(1) by (simp add: registry_ok_def)
  moreover have "(i, ls) \<in> seg_records (g_fwd g) \<longleftrightarrow> ?N i = Some ls" for i ls using R(4,5)[of i ls] pend by auto
  moreover have "?N i = Some ls \<and> partitionNameRE day" if "(i, ls) \<in> seg_records (g_inv g day)" for day i ls
    using R(6)[OF that] re by (auto simp: reopenable_def)
  moreover have "partitionNameRE day" if "parts_of s day \<noteq> []" for day
    using that re by (auto simp: parts_of_def reopenable_def split: option.splits)
  moreover have "of_day day sm \<and> (\<exists>ls. (sid, ls) \<in> seg_records (g_inv g day))"
    if sm: "sm \<in># samples_in (g_parts g day) (parts_of s day) sid" for day sid sm
  proof -
    obtain p where p: "map_of (s_partitions s) day = Some p" "parts_of s day = p_parts p"
      using sm by (auto simp: parts_of_def split: option.splits)
    then show ?thesis using I(9)[OF p(1)] sm R(7) by (auto simp: samples_indexed_def)
  qed
  ultimately show ?thesis using R(3) unfolding recoverable_def by blast
qed

text \<open>Sums over two maps with the same contribution of every day.\<close>

lemma psum_contributions:
  assumes "gm_wf ps" and "finite A" and "fst ` set ps \<subseteq> A"
  shows "psum f ps = (\<Sum>day\<in>A. case map_of ps day of None \<Rightarrow> {#} | Some p \<Rightarrow> f day p)"
proof -
  have "psum f ps = (\<Sum>(day, p)\<in>set ps. f day p)"
    using assms(1) by (simp add: psum_def sum_list_distinct_conv_sum_set distinct_map)
  also have "\<dots> = (\<Sum>day\<in>fst ` set ps. case map_of ps day of None \<Rightarrow> {#} | Some p \<Rightarrow> f day p)"
  proof (subst sum.reindex)
    show "inj_on fst (set ps)" using assms(1) by (simp add: distinct_map)
    show "(\<Sum>(day, p)\<in>set ps. f day p) =
        sum ((\<lambda>day. case map_of ps day of None \<Rightarrow> {#} | Some p \<Rightarrow> f day p) \<circ> fst) (set ps)"
      using assms(1) by (intro sum.cong) auto
  qed
  also have "\<dots> = (\<Sum>day\<in>A. case map_of ps day of None \<Rightarrow> {#} | Some p \<Rightarrow> f day p)"
    using assms(2,3) by (intro sum.mono_neutral_left) (auto simp: map_of_eq_None_iff[THEN iffD2])
  finally show ?thesis .
qed

lemma disk_samples_parts:
  assumes "gm_wf (s_partitions s)" and "gm_wf (s_partitions s')" and "\<And>day. parts_of s' day = parts_of s day"
    and "g_parts g' = g_parts g"
  shows "disk_samples s' g' sid = disk_samples s g sid"
proof -
  let ?A = "fst ` set (s_partitions s) \<union> fst ` set (s_partitions s')"
  have "(case map_of (s_partitions t) day of None \<Rightarrow> {#} | Some p \<Rightarrow> samples_in (g_parts g day) (p_parts p) sid) =
      samples_in (g_parts g day) (parts_of t day) sid" for t day
    by (simp add: parts_of_def split: option.splits)
  then show ?thesis
    unfolding disk_samples_def assms(4)
    using psum_contributions[OF assms(1), of ?A "\<lambda>day p. samples_in (g_parts g day) (p_parts p) sid"]
      psum_contributions[OF assms(2), of ?A "\<lambda>day p. samples_in (g_parts g day) (p_parts p) sid"] assms(3) by simp
qed

theorem Open_after_Flush:
  assumes inv: "storage_inv (w_fs w) s g" and syn: "all_synced (w_fs w) s" and re: "reopenable s g"
    and pend: "pending (s_registry s) = []" and run: "Open (s_path s) w = (r, w')"
  shows "(\<exists>s' g'. r = Inr s' \<and> storage_inv (w_fs w') s' g' \<and> all_synced (w_fs w') s' \<and> s_mem s' = [] \<and>
      map_of (names (s_registry s')) = map_of (names (s_registry s)) \<and>
      (\<forall>sid. contents s' g' sid = disk_samples s g sid)) \<or> (r = Inl ErrIO \<and> \<not> healthy w)"
proof -
  note o1 = Open_recovers[OF disk_image_handle[OF inv syn re] recoverable_handle[OF inv re pend] run]
  have "\<exists>g'. storage_inv (w_fs w') s' g' \<and> all_synced (w_fs w') s' \<and> s_mem s' = [] \<and>
      map_of (names (s_registry s')) = map_of (names (s_registry s)) \<and>
      (\<forall>sid. contents s' g' sid = disk_samples s g sid)"
    if rc: "recovered (w_fs w') (s_path s) g (parts_of s) (map_of (names (s_registry s))) s'" for s'
  proof (intro exI conjI allI)
    let ?g = "g\<lparr>g_pairs := seg_pairs g\<rparr>"
    show inv': "storage_inv (w_fs w') s' ?g" and "all_synced (w_fs w') s'" and "s_mem s' = []"
      and "map_of (names (s_registry s')) = map_of (names (s_registry s))"
      using rc by (simp_all add: recovered_def)
    have wf: "gm_wf (s_partitions s)" "gm_wf (s_partitions s')"
      using core_invD(6) inv inv' unfolding storage_inv_def by blast+
    have K: "(case map_of (s_partitions s') day of None \<Rightarrow> parts_of s day = [] | Some p \<Rightarrow> p_parts p = parts_of s day \<and> p_nextID p \<le> 2 ^ 62)" for day
      using rc unfolding recovered_def by simp
    have "parts_of s' day = parts_of s day" for day
      using K[of day] unfolding parts_of_def[of s'] by (cases "map_of (s_partitions s') day") simp_all
    from disk_samples_parts[OF wf this, of ?g g] \<open>s_mem s' = []\<close>
    show "contents s' ?g sid = disk_samples s g sid" for sid by (simp add: contents_def)
  qed
  then show ?thesis using o1 by blast
qed

section \<open>A new directory\<close>

definition no_ghost :: ghost where
  "no_ghost = \<lparr>g_parts = \<lambda>_ _. [], g_fwd = Map.empty, g_inv = \<lambda>_. Map.empty, g_pairs = {}\<rparr>"

lemma no_ghost_simps [simp]:
  "g_parts no_ghost day = (\<lambda>_. [])" "g_fwd no_ghost = Map.empty" "g_inv no_ghost day = Map.empty" "g_pairs no_ghost = {}"
  by (simp_all add: no_ghost_def)

text \<open>No file at \<open>path\<close>, on the way to it or in it, and nothing in its directories.\<close>

definition fresh_dir :: "jdoc fs \<Rightarrow> path \<Rightarrow> bool" where
  "fresh_dir fs path \<longleftrightarrow>
     (\<forall>q c. prefix q path \<longrightarrow> lookup fs q \<noteq> Some (File c)) \<and>
     (\<forall>x c. lookup fs (path @ [x]) \<noteq> Some (File c)) \<and> (\<forall>q. 1 < length q \<longrightarrow> lookup fs (path @ q) = None)"

lemma fresh_nofile:
  assumes "fresh_dir fs path" and "prefix q (path @ p)"
  shows "lookup fs q \<noteq> Some (File c)"
proof -
  from assms(2) consider "prefix q path" | zs where "q = path @ zs" by (auto simp: prefix_append)
  then show ?thesis
  proof cases
    case (2 zs)
    consider "zs = []" | x where "zs = [x]" | "1 < length zs" by (cases zs rule: remdups_adj.cases) auto
    then show ?thesis using assms(1) unfolding fresh_dir_def 2 by cases auto
  qed (use assms(1) in \<open>simp add: fresh_dir_def\<close>)
qed

lemma fresh_image:
  assumes "fresh_dir fs path"
  shows "disk_image fs path no_ghost (\<lambda>_. [])"
proof -
  have none: "lookup fs (path @ q) = None" if "1 < length q" for q using assms that by (simp add: fresh_dir_def)
  have seg: "seg_dir fs (path @ q) Map.empty" if "1 < length q" for q
  proof -
    have "lookup fs (path @ q @ [nm]) = None" for nm using none[of "q @ [nm]"] that by (cases q) simp_all
    then show ?thesis using fresh_nofile[OF assms] by (simp add: seg_dir_def)
  qed
  have "index_dirs fs path no_ghost" using seg by (simp add: index_dirs_def)
  moreover have "disk_partition (2 ^ 62) fs (day_dir path day) [] (\<lambda>_. [])" for day
  proof -
    have "manifest_of fs (day_dir path day) = Some []"
      using none[of "[partitionsDir, day, ''manifest.json'']"] by (simp add: manifest_of_def manifest_path_def)
    moreover have "lookup fs (part_dir (day_dir path day) nm) = None" for nm
      using none[of "[partitionsDir, day, ''parts'', nm]"] by (simp add: part_dir_def parts_dir_def)
    moreover have "lookup fs q \<noteq> Some (File c)" if "prefix q (parts_dir (day_dir path day))" for q c
      by (rule fresh_nofile[OF assms, of _ "[partitionsDir, day, ''parts'']"]) (use that in \<open>simp add: parts_dir_def\<close>)
    ultimately show ?thesis by (simp add: disk_partition_def)
  qed
  ultimately show ?thesis by (simp add: disk_image_def)
qed

lemma fresh_recoverable: "recoverable no_ghost (\<lambda>_. []) Map.empty"
  by (simp add: recoverable_def naming_ok_def seg_records_def)

text \<open>Opened, a new directory is an empty database.\<close>

theorem Open_new:
  assumes "fresh_dir (w_fs w) path" and "Open path w = (r, w')"
  shows "(\<exists>s g. r = Inr s \<and> storage_inv (w_fs w') s g \<and> all_synced (w_fs w') s \<and> names (s_registry s) = [] \<and>
      (\<forall>sid. contents s g sid = {#})) \<or> (r = Inl ErrIO \<and> \<not> healthy w)"
proof -
  have empty: "names (s_registry s) = [] \<and> contents s (no_ghost\<lparr>g_pairs := seg_pairs no_ghost\<rparr>) sid = {#}"
    if "recovered fs path no_ghost (\<lambda>_. []) Map.empty s" for fs s sid
  proof -
    have "samples_in (g_parts no_ghost day) nms sid = {#}" for day nms
      by (induction nms) (simp_all add: samples_in_def)
    then have "psum (\<lambda>day p. samples_in (g_parts no_ghost day) (p_parts p) sid) ps = {#}" for ps
      by (induction ps) auto
    then show ?thesis
      using that by (simp add: recovered_def contents_def disk_samples_def)
  qed
  show ?thesis
    using Open_recovers[OF fresh_image[OF assms(1)] fresh_recoverable assms(2)] empty unfolding recovered_def by blast
qed

text \<open>The handle that \<open>Open\<close> returns there, once the two directories exist.\<close>

lemma new_storage_inv:
  assumes "fresh_dir fs path" and "dirs_to fs (path @ [partitionsDir])" and "dirs_to fs (path @ [seriesDir])"
  shows "storage_inv fs (new_storage path) no_ghost" and "all_synced fs (new_storage path)"
proof -
  have np: "seg_pairs no_ghost = {}" by (simp add: seg_pairs_def seg_records_def)
  have g: "no_ghost\<lparr>g_pairs := seg_pairs no_ghost\<rparr> = no_ghost" unfolding np by (simp add: no_ghost_def)
  have reg: "registry_inv (no_ghost\<lparr>g_pairs := seg_pairs no_ghost\<rparr>) NewRegistry Map.empty"
    by (rule registry_invI) (simp_all add: g NewRegistry_def[THEN arg_cong, of names] NewRegistry_def[THEN arg_cong, of persisted] seg_records_def)
  have "recovered fs path no_ghost (\<lambda>_. []) Map.empty ((new_storage path)\<lparr>s_registry := NewRegistry, s_partitions := []\<rparr>)"
    by (rule recovered_intro[OF fresh_image[OF assms(1)] fresh_recoverable assms(2,3) reg])
      (simp_all add: NewRegistry_def opened_def np)
  then show "storage_inv fs (new_storage path) no_ghost" "all_synced fs (new_storage path)"
    unfolding recovered_def g by (simp_all add: new_storage_def)
qed

end
