(* ===== verification/Query.thy ===== *)
theory Query
  imports Storage
begin

text \<open>
  Range queries and retention: \<open>QueryRange\<close> of \<open>storage/query.go\<close>, \<open>ApplyRetention\<close> of
  \<open>storage/retention.go\<close>.
\<close>

section \<open>Range queries\<close>

record SeriesResult =
  sr_ID :: uint64
  sr_Labels :: "Label list"
  sr_Samples :: "Sample list"

text \<open>
  The scan of one part: the matching samples of each series are appended to what the query has
  found so far.
\<close>

type_synonym scan = "series_data \<times> QueryStats"

definition scan_part :: "path \<Rightarrow> uint64 list \<Rightarrow> int64 \<Rightarrow> int64 \<Rightarrow> scan \<Rightarrow> string \<Rightarrow> scan diskio" where
  "scan_part dir want startMs endMs = (\<lambda>(merged, st) nm.
     io_bind (readPart (part_dir dir nm) want startMs endMs st) (\<lambda>(blocks, st).
       io_return (merge_into merged blocks, st)))"

definition scan_partition :: "uint64 list \<Rightarrow> int64 \<Rightarrow> int64 \<Rightarrow> scan \<Rightarrow> partition \<Rightarrow> scan diskio" where
  "scan_partition want startMs endMs acc p =
     (if p_dropped p then io_return acc
      else io_fold (scan_part (p_dir p) want startMs endMs) acc (p_parts p))"

definition scan_mem :: "series_data \<Rightarrow> int64 \<Rightarrow> int64 \<Rightarrow> series_data \<Rightarrow> uint64 list \<Rightarrow> series_data" where
  "scan_mem mem startMs endMs =
     foldl (\<lambda>merged sid. append_at sid (filter (in_window startMs endMs) (gm_get mem sid)) merged)"

text \<open>One round of the last loop, from the series found to the result list.\<close>

definition add_result ::
  "disk \<Rightarrow> Registry \<Rightarrow> series_data \<Rightarrow> SeriesResult list \<times> QueryStats \<Rightarrow> uint64 \<Rightarrow> SeriesResult list \<times> QueryStats" where
  "add_result w r merged = (\<lambda>(results, st) sid.
     (let samples = gm_get merged sid in
      if samples = [] then (results, st)
      else
        (results @ [\<lparr>sr_ID = sid,
           sr_Labels = (case Labels r sid of None \<Rightarrow> [] | Some labels \<Rightarrow> labels),
           sr_Samples = sortSamples w (unat sid) samples\<rparr>],
         st\<lparr>PointsReturned := PointsReturned st + of_nat (length samples)\<rparr>)))"

definition no_stats :: QueryStats where
  "no_stats = \<lparr>PartsScanned = 0, BlocksScanned = 0, PointsScanned = 0, PointsReturned = 0\<rparr>"

definition QueryRange ::
  "storage \<Rightarrow> Matcher list \<Rightarrow> int64 \<Rightarrow> int64 \<Rightarrow> (SeriesResult list \<times> QueryStats) diskio" where
  "QueryRange s matchers startMs endMs =
     (let ids = Match (s_registry s) matchers in
      if ids = [] then io_return ([], no_stats)
      else
        io_bind (io_fold (scan_partition ids startMs endMs) ([], no_stats) (partitionsInRange s startMs endMs))
          (\<lambda>(merged, st) w.
             (Inr (foldl (add_result w (s_registry s) (scan_mem (s_mem s) startMs endMs merged ids)) ([], st) ids), w)))"

section \<open>Retention\<close>

definition dayMs :: int64 where
  "dayMs = 86400000"

text \<open>
  One round: the partition leaves the map whatever becomes of its directory, its inverted index
  only after the directory is gone. The flag \<open>dropped\<close> set on the partition is seen only by
  those that hold a reference to it; here nobody does.
\<close>

definition drop_partition :: "storage \<Rightarrow> partition \<Rightarrow> disk \<Rightarrow> unit res \<times> storage \<times> disk" where
  "drop_partition s p w =
     (case removeAll (p_dir p) w of (r, w) \<Rightarrow>
        (let s = s\<lparr>s_partitions := AList.delete (p_day p) (s_partitions s)\<rparr> in
         case r of
           Inl e \<Rightarrow> (Inl e, s, w)
         | Inr _ \<Rightarrow>
             (case removeAll (inverted_dir (s_path s) (p_day p)) w of
                (Inl e, w) \<Rightarrow> (Inl e, s, w)
              | (Inr _, w) \<Rightarrow> (Inr (), s\<lparr>s_registry := DropDay (s_registry s) (p_day p)\<rparr>, w))))"

fun drop_partitions :: "storage \<Rightarrow> partition list \<Rightarrow> disk \<Rightarrow> unit res \<times> storage \<times> disk" where
  "drop_partitions s [] w = (Inr (), s, w)"
| "drop_partitions s (p # ps) w =
     (case drop_partition s p w of
        (Inl e, s, w) \<Rightarrow> (Inl e, s, w)
      | (Inr _, s, w) \<Rightarrow> drop_partitions s ps w)"

definition cutoff_day :: "int \<Rightarrow> int64 \<Rightarrow> string" where
  "cutoff_day retentionDays nowMs = dayString (nowMs - of_int retentionDays * dayMs)"

definition ApplyRetention :: "storage \<Rightarrow> int \<Rightarrow> int64 \<Rightarrow> disk \<Rightarrow> unit res \<times> storage \<times> disk" where
  "ApplyRetention s retentionDays nowMs w =
     (if retentionDays \<le> 0 then (Inr (), s, w)
      else
        drop_partitions s
          (map snd (filter (\<lambda>(day, p). day < cutoff_day retentionDays nowMs) (shuffle w 0 (s_partitions s)))) w)"

end
