(* ===== verification/QuerySpec.thy ===== *)
theory QuerySpec
  imports StorageOps Query
begin

text \<open>
  What a range query returns: for every series that the matchers select, the samples of buffer
  and disk that lie in the window, in the order of their time.
\<close>

section \<open>The scan of the disk\<close>

lemma yields_scan_part:
  assumes "holds_part fs dir nm data" and "gm_wf merged"
  shows "yields fs (scan_part dir want startMs endMs (merged, st) nm)
    (\<lambda>r. \<exists>m st'. r = Inr (m, st') \<and> gm_wf m \<and> PointsReturned st' = PointsReturned st \<and>
       (\<forall>sid. gm_get m sid = gm_get merged sid @ window_of want startMs endMs data sid))"
proof -
  obtain meta where sp: "stored_part fs (part_dir dir nm) meta data" using assms(1) by (auto simp: holds_part_def)
  have rs: "PointsReturned (read_stats meta want startMs endMs data st) = PointsReturned st"
    by (simp add: read_stats_def stats_after_def)
  show ?thesis
    unfolding scan_part_def prod.case
  proof (rule yields_bind[OF yields_readPart[OF sp]])
    fix x assume "\<exists>out. Inr x = Inr (out, read_stats meta want startMs endMs data st) \<and> gm_wf out \<and>
       gm_get out = window_of want startMs endMs data"
    then obtain out where x: "x = (out, read_stats meta want startMs endMs data st)" "gm_wf out"
      "gm_get out = window_of want startMs endMs data" by auto
    note m = merge_into_props[OF x(2) assms(2)]
    show "yields fs (case x of (blocks, st) \<Rightarrow> io_return (merge_into merged blocks, st))
      (\<lambda>r. \<exists>m st'. r = Inr (m, st') \<and> gm_wf m \<and> PointsReturned st' = PointsReturned st \<and>
       (\<forall>sid. gm_get m sid = gm_get merged sid @ window_of want startMs endMs data sid))"
      unfolding x(1) prod.case by (rule yields_return) (use m x rs in auto)
  qed auto
qed

text \<open>The samples of the wanted series in the window, of a multiset of samples.\<close>

definition wanted_window ::
  "uint64 list \<Rightarrow> int64 \<Rightarrow> int64 \<Rightarrow> (uint64 \<Rightarrow> Sample multiset) \<Rightarrow> uint64 \<Rightarrow> Sample multiset" where
  "wanted_window want startMs endMs M sid =
     (if sid \<in> set want then filter_mset (in_window startMs endMs) (M sid) else {#})"

lemma mset_window_of: "mset (window_of want startMs endMs data sid) =
    wanted_window want startMs endMs (\<lambda>sid. mset (gm_get data sid)) sid"
  by (simp add: window_of_def wanted_window_def)

text \<open>What a scan has found: \<open>M\<close> in all, on top of where it began.\<close>

definition scan_found :: "series_data \<times> QueryStats \<Rightarrow> (uint64 \<Rightarrow> Sample multiset) \<Rightarrow> series_data \<times> QueryStats \<Rightarrow> bool" where
  "scan_found acc M acc' \<longleftrightarrow> gm_wf (fst acc') \<and> PointsReturned (snd acc') = PointsReturned (snd acc) \<and>
     (\<forall>sid. mset (gm_get (fst acc') sid) = mset (gm_get (fst acc) sid) + M sid)"

lemma yields_scan_partition:
  assumes "partition_inv fs p D" and "\<not> p_dropped p" and "gm_wf (fst acc)"
  shows "yields fs (scan_partition want startMs endMs acc p)
    (\<lambda>r. \<exists>acc'. r = Inr acc' \<and>
       scan_found acc (wanted_window want startMs endMs (samples_in D (p_parts p))) acc')"
proof -
  let ?I = "\<lambda>ys. scan_found acc (wanted_window want startMs endMs (samples_in D ys))"
  have "yields fs (io_fold (scan_part (p_dir p) want startMs endMs) acc (p_parts p)) (\<lambda>r. \<exists>acc'. r = Inr acc' \<and> ?I (p_parts p) acc')"
  proof (rule yields_fold)
    show "?I [] acc" using assms(3) by (simp add: scan_found_def wanted_window_def samples_in_def)
    fix ys nm zs a assume ps: "p_parts p = ys @ nm # zs" and I: "?I ys a"
    obtain m st where a: "a = (m, st)" by (cases a)
    have hp: "holds_part fs (p_dir p) nm (D nm)" using assms(1) ps by (simp add: partition_inv_def)
    have wf: "gm_wf m" using I by (simp add: scan_found_def a)
    have step: "\<exists>s'. r = Inr s' \<and> ?I (ys @ [nm]) s'"
      if "\<exists>m' st'. r = Inr (m', st') \<and> gm_wf m' \<and> PointsReturned st' = PointsReturned st \<and>
         (\<forall>sid. gm_get m' sid = gm_get m sid @ window_of want startMs endMs (D nm) sid)" for r
    proof -
      from that obtain m' st' where r: "r = Inr (m', st')" "gm_wf m'" "PointsReturned st' = PointsReturned st"
        "\<forall>sid. gm_get m' sid = gm_get m sid @ window_of want startMs endMs (D nm) sid" by blast
      have "?I (ys @ [nm]) (m', st')"
        using I r by (simp add: scan_found_def a mset_window_of) (simp add: wanted_window_def samples_in_def)
      then show ?thesis using r(1) by blast
    qed
    show "yields fs (scan_part (p_dir p) want startMs endMs a nm) (\<lambda>r. \<exists>s'. r = Inr s' \<and> ?I (ys @ [nm]) s')"
      unfolding a by (rule yields_mono[OF yields_scan_part[OF hp wf] step])
  qed
  then show ?thesis using assms(2) by (simp add: scan_partition_def)
qed

lemma yields_scan_partitions:
  assumes "\<And>p. p \<in> set ps \<Longrightarrow> partition_inv fs p (D p) \<and> \<not> p_dropped p" and "gm_wf (fst acc)"
  shows "yields fs (io_fold (scan_partition want startMs endMs) acc ps)
    (\<lambda>r. \<exists>acc'. r = Inr acc' \<and>
       scan_found acc (wanted_window want startMs endMs (\<lambda>sid. \<Sum>p\<leftarrow>ps. samples_in (D p) (p_parts p) sid)) acc')"
proof -
  let ?I = "\<lambda>ys. scan_found acc (wanted_window want startMs endMs (\<lambda>sid. \<Sum>p\<leftarrow>ys. samples_in (D p) (p_parts p) sid))"
  show ?thesis
  proof (rule yields_fold)
    show "?I [] acc" using assms(2) by (simp add: scan_found_def wanted_window_def)
    fix ys p zs a assume ps: "ps = ys @ p # zs" and I: "?I ys a"
    have p: "partition_inv fs p (D p)" "\<not> p_dropped p" "gm_wf (fst a)"
      using assms(1)[of p] ps I by (simp_all add: scan_found_def)
    have step: "\<exists>s'. r = Inr s' \<and> ?I (ys @ [p]) s'"
      if "\<exists>a'. r = Inr a' \<and> scan_found a (wanted_window want startMs endMs (samples_in (D p) (p_parts p))) a'" for r
      using that I by (auto simp: scan_found_def wanted_window_def)
    show "yields fs (scan_partition want startMs endMs a p) (\<lambda>r. \<exists>s'. r = Inr s' \<and> ?I (ys @ [p]) s')"
      by (rule yields_mono[OF yields_scan_partition[OF p] step])
  qed
qed

section \<open>The partitions of the range\<close>

lemma sum_list_perm: "mset xs = mset ys \<Longrightarrow> (\<Sum>x\<leftarrow>xs. f x) = (\<Sum>x\<leftarrow>ys. f x)" for f :: "'a \<Rightarrow> 'b multiset"
  by (metis mset_map sum_mset_sum_list)

lemma filter_mset_none: "filter_mset P M = {#} \<longleftrightarrow> (\<forall>x \<in># M. \<not> P x)"
  by (induction M) auto

lemma in_sum_list: "x \<in># (\<Sum>y\<leftarrow>ys. f y) \<longleftrightarrow> (\<exists>y \<in> set ys. x \<in># f y)" for f :: "'a \<Rightarrow> 'b multiset"
  by (induction ys) auto

text \<open>A sample in the window lies on a day in the range; the other partitions have none.\<close>

lemma window_day:
  assumes "plain_ms startMs" and "plain_ms endMs" and "in_window startMs endMs sm"
  shows "dayString startMs \<le> dayString (Timestamp sm)" and "dayString (Timestamp sm) \<le> dayString endMs"
proof -
  have w: "sint startMs \<le> sint (Timestamp sm)" "sint (Timestamp sm) \<le> sint endMs"
    using assms(3) by (simp_all add: in_window_def)
  then have "plain_ms (Timestamp sm)" using assms(1,2) by (simp add: plain_ms_def)
  then show "dayString startMs \<le> dayString (Timestamp sm)" "dayString (Timestamp sm) \<le> dayString endMs"
    using w assms(1,2) by (simp_all add: dayString_mono)
qed

lemma window_in_range:
  assumes "\<forall>(day, p) \<in> set ps. \<forall>sm \<in># M day p. of_day day sm" and "plain_ms startMs" and "plain_ms endMs"
  shows "filter_mset (in_window startMs endMs)
      (\<Sum>(day, p)\<leftarrow>filter (\<lambda>(day, p). dayString startMs \<le> day \<and> day \<le> dayString endMs) ps. M day p) =
    filter_mset (in_window startMs endMs) (\<Sum>(day, p)\<leftarrow>ps. M day p)"
  using assms(1)
proof (induction ps)
  case (Cons x ps)
  obtain day p where x: "x = (day, p)" by (cases x)
  have "filter_mset (in_window startMs endMs) (M day p) = {#}"
    if "\<not> (dayString startMs \<le> day \<and> day \<le> dayString endMs)"
    using that window_day[OF assms(2,3)] Cons.prems x by (fastforce simp: filter_mset_none of_day_def)
  then show ?case using Cons by (auto simp: x)
qed simp

lemma scanned_samples:
  assumes inv: "storage_inv fs s g" and "plain_ms startMs" and "plain_ms endMs"
  shows "filter_mset (in_window startMs endMs)
      (\<Sum>p\<leftarrow>partitionsInRange s startMs endMs. samples_in (g_parts g (p_day p)) (p_parts p) sid) =
    filter_mset (in_window startMs endMs) (disk_samples s g sid)"
proof -
  note I = core_invD[OF inv[unfolded storage_inv_def]]
  let ?in = "filter (\<lambda>(day, p). dayString startMs \<le> day \<and> day \<le> dayString endMs) (s_partitions s)"
  let ?M = "\<lambda>day p. samples_in (g_parts g day) (p_parts p) sid"
  have eq: "[p. (day, p) \<leftarrow> ps, dayString startMs \<le> day \<and> day \<le> dayString endMs] =
      map snd (filter (\<lambda>(day, p). dayString startMs \<le> day \<and> day \<le> dayString endMs) ps)" for ps :: "(string \<times> partition) list"
    by (induction ps) (auto split: if_splits)
  have day: "p_day p = day" if "(day, p) \<in> set (s_partitions s)" for day p
    using I(8)[of day p] that set_entries[OF I(6)] by (simp add: partition_state_def)
  have "(\<Sum>p\<leftarrow>partitionsInRange s startMs endMs. ?M (p_day p) p) = (\<Sum>p\<leftarrow>map snd ?in. ?M (p_day p) p)"
    by (rule sum_list_perm) (simp add: partitionsInRange_def Let_def eq)
  also have "\<dots> = (\<Sum>(day, p)\<leftarrow>?in. ?M day p)"
    by (rule arg_cong[where f = sum_list]) (use day in auto)
  finally have sum: "(\<Sum>p\<leftarrow>partitionsInRange s startMs endMs. ?M (p_day p) p) = (\<Sum>(day, p)\<leftarrow>?in. ?M day p)" .
  have "\<forall>(day, p) \<in> set (s_partitions s). \<forall>sm \<in># ?M day p. of_day day sm"
    using I(9) set_entries[OF I(6)] by (auto simp: samples_indexed_def)
  from window_in_range[OF this assms(2,3)] show ?thesis
    unfolding sum by (simp add: disk_samples_def psum_def)
qed

section \<open>The results\<close>

definition result_of :: "disk \<Rightarrow> Registry \<Rightarrow> series_data \<Rightarrow> uint64 \<Rightarrow> SeriesResult" where
  "result_of w r merged sid =
     \<lparr>sr_ID = sid, sr_Labels = (case Labels r sid of None \<Rightarrow> [] | Some labels \<Rightarrow> labels),
      sr_Samples = sortSamples w (unat sid) (gm_get merged sid)\<rparr>"

lemma add_results:
  "foldl (add_result w r merged) (results, st) ids =
     (results @ map (result_of w r merged) (filter (\<lambda>sid. gm_get merged sid \<noteq> []) ids),
      st\<lparr>PointsReturned := PointsReturned st + of_nat (\<Sum>sid\<leftarrow>ids. length (gm_get merged sid))\<rparr>)"
proof (induction ids arbitrary: results st)
  case (Cons sid ids)
  have "add_result w r merged (results, st) sid =
      (results @ (if gm_get merged sid = [] then [] else [result_of w r merged sid]),
       st\<lparr>PointsReturned := PointsReturned st + of_nat (length (gm_get merged sid))\<rparr>)"
    by (simp add: add_result_def result_of_def Let_def)
  then show ?case by (simp add: Cons.IH add.assoc)
qed simp

lemma scan_mem_get:
  "distinct ids \<Longrightarrow> gm_get (scan_mem mem startMs endMs merged ids) sid =
     gm_get merged sid @ (if sid \<in> set ids then filter (in_window startMs endMs) (gm_get mem sid) else [])"
proof (induction ids arbitrary: merged)
  case Nil
  then show ?case by (simp add: scan_mem_def)
next
  case (Cons i ids)
  have "scan_mem mem startMs endMs merged (i # ids) =
      scan_mem mem startMs endMs (append_at i (filter (in_window startMs endMs) (gm_get mem i)) merged) ids"
    by (simp add: scan_mem_def)
  then show ?case using Cons by (auto simp: gm_get_append_at)
qed

text \<open>
  The answer to a query: the series that satisfy every matcher and have samples in the window,
  by ascending ID, with their labels and exactly these samples in the order of time.
\<close>

definition window_contents :: "storage \<Rightarrow> ghost \<Rightarrow> int64 \<Rightarrow> int64 \<Rightarrow> uint64 \<Rightarrow> Sample multiset" where
  "window_contents s g startMs endMs sid = filter_mset (in_window startMs endMs) (contents s g sid)"

definition satisfies :: "Registry \<Rightarrow> Matcher list \<Rightarrow> uint64 \<Rightarrow> bool" where
  "satisfies r ms sid \<longleftrightarrow> (\<exists>ls. map_of (names r) sid = Some ls \<and> (\<forall>m \<in> set ms. matcher_key m \<in> label_keys ls))"

definition query_answer ::
  "storage \<Rightarrow> ghost \<Rightarrow> Matcher list \<Rightarrow> int64 \<Rightarrow> int64 \<Rightarrow> SeriesResult list \<Rightarrow> bool" where
  "query_answer s g ms startMs endMs results \<longleftrightarrow>
     sorted (map sr_ID results) \<and> distinct (map sr_ID results) \<and>
     sr_ID ` set results = {sid. satisfies (s_registry s) ms sid \<and> window_contents s g startMs endMs sid \<noteq> {#}} \<and>
     (\<forall>x \<in> set results. map_of (names (s_registry s)) (sr_ID x) = Some (sr_Labels x) \<and>
        sorted (map sample_time (sr_Samples x)) \<and>
        mset (sr_Samples x) = window_contents s g startMs endMs (sr_ID x))"

text \<open>A series with samples is findable: it is indexed for the day of each of them.\<close>

lemma contents_indexed:
  assumes inv: "storage_inv fs s g" and sm: "sm \<in># contents s g sid"
  shows "(dayString (Timestamp sm), sid) \<in> g_pairs g"
proof -
  note I = core_invD[OF inv[unfolded storage_inv_def]]
  from sm consider "sm \<in> set (gm_get (s_mem s) sid)"
    | day p where "(day, p) \<in> set (s_partitions s)" "sm \<in># samples_in (g_parts g day) (p_parts p) sid"
    by (auto simp: contents_def disk_samples_def psum_def in_sum_list)
  then show ?thesis
  proof cases
    case (2 day p)
    then have "of_day day sm" "sid \<in> set (gm_get (persisted (s_registry s)) day)"
      using I(9)[of day p] set_entries[OF I(6)] by (auto simp: samples_indexed_def)
    then show ?thesis
      using registry_invD(6,7)[OF I(4)] by (fastforce simp: of_day_def)
  qed (use I(7) in blast)
qed

lemma answer_correct:
  assumes inv: "storage_inv fs s g" and ms: "ms \<noteq> []" and ids: "ids = Match (s_registry s) ms"
    and merged: "\<And>sid. mset (gm_get merged sid) = (if sid \<in> set ids then window_contents s g startMs endMs sid else {#})"
    and results: "results = map (result_of w (s_registry s) merged) (filter (\<lambda>sid. gm_get merged sid \<noteq> []) ids)"
  shows "query_answer s g ms startMs endMs results"
proof -
  note I = core_invD[OF inv[unfolded storage_inv_def]]
  note M = Match_spec[OF registry_invD(2)[OF I(4)] ms, folded ids]
  have found: "gm_get merged sid \<noteq> [] \<longleftrightarrow> sid \<in> set ids \<and> window_contents s g startMs endMs sid \<noteq> {#}" for sid
    using merged[of sid] by (metis mset_zero_iff)
  have idl: "map sr_ID results = filter (\<lambda>sid. gm_get merged sid \<noteq> []) ids"
    by (simp add: results result_of_def o_def)
  have in_ids: "sid \<in> set ids \<longleftrightarrow> satisfies (s_registry s) ms sid"
    if ne: "window_contents s g startMs endMs sid \<noteq> {#}" for sid
  proof -
    obtain sm where "sm \<in># contents s g sid" using ne unfolding window_contents_def filter_mset_none by blast
    then have "(dayString (Timestamp sm), sid) \<in> g_pairs g" by (rule contents_indexed[OF inv])
    then show ?thesis using M by (auto simp: satisfies_def)
  qed
  have "sr_ID ` set results = set (filter (\<lambda>sid. gm_get merged sid \<noteq> []) ids)"
    by (simp only: flip: idl set_map)
  also have "\<dots> = {sid. satisfies (s_registry s) ms sid \<and> window_contents s g startMs endMs sid \<noteq> {#}}"
    using found in_ids by auto
  finally have set: "sr_ID ` set results = \<dots>" .
  have each: "map_of (names (s_registry s)) (sr_ID x) = Some (sr_Labels x) \<and>
      sorted (map sample_time (sr_Samples x)) \<and> mset (sr_Samples x) = window_contents s g startMs endMs (sr_ID x)"
    if x: "x \<in> set results" for x
  proof -
    obtain sid where sid: "x = result_of w (s_registry s) merged sid" "sid \<in> set ids"
      using x by (auto simp: results)
    then obtain ls where "map_of (names (s_registry s)) sid = Some ls" using M by auto
    then show ?thesis using sid merged[of sid] by (simp add: result_of_def Labels_def)
  qed
  show ?thesis
    unfolding query_answer_def using set each M idl sorted_filter[of "\<lambda>i. i" ids] by simp
qed

lemma results_length:
  "(\<Sum>x\<leftarrow>map (result_of w r merged) (filter (\<lambda>sid. gm_get merged sid \<noteq> []) ids). length (sr_Samples x)) =
   (\<Sum>sid\<leftarrow>ids. length (gm_get merged sid))"
proof -
  have "length (sr_Samples (result_of w r merged sid)) = length (gm_get merged sid)" for sid
    unfolding result_of_def by (simp flip: size_mset)
  then show ?thesis by (induction ids) auto
qed

lemma yields_pure: "(\<And>w. Q (Inr (h w))) \<Longrightarrow> yields fs (\<lambda>w. (Inr (h w), w)) Q"
  by (simp add: yields_def)

theorem QueryRange_correct:
  assumes inv: "storage_inv (w_fs w) s g" and ms: "ms \<noteq> []" and plain: "plain_ms startMs" "plain_ms endMs"
    and run: "QueryRange s ms startMs endMs w = (r, w')"
  shows "w_fs w' = w_fs w" and "env_same w w'"
    and "(\<exists>results st. r = Inr (results, st) \<and> query_answer s g ms startMs endMs results \<and>
        PointsReturned st = of_nat (\<Sum>x\<leftarrow>results. length (sr_Samples x))) \<or> (r = Inl ErrIO \<and> \<not> healthy w)"
proof -
  note I = core_invD[OF inv[unfolded storage_inv_def]]
  define ids where "ids = Match (s_registry s) ms"
  have M: "distinct ids" unfolding ids_def using Match_spec[OF registry_invD(2)[OF I(4)] ms] by blast
  let ?ps = "partitionsInRange s startMs endMs"
  let ?found = "wanted_window ids startMs endMs (\<lambda>sid. \<Sum>p\<leftarrow>?ps. samples_in (g_parts g (p_day p)) (p_parts p) sid)"
  have found: "?found sid = (if sid \<in> set ids then filter_mset (in_window startMs endMs) (disk_samples s g sid) else {#})" for sid
    using scanned_samples[OF inv plain, of sid] by (simp add: wanted_window_def)
  have ps: "partition_inv (w_fs w) p (g_parts g (p_day p)) \<and> \<not> p_dropped p" if p: "p \<in> set ?ps" for p
  proof -
    obtain day where "(day, p) \<in> set (s_partitions s)" using p by (auto simp: partitionsInRange_def Let_def split: if_splits)
    then show ?thesis using I(8)[of day p] set_entries[OF I(6)] by (auto simp: partition_state_def)
  qed
  let ?ok = "\<lambda>r. \<exists>results st. r = Inr (results, st) \<and> query_answer s g ms startMs endMs results \<and>
        PointsReturned st = of_nat (\<Sum>x\<leftarrow>results. length (sr_Samples x))"
  have "yields (w_fs w) (QueryRange s ms startMs endMs) ?ok"
  proof (cases "ids = []")
    case True
    have "query_answer s g ms startMs endMs []"
      by (rule answer_correct[OF inv ms ids_def, of "[]" _ _ _ undefined]) (simp_all add: True)
    then show ?thesis
      using True unfolding QueryRange_def ids_def[symmetric] Let_def by (auto simp: no_stats_def intro!: yields_return)
  next
    case False
    let ?res = "\<lambda>(merged, st) w. foldl (add_result w (s_registry s) (scan_mem (s_mem s) startMs endMs merged ids)) ([], st) ids"
    have fin: "?ok (Inr (?res acc w1))" if "scan_found ([], no_stats) ?found acc" for acc w1
    proof -
      obtain merged st where acc: "acc = (merged, st)" by (cases acc)
      have m: "mset (gm_get merged sid) = ?found sid" for sid
        using that by (simp add: scan_found_def acc)
      have st: "PointsReturned st = 0" using that by (simp add: scan_found_def acc no_stats_def)
      let ?all = "scan_mem (s_mem s) startMs endMs merged ids"
      have all: "mset (gm_get ?all sid) = (if sid \<in> set ids then window_contents s g startMs endMs sid else {#})" for sid
        using m[of sid] found[of sid] by (simp add: scan_mem_get[OF M] window_contents_def contents_def)
      show ?thesis
        using answer_correct[OF inv ms ids_def all refl, of w1] st
        by (auto simp add: acc add_results results_length simp del: map_map)
    qed
    have eq: "QueryRange s ms startMs endMs =
        io_bind (io_fold (scan_partition ids startMs endMs) ([], no_stats) ?ps) (\<lambda>acc w. (Inr (?res acc w), w))"
      using False by (simp add: QueryRange_def ids_def[symmetric] case_prod_unfold)
    have y: "yields (w_fs w) (io_fold (scan_partition ids startMs endMs) ([], no_stats) ?ps)
        (\<lambda>r. \<exists>acc'. r = Inr acc' \<and> scan_found ([], no_stats) ?found acc')"
      by (rule yields_scan_partitions) (use ps in simp_all)
    show ?thesis
      unfolding eq
    proof (rule yields_bind[OF y])
      fix acc assume "\<exists>acc'. Inr acc = Inr acc' \<and> scan_found ([], no_stats) ?found acc'"
      then have "scan_found ([], no_stats) ?found acc" by blast
      from fin[OF this] show "yields (w_fs w) (\<lambda>w. (Inr (?res acc w), w)) ?ok" by (rule yields_pure)
    qed simp
  qed
  from yieldsD[OF this run] show "w_fs w' = w_fs w" "env_same w w'"
    "(\<exists>results st. r = Inr (results, st) \<and> query_answer s g ms startMs endMs results \<and>
        PointsReturned st = of_nat (\<Sum>x\<leftarrow>results. length (sr_Samples x))) \<or> (r = Inl ErrIO \<and> \<not> healthy w)"
    by blast+
qed

end
