(* ===== verification/RetentionSpec.thy ===== *)
theory RetentionSpec
  imports QuerySpec
begin

text \<open>
  What a retention pass does: the expired days go, with their inverted index; every other sample,
  every series and the invariant stay, if the buffer holds no sample of an expired day. The last
  section shows what happens to such samples.
\<close>

section \<open>Deleting a tree\<close>

lemma removeAll_Inr:
  assumes "removeAll p w = (Inr u, w')"
  shows "lookup (w_fs w') q = (if prefix p q then None else lookup (w_fs w) q)" and "env_same w w'"
proof -
  have fs: "p \<noteq> []" "w_fs w' = subtree_delete p (w_fs w)"
    using assms by (auto simp: removeAll_def sys_run split: fault.splits if_splits)
  then show "lookup (w_fs w') q = (if prefix p q then None else lookup (w_fs w) q)"
    by (simp add: lookup_subtree_delete)
  show "env_same w w'" using assms by (auto simp: removeAll_def sys_run env_same_def)
qed

lemma removeAll_healthy_Inr: "healthy w \<Longrightarrow> p \<noteq> [] \<Longrightarrow> fst (removeAll p w) = Inr ()"
  by (simp add: removeAll_healthy)

text \<open>The tree of the day and the tree of its index are gone, all else is as before.\<close>

definition day_removed :: "path \<Rightarrow> string \<Rightarrow> jdoc fs \<Rightarrow> jdoc fs \<Rightarrow> bool" where
  "day_removed path day fs fs' \<longleftrightarrow>
     (\<forall>q. lookup fs' q =
        (if prefix (day_dir path day) q \<or> prefix (inverted_dir path day) q then None else lookup fs q))"

lemma day_removed_agree:
  assumes "day_removed path day fs fs'" and "apart (day_dir path day) B" and "apart (inverted_dir path day) B"
  shows "agree B fs fs'"
proof -
  have "lookup fs' q = lookup fs q" if "prefix B q \<or> prefix q B" for q
    using assms that unfolding day_removed_def apart_def by (metis prefix_order.trans prefix_same_cases)
  then show ?thesis by (simp add: agree_def)
qed

lemma day_removed_roots:
  assumes "day_removed path day fs fs'" and "dirs_to fs (path @ [x])"
  shows "dirs_to fs' (path @ [x])"
proof -
  have "\<not> prefix (day_dir path day) q" "\<not> prefix (inverted_dir path day) q" if "prefix q (path @ [x])" for q
    using prefix_length_le[OF that] by (auto dest!: prefix_length_le)
  then show ?thesis using assms by (simp add: dirs_to_def day_removed_def)
qed

lemma day_removed_dormant:
  assumes rm: "day_removed path day fs fs'" and dt: "dirs_to fs (parts_dir (day_dir path day))"
  shows "dormant fs' (day_dir path day)"
proof -
  have gone: "lookup fs' q = None" if "prefix (day_dir path day) q" for q using rm that by (simp add: day_removed_def)
  have "manifest_of fs' (day_dir path day) = Some []"
    using gone[of "manifest_path (day_dir path day)"] by (simp add: manifest_of_def manifest_path_def)
  moreover have "lookup fs' (part_dir (day_dir path day) nm) = None" for nm
    by (rule gone) (simp add: part_dir_def parts_dir_def)
  moreover have "lookup fs' q \<noteq> Some (File c)" if "prefix q (parts_dir (day_dir path day))" for q c
    using rm dt that by (auto simp: day_removed_def dirs_to_def)
  ultimately show ?thesis by (simp add: dormant_def disk_partition_def)
qed

lemma day_removed_segments:
  assumes rm: "day_removed path day fs fs'" and sd: "seg_dir fs (inverted_dir path day) S"
  shows "seg_dir fs' (inverted_dir path day) Map.empty"
proof -
  have gone: "lookup fs' q = None" if "prefix (inverted_dir path day) q" for q using rm that by (simp add: day_removed_def)
  have "lookup fs' q \<noteq> Some (File c)" if "prefix q (inverted_dir path day)" for q c
    using rm seg_dirD(1)[OF sd that] by (auto simp: day_removed_def)
  moreover have "lookup fs' (inverted_dir path day @ [nm]) = None" for nm by (rule gone) simp
  ultimately show ?thesis by (simp add: seg_dir_def)
qed

section \<open>Dropping one day\<close>

definition drop_ghost :: "string \<Rightarrow> ghost \<Rightarrow> ghost" where
  "drop_ghost day g = g\<lparr>g_inv := (g_inv g)(day := Map.empty), g_pairs := {(d, i) \<in> g_pairs g. d \<noteq> day}\<rparr>"

lemma registry_inv_drop:
  assumes "registry_inv g r pend"
  shows "registry_inv (drop_ghost day g) (DropDay r day) pend"
proof -
  note R = registry_invD[OF assms]
  have same: "names (DropDay r day) = names r" by (simp add: DropDay_def)
  have pers: "gm_get (persisted (DropDay r day)) d = (if d = day then [] else gm_get (persisted r) d)" for d
    by (cases "d = day") (simp_all add: DropDay_def)
  show ?thesis
  proof (rule registry_invI)
    show "registry_ok (DropDay r day)" using R(1) by (simp add: registry_ok_def DropDay_def)
    show "index_reflects (DropDay r day) (g_pairs (drop_ghost day g))"
      using DropDay_reflects[OF R(2), of day] by (simp add: drop_ghost_def)
    show "map_of (names (DropDay r day)) i = Some ls \<and> (d, i) \<in> g_pairs (drop_ghost day g)"
      if "(i, ls) \<in> seg_records (g_inv (drop_ghost day g) d)" for i ls d
      using that R(6)[of i ls d] by (auto simp: drop_ghost_def same seg_records_def split: if_splits)
    show "\<exists>ls. (i, ls) \<in> seg_records (g_inv (drop_ghost day g) d)"
      if "i \<in> set (gm_get (persisted (DropDay r day)) d)" for i d
      using that R(7)[of i d] by (auto simp: pers drop_ghost_def split: if_splits)
  qed (use R(3-5) in \<open>auto simp: drop_ghost_def same\<close>)
qed

lemma core_inv_drop:
  assumes inv: "core_inv fs s g pend" and p: "map_of (s_partitions s) day = Some p"
    and mem: "\<And>sid sm. sm \<in> set (gm_get (s_mem s) sid) \<Longrightarrow> dayString (Timestamp sm) \<noteq> day"
    and rm: "day_removed (s_path s) day fs fs'"
  shows "core_inv fs' (s\<lparr>s_partitions := AList.delete day (s_partitions s), s_registry := DropDay (s_registry s) day\<rparr>)
    (drop_ghost day g) pend"
proof -
  note I = core_invD[OF inv]
  let ?s = "s\<lparr>s_partitions := AList.delete day (s_partitions s), s_registry := DropDay (s_registry s) day\<rparr>"
  have ag: "agree (day_dir (s_path s) d) fs fs'" "agree (inverted_dir (s_path s) d) fs fs'" if "d \<noteq> day" for d
    using day_removed_agree[OF rm] apart_dirs that by auto
  have agx: "agree (indexdb_dir (s_path s)) fs fs'" using day_removed_agree[OF rm] apart_dirs by auto
  have idx: "index_dirs fs' (s_path s) (drop_ghost day g)"
    unfolding index_dirs_def
  proof (intro conjI allI)
    show "seg_dir fs' (indexdb_dir (s_path s)) (g_fwd (drop_ghost day g))"
      using agree_seg_dir[OF agx index_dirsD(1)[OF I(3)]] by (simp add: drop_ghost_def)
    fix d
    show "seg_dir fs' (inverted_dir (s_path s) d) (g_inv (drop_ghost day g) d)"
      using day_removed_segments[OF rm index_dirsD(2)[OF I(3)]] agree_seg_dir[OF ag(2) index_dirsD(2)[OF I(3)]]
      by (cases "d = day") (simp_all add: drop_ghost_def)
  qed
  have ps: "map_of (s_partitions ?s) d = (if d = day then None else map_of (s_partitions s) d)" for d
    by (simp add: AList.delete_conv')
  have part: "partition_state fs' (s_path s) d q (g_parts g d)" if "map_of (s_partitions s) d = Some q" "d \<noteq> day" for d q
  proof -
    note st = partition_stateD[OF I(8)[OF that(1)]]
    have "agree (p_dir q) fs fs'" using ag(1)[OF that(2)] st(2) by simp
    then show ?thesis using agree_partition st by (simp add: partition_state_def)
  qed
  have dt: "dirs_to fs (parts_dir (day_dir (s_path s) day))"
    using partition_stateD(2,4)[OF I(8)[OF p]] by (simp add: partition_inv_def)
  have dor: "dormant fs' (day_dir (s_path s) d)" if "map_of (s_partitions ?s) d = None" for d
    using day_removed_dormant[OF rm dt] agree_disk_partition[OF ag(1)] I(10)[of d] that
    by (cases "d = day") (simp_all add: ps dormant_def)
  have ix: "samples_indexed (DropDay (s_registry s) day) d M" if "samples_indexed (s_registry s) d M" "d \<noteq> day" for d M
    using that by (simp add: samples_indexed_def DropDay_def)
  show ?thesis
    unfolding core_inv_def
  proof (intro conjI allI impI ballI)
    fix d q assume "map_of (s_partitions ?s) d = Some q"
    then have q: "map_of (s_partitions s) d = Some q" "d \<noteq> day" by (simp_all add: ps split: if_splits)
    show "partition_state fs' (s_path ?s) d q (g_parts (drop_ghost day g) d)" using part[OF q] by (simp add: drop_ghost_def)
    show "samples_indexed (s_registry ?s) d (samples_in (g_parts (drop_ghost day g) d) (p_parts q))"
      using ix[OF I(9)[OF q(1)] q(2)] by (simp add: drop_ghost_def)
  qed (use day_removed_roots[OF rm] I(1,2,5,6,7) idx registry_inv_drop[OF I(4)] mem dor in \<open>auto simp: drop_ghost_def\<close>)
qed

lemma all_synced_drop:
  assumes inv: "core_inv fs s g pend" and rm: "day_removed (s_path s) day fs fs'" and syn: "all_synced fs s"
    and ps: "\<And>d. map_of (s_partitions s') d = (if d = day then None else map_of (s_partitions s) d)"
  shows "all_synced fs' s'"
  unfolding all_synced_def
proof (intro allI impI)
  fix d q assume "map_of (s_partitions s') d = Some q"
  then have q: "map_of (s_partitions s) d = Some q" "d \<noteq> day" by (simp_all add: ps split: if_splits)
  have "agree (day_dir (s_path s) d) fs fs'" using day_removed_agree[OF rm] apart_dirs q(2) by auto
  then have "agree (p_dir q) fs fs'" using partition_stateD(2)[OF core_invD(8)[OF inv q(1)]] by simp
  from agree_partition(3)[OF this] show "synced fs' q" using syn q(1) by (auto simp: all_synced_def)
qed

section \<open>A retention pass\<close>

text \<open>The samples of a series that are not of the days \<open>ds\<close>.\<close>

definition kept :: "string set \<Rightarrow> Sample multiset \<Rightarrow> Sample multiset" where
  "kept ds M = filter_mset (\<lambda>sm. dayString (Timestamp sm) \<notin> ds) M"

lemma kept_simps [simp]: "kept ds {#} = {#}" "kept ds (M + M') = kept ds M + kept ds M'"
  by (simp_all add: kept_def)

lemma disk_samples_drop:
  assumes inv: "core_inv fs s g pend" and p: "map_of (s_partitions s) day = Some p"
    and parts: "s_partitions s' = AList.delete day (s_partitions s)" and g': "g_parts g' = g_parts g"
  shows "disk_samples s' g' sid = kept {day} (disk_samples s g sid)"
proof -
  note I = core_invD[OF inv]
  let ?M = "\<lambda>day p. samples_in (g_parts g day) (p_parts p) sid"
  have days: "of_day d sm" if "(d, q) \<in> set (s_partitions s)" "sm \<in># ?M d q" for d q sm
    using I(9)[of d q] that set_entries[OF I(6)] by (auto simp: samples_indexed_def)
  have gone: "kept {day} (?M day p) = {#}"
    using days[of day p] p set_entries[OF I(6)] unfolding kept_def filter_mset_none by (auto simp: of_day_def)
  have same: "kept {day} (psum ?M ps) = psum ?M ps" if "\<forall>(d, q) \<in> set ps. \<forall>sm \<in># ?M d q. dayString (Timestamp sm) \<noteq> day" for ps
    using that by (induction ps) (auto simp: kept_def filter_mset_eq_conv)
  have others: "\<forall>(d, q) \<in> set (AList.delete day (s_partitions s)). \<forall>sm \<in># ?M d q. dayString (Timestamp sm) \<noteq> day"
    using days by (fastforce simp: AList.delete_eq of_day_def)
  show ?thesis
    unfolding disk_samples_def parts g' psum_split[OF I(6) p, of ?M] by (simp add: gone same[OF others])
qed

lemma drop_partition_step:
  assumes inv: "core_inv (w_fs w) s g pend" and p: "map_of (s_partitions s) day = Some p"
    and mem: "\<forall>sid. \<forall>sm \<in> set (gm_get (s_mem s) sid). dayString (Timestamp sm) \<noteq> day"
    and run: "drop_partition s p w = (r, s', w')"
  shows "(r = Inr () \<and> core_inv (w_fs w') s' (drop_ghost day g) pend \<and> env_same w w' \<and>
      s' = s\<lparr>s_partitions := AList.delete day (s_partitions s), s_registry := DropDay (s_registry s) day\<rparr> \<and>
      (all_synced (w_fs w) s \<longrightarrow> all_synced (w_fs w') s')) \<or>
    (r = Inl ErrIO \<and> \<not> healthy w)"
proof -
  have pd: "p_dir p = day_dir (s_path s) day" "p_day p = day"
    using partition_stateD(1,2)[OF core_invD(8)[OF inv p]] by auto
  obtain r1 w1 where r1: "removeAll (day_dir (s_path s) day) w = (r1, w1)" by fastforce
  obtain r2 w2 where r2: "removeAll (inverted_dir (s_path s) day) w1 = (r2, w2)" by fastforce
  have e1: "r1 = Inr () \<or> (r1 = Inl ErrIO \<and> \<not> healthy w)" and env1: "env_same w w1"
    using r1 by (auto simp: removeAll_def sys_run healthy_now env_same_def split: fault.splits if_splits)
  have e2: "r2 = Inr () \<or> (r2 = Inl ErrIO \<and> \<not> healthy w1)" and env2: "env_same w1 w2"
    using r2 by (auto simp: removeAll_def sys_run healthy_now env_same_def split: fault.splits if_splits)
  show ?thesis
  proof (cases "r1 = Inr () \<and> r2 = Inr ()")
    case True
    then have s': "r = Inr ()" "w' = w2"
      "s' = s\<lparr>s_partitions := AList.delete day (s_partitions s), s_registry := DropDay (s_registry s) day\<rparr>"
      using run r1 r2 by (simp_all add: drop_partition_def pd)
    have rm: "day_removed (s_path s) day (w_fs w) (w_fs w2)"
      using removeAll_Inr(1)[of _ w "()" w1] removeAll_Inr(1)[of _ w1 "()" w2] r1 r2 True by (auto simp: day_removed_def)
    have "all_synced (w_fs w) s \<longrightarrow> all_synced (w_fs w2) s'"
      using all_synced_drop[OF inv rm, of s'] by (simp add: s' AList.delete_conv')
    then show ?thesis using core_inv_drop[OF inv p _ rm] mem s' env_same_trans[OF env1 env2] by simp
  next
    case False
    then show ?thesis
      using run r1 r2 e1 e2 healthy_env[OF _ env1] by (auto simp: drop_partition_def pd split: sum.splits)
  qed
qed

lemma drop_partitions_step:
  assumes "core_inv (w_fs w) s g pend" and "distinct (map p_day ps)"
    and "\<forall>p \<in> set ps. map_of (s_partitions s) (p_day p) = Some p"
    and "\<forall>sid. \<forall>sm \<in> set (gm_get (s_mem s) sid). dayString (Timestamp sm) \<notin> p_day ` set ps"
    and "drop_partitions s ps w = (r, s', w')"
  shows "(r = Inr () \<and> (\<exists>g'. core_inv (w_fs w') s' g' pend \<and> env_same w w' \<and>
      s_path s' = s_path s \<and> s_mem s' = s_mem s \<and> names (s_registry s') = names (s_registry s) \<and>
      pending (s_registry s') = pending (s_registry s) \<and>
      (\<forall>d. map_of (s_partitions s') d = (if d \<in> p_day ` set ps then None else map_of (s_partitions s) d)) \<and>
      (\<forall>sid. disk_samples s' g' sid = kept (p_day ` set ps) (disk_samples s g sid)) \<and>
      g_pairs g' = {(d, i) \<in> g_pairs g. d \<notin> p_day ` set ps} \<and>
      (all_synced (w_fs w) s \<longrightarrow> all_synced (w_fs w') s'))) \<or> (r = Inl ErrIO \<and> \<not> healthy w)"
  using assms
proof (induction s ps w arbitrary: g rule: drop_partitions.induct)
  case (1 s w)
  then show ?case by (intro disjI1 conjI exI[of _ g]) (auto simp: kept_def)
next
  case (2 s p ps w)
  let ?day = "p_day p"
  have p: "map_of (s_partitions s) ?day = Some p" using "2.prems"(3) by simp
  have mem: "\<forall>sid. \<forall>sm \<in> set (gm_get (s_mem s) sid). dayString (Timestamp sm) \<noteq> ?day"
    using "2.prems"(4) by auto
  obtain r1 s1 w1 where dr: "drop_partition s p w = (r1, s1, w1)" by (metis prod_cases3)
  note st = drop_partition_step[OF "2.prems"(1) p mem dr]
  show ?case
  proof (cases "r1 = Inr ()")
    case False
    then have "r1 = Inl ErrIO" "\<not> healthy w" using st by auto
    then show ?thesis using "2.prems"(5) dr by simp
  next
    case True
    then have c: "core_inv (w_fs w1) s1 (drop_ghost ?day g) pend" "env_same w w1"
      and s1: "s1 = s\<lparr>s_partitions := AList.delete ?day (s_partitions s), s_registry := DropDay (s_registry s) ?day\<rparr>"
      and sy: "all_synced (w_fs w) s \<longrightarrow> all_synced (w_fs w1) s1"
      using st by auto
    have ps1: "map_of (s_partitions s1) d = (if d = ?day then None else map_of (s_partitions s) d)" for d
      by (simp add: s1 AList.delete_conv')
    have ds: "disk_samples s1 (drop_ghost ?day g) sid = kept {?day} (disk_samples s g sid)" for sid
      by (rule disk_samples_drop[OF "2.prems"(1) p]) (simp_all add: s1 drop_ghost_def)
    have run1: "drop_partitions s1 ps w1 = (r, s', w')" using "2.prems"(5) dr True by simp
    have d1: "distinct (map p_day ps)" using "2.prems"(2) by simp
    have in1: "\<forall>q \<in> set ps. map_of (s_partitions s1) (p_day q) = Some q"
    proof
      fix q assume q: "q \<in> set ps"
      then have "p_day q \<in> p_day ` set ps" by (rule imageI)
      then have "p_day q \<noteq> ?day" using "2.prems"(2) by (metis distinct.simps(2) list.simps(9) set_map)
      then show "map_of (s_partitions s1) (p_day q) = Some q" using "2.prems"(3) q unfolding ps1 by simp
    qed
    have m1: "\<forall>sid. \<forall>sm \<in> set (gm_get (s_mem s1) sid). dayString (Timestamp sm) \<notin> p_day ` set ps"
      using "2.prems"(4) unfolding s1 by simp
    from "2.IH"[OF dr[symmetric] True refl c(1) d1 in1 m1 run1] show ?thesis
    proof (elim disjE exE conjE)
      fix g' assume r: "r = Inr ()" and g': "core_inv (w_fs w') s' g' pend" "env_same w1 w'" "s_path s' = s_path s1"
        "s_mem s' = s_mem s1" "names (s_registry s') = names (s_registry s1)" "pending (s_registry s') = pending (s_registry s1)"
        "\<forall>d. map_of (s_partitions s') d = (if d \<in> p_day ` set ps then None else map_of (s_partitions s1) d)"
        "\<forall>sid. disk_samples s' g' sid = kept (p_day ` set ps) (disk_samples s1 (drop_ghost ?day g) sid)"
        "g_pairs g' = {(d, i) \<in> g_pairs (drop_ghost ?day g). d \<notin> p_day ` set ps}"
        "all_synced (w_fs w1) s1 \<longrightarrow> all_synced (w_fs w') s'"
      have "disk_samples s' g' sid = kept (p_day ` set (p # ps)) (disk_samples s g sid)" for sid
        using g'(8) ds by (simp add: kept_def filter_filter_mset conj_commute)
      moreover have "map_of (s_partitions s') d = (if d \<in> p_day ` set (p # ps) then None else map_of (s_partitions s) d)" for d
        using g'(7) ps1 by simp
      moreover have "g_pairs g' = {(d, i) \<in> g_pairs g. d \<notin> p_day ` set (p # ps)}"
        unfolding g'(9) by (auto simp: drop_ghost_def)
      moreover have "s_path s' = s_path s" "s_mem s' = s_mem s" "names (s_registry s') = names (s_registry s)"
        "pending (s_registry s') = pending (s_registry s)" using g'(3-6) by (simp_all add: s1 DropDay_def)
      ultimately show ?thesis
        using r g'(1,10) sy env_same_trans[OF c(2) g'(2)] by blast
    next
      assume "r = Inl ErrIO" "\<not> healthy w1"
      then show ?thesis using healthy_env[OF _ c(2)] by auto
    qed
  qed
qed

text \<open>
  The days that expire. The buffer holds no sample of an expired day: a pass that drops the index
  of a day makes samples of this day that are still in the buffer impossible to find.
\<close>

definition expired :: "int \<Rightarrow> int64 \<Rightarrow> string \<Rightarrow> bool" where
  "expired days nowMs day \<longleftrightarrow> 0 < days \<and> day < dayString (nowMs - word_of_int (days * 86400000))"

lemma cutoff_day_eq: "cutoff_day days nowMs = dayString (nowMs - word_of_int (days * 86400000))"
  by (simp add: cutoff_day_def dayMs_def)

text \<open>In the years 0 to 9999 that is arithmetic on days.\<close>

lemma expired_iff:
  assumes cut: "- 62167219200000 \<le> sint nowMs - days * 86400000" "sint nowMs - days * 86400000 < 253402300800000"
    and ms: "plain_ms ms" and "0 < days"
  shows "expired days nowMs (dayString ms) \<longleftrightarrow> sint ms div 86400000 < sint nowMs div 86400000 - days"
proof -
  let ?c = "sint nowMs - days * 86400000"
  define c where "c = nowMs - word_of_int (days * 86400000)"
  have "c = word_of_int ?c" by (simp add: c_def)
  moreover have "signed_take_bit 63 ?c = ?c" using cut by (intro signed_take_bit_int_eq_self) simp_all
  ultimately have w: "sint c = ?c" by (simp add: signed_of_int del: of_int_mult of_int_diff)
  then have "plain_ms c" using cut by (simp add: plain_ms_def)
  with ms have "dayString ms < dayString c \<longleftrightarrow> sint ms div 86400000 < ?c div 86400000"
    by (simp add: dayString_less_iff day_number_def w)
  moreover have "?c div 86400000 = sint nowMs div 86400000 - days"
    using div_mult_self1[of 86400000 "sint nowMs" "- days"] by simp
  ultimately show ?thesis using assms(4) by (simp add: expired_def c_def)
qed

definition current_samples :: "int \<Rightarrow> int64 \<Rightarrow> Sample multiset \<Rightarrow> Sample multiset" where
  "current_samples days nowMs M = filter_mset (\<lambda>sm. \<not> expired days nowMs (dayString (Timestamp sm))) M"

theorem ApplyRetention_correct:
  assumes inv: "storage_inv (w_fs w) s g"
    and mem: "\<forall>sid. \<forall>sm \<in> set (gm_get (s_mem s) sid). \<not> expired days nowMs (dayString (Timestamp sm))"
    and run: "ApplyRetention s days nowMs w = (r, s', w')"
  shows "(r = Inr () \<and> (\<exists>g'. storage_inv (w_fs w') s' g' \<and> env_same w w' \<and>
      (all_synced (w_fs w) s \<longrightarrow> all_synced (w_fs w') s') \<and>
      names (s_registry s') = names (s_registry s) \<and>
      (\<forall>day. map_of (s_partitions s') day = (if expired days nowMs day then None else map_of (s_partitions s) day)) \<and>
      (\<forall>sid. contents s' g' sid = current_samples days nowMs (contents s g sid)))) \<or> (r = Inl ErrIO \<and> \<not> healthy w)"
proof (cases "days \<le> 0")
  case True
  then have "r = Inr ()" "s' = s" "w' = w" using run by (simp_all add: ApplyRetention_def)
  then show ?thesis using inv True by (intro disjI1 conjI exI[of _ g]) (simp_all add: expired_def current_samples_def)
next
  case False
  note I = core_invD[OF inv[unfolded storage_inv_def]]
  let ?cut = "cutoff_day days nowMs" and ?all = "shuffle w 0 (s_partitions s)"
  let ?sel = "filter (\<lambda>(day, p). day < ?cut) ?all"
  let ?ps = "map snd ?sel"
  have ex: "expired days nowMs day \<longleftrightarrow> day < ?cut" for day using False by (simp add: expired_def cutoff_day_eq)
  have run1: "drop_partitions s ?ps w = (r, s', w')" using run False by (simp add: ApplyRetention_def)
  have day: "p_day p = day" and entry: "map_of (s_partitions s) day = Some p" if "(day, p) \<in> set ?sel" for day p
    using that I(8)[of day p] set_entries[OF I(6)] by (auto simp: partition_state_def)
  have days: "map p_day ?ps = map fst ?sel" using day by force
  have wf: "distinct (map fst ?all)" by (rule shuffle_wf[OF I(6)])
  have dist: "distinct (map p_day ?ps)" unfolding days using wf by (rule distinct_map_filter)
  have ins: "\<forall>p \<in> set ?ps. map_of (s_partitions s) (p_day p) = Some p" using day entry by auto
  have gone: "p_day ` set ?ps = {day. day < ?cut \<and> map_of (s_partitions s) day \<noteq> None}"
  proof -
    have "p_day ` set ?ps = set (map fst ?sel)" unfolding days[symmetric] by (simp only: set_map)
    also have "\<dots> = {day. day < ?cut \<and> map_of (s_partitions s) day \<noteq> None}"
      using set_entries[OF I(6)] by force
    finally show ?thesis .
  qed
  have mem1: "\<forall>sid. \<forall>sm \<in> set (gm_get (s_mem s) sid). dayString (Timestamp sm) \<notin> p_day ` set ?ps"
    using mem unfolding gone ex by blast
  from drop_partitions_step[OF inv[unfolded storage_inv_def] dist ins mem1 run1] show ?thesis
  proof (elim disjE exE conjE)
    fix g' assume r: "r = Inr ()" and g': "core_inv (w_fs w') s' g' (map_of (pending (s_registry s)))" "env_same w w'"
      "s_mem s' = s_mem s" "names (s_registry s') = names (s_registry s)" "pending (s_registry s') = pending (s_registry s)"
      "\<forall>d. map_of (s_partitions s') d = (if d \<in> p_day ` set ?ps then None else map_of (s_partitions s) d)"
      "\<forall>sid. disk_samples s' g' sid = kept (p_day ` set ?ps) (disk_samples s g sid)"
      "all_synced (w_fs w) s \<longrightarrow> all_synced (w_fs w') s'"
    have inv': "storage_inv (w_fs w') s' g'" using g'(1,5) by (simp add: storage_inv_def)
    have parts: "map_of (s_partitions s') day = (if expired days nowMs day then None else map_of (s_partitions s) day)" for day
      using g'(6) unfolding gone ex by auto
    have open_day: "map_of (s_partitions s) (dayString (Timestamp sm)) \<noteq> None" if sm: "sm \<in># disk_samples s g sid" for sid sm
    proof -
      obtain d p where "(d, p) \<in> set (s_partitions s)" "sm \<in># samples_in (g_parts g d) (p_parts p) sid"
        using sm by (auto simp: disk_samples_def psum_def in_sum_list)
      then show ?thesis using I(9)[of d p] set_entries[OF I(6)] by (auto simp: samples_indexed_def of_day_def)
    qed
    have "kept (p_day ` set ?ps) (disk_samples s g sid) = current_samples days nowMs (disk_samples s g sid)" for sid
      unfolding kept_def current_samples_def gone ex using open_day by (intro filter_mset_cong) auto
    moreover have "current_samples days nowMs (mset (gm_get (s_mem s) sid)) = mset (gm_get (s_mem s) sid)" for sid
      unfolding current_samples_def using mem by (simp add: filter_mset_eq_conv)
    ultimately have "contents s' g' sid = current_samples days nowMs (contents s g sid)" for sid
      using g'(3,7) by (simp add: contents_def current_samples_def)
    then show ?thesis using r inv' g'(2,4,8) parts by blast
  qed simp
qed

section \<open>Buffered samples of an expired day\<close>

text \<open>
  Without the condition on the buffer a pass loses sight of samples: it drops the index of the day,
  not the samples of the day that wait in the buffer, and a flush does not index them again.
\<close>

lemma drop_partitions_registry:
  "drop_partitions s ps w = (Inr (), s', w') \<Longrightarrow>
   s_mem s' = s_mem s \<and> s_registry s' = foldl DropDay (s_registry s) (map p_day ps)"
proof (induction ps arbitrary: s w)
  case (Cons p ps)
  obtain r s1 w1 where dp: "drop_partition s p w = (r, s1, w1)" by (metis prod_cases3)
  then have r: "r = Inr ()" and rest: "drop_partitions s1 ps w1 = (Inr (), s', w')"
    using Cons.prems by (auto split: sum.splits)
  have "s_mem s1 = s_mem s \<and> s_registry s1 = DropDay (s_registry s) (p_day p)"
    using dp r by (auto simp: drop_partition_def Let_def split: prod.splits sum.splits)
  with Cons.IH[OF rest] show ?case by simp
qed simp

lemma inv_ids_drops:
  "gm_wf (invertedByDay r) \<Longrightarrow>
   gm_wf (invertedByDay (foldl DropDay r ds)) \<and>
   inv_ids (foldl DropDay r ds) d k = (if d \<in> set ds then [] else inv_ids r d k)"
proof (induction ds arbitrary: r)
  case (Cons x ds)
  have "gm_wf (invertedByDay (DropDay r x))" using Cons.prems by (simp add: DropDay_def)
  from Cons.IH[OF this] show ?case by (cases "d = x") (simp_all add: inv_ids_DropDay)
qed simp

lemma Match_unindexed:
  assumes "gm_wf (invertedByDay r)" and "\<And>d k. sid \<notin> set (inv_ids r d k)"
  shows "sid \<notin> set (Match r ms)"
proof (cases ms)
  case (Cons m ms')
  have "sid \<notin> set (candidates r m)" using assms by (simp add: set_candidates)
  then show ?thesis using match_loop_spec[of "candidates r m" r ms'] Cons by (auto simp: Match_def Let_def)
qed simp

lemma flush_days_index:
  "flush_days s byDay w = (r, s', w') \<Longrightarrow> invertedByDay (s_registry s') = invertedByDay (s_registry s)"
proof (induction byDay arbitrary: s w)
  case (Cons x byDay)
  obtain day data where x: "x = (day, data)" by fastforce
  obtain r1 s1 w1 where fd: "flush_day s day data w = (r1, s1, w1)" by (metis prod_cases3)
  have pd: "invertedByDay (s_registry t) = invertedByDay (s_registry s)"
    if "persistDayIndex s day data w = (q, t, v)" for q t v
    using that by (auto simp: persistDayIndex_def Let_def split: if_splits sum.splits prod.splits)
  have gp: "s_registry t = s_registry u" if "getPartition u day v = (q, t, v')" for u v q t v'
    using that by (auto simp: getPartition_def split: option.splits sum.splits prod.splits)
  have "invertedByDay (s_registry s1) = invertedByDay (s_registry s)"
    using fd by (auto simp: flush_day_def restore_on_def restoreMem_def put_partition_def Let_def
        dest!: pd gp split: prod.splits sum.splits if_splits)
  then show ?case
    using Cons.prems fd x by (auto dest: Cons.IH split: sum.splits)
qed simp

lemma Flush_index:
  "Flush s w = (r, s', w') \<Longrightarrow> invertedByDay (s_registry s') = invertedByDay (s_registry s)"
  by (auto simp: Flush_def Let_def DrainPending_eq TrackPending_def restoreMem_def
      dest!: flush_days_index split: prod.splits sum.splits if_splits)

lemma QueryRange_matched:
  assumes "QueryRange s ms startMs endMs w = (Inr (results, st), w')" and "x \<in> set results"
  shows "sr_ID x \<in> set (Match (s_registry s) ms)"
proof -
  have fold: "sr_ID ` set (fst (foldl (add_result v reg merged) (rs, st0) ids)) \<subseteq> sr_ID ` set rs \<union> set ids"
    for v reg merged rs st0 ids
  proof (induction ids arbitrary: rs st0)
    case (Cons i ids)
    show ?case using Cons[of "fst (add_result v reg merged (rs, st0) i)" "snd (add_result v reg merged (rs, st0) i)"]
      by (auto simp: add_result_def Let_def split: if_splits)
  qed simp
  let ?ids = "Match (s_registry s) ms"
  have "results = [] \<or> (\<exists>v reg merged st0. (results, st) = foldl (add_result v reg merged) ([], st0) ?ids)"
    using assms(1) by (auto simp: QueryRange_def Let_def io_bind_def io_return_def split: if_splits prod.splits sum.splits) metis
  then show ?thesis
  proof (elim disjE exE)
    fix v reg merged st0 assume "(results, st) = foldl (add_result v reg merged) ([], st0) ?ids"
    then show ?thesis using fold[of v reg merged "[]" st0 ?ids] assms(2) by (metis (no_types, lifting) UnE empty_iff fst_conv image_eqI image_empty list.set(1) subsetD)
  qed (use assms(2) in simp)
qed

theorem retention_hides:
  assumes inv: "storage_inv (w_fs w) s g" and run: "ApplyRetention s days nowMs w = (Inr (), s1, w1)"
    and only: "\<And>d k. sid \<in> set (inv_ids (s_registry s) d k) \<Longrightarrow>
      expired days nowMs d \<and> map_of (s_partitions s) d \<noteq> None"
    and days: "0 < days" and fl: "Flush s1 w1 = (r, s2, w2)"
  shows "s_mem s1 = s_mem s" and "sid \<notin> set (Match (s_registry s1) ms)" and "sid \<notin> set (Match (s_registry s2) ms)"
proof -
  note I = core_invD[OF inv[unfolded storage_inv_def]]
  let ?sel = "filter (\<lambda>(day, p). day < cutoff_day days nowMs) (shuffle w 0 (s_partitions s))"
  have run1: "drop_partitions s (map snd ?sel) w = (Inr (), s1, w1)" using run days by (simp add: ApplyRetention_def)
  note s1 = drop_partitions_registry[OF run1]
  then show "s_mem s1 = s_mem s" by blast
  have wf: "gm_wf (invertedByDay (s_registry s))" using registry_invD(2)[OF I(4)] by (simp add: index_reflects_def)
  have dropped: "d \<in> set (map p_day (map snd ?sel))" if d: "sid \<in> set (inv_ids (s_registry s) d k)" for d k
  proof -
    obtain p where "map_of (s_partitions s) d = Some p" "expired days nowMs d" using only[OF d] by auto
    then have "(d, p) \<in> set ?sel" using set_entries[OF I(6)] by (auto simp: expired_def cutoff_day_eq)
    moreover have "p_day p = d" using I(8)[of d p] \<open>map_of (s_partitions s) d = Some p\<close> by (simp add: partition_state_def)
    ultimately show ?thesis by force
  qed
  have un: "gm_wf (invertedByDay (s_registry s1))" "sid \<notin> set (inv_ids (s_registry s1) d k)" for d k
    using inv_ids_drops[OF wf, of "map p_day (map snd ?sel)" d k] dropped[of d k] s1 by auto
  show "sid \<notin> set (Match (s_registry s1) ms)" by (rule Match_unindexed[OF un])
  have "invertedByDay (s_registry s2) = invertedByDay (s_registry s1)" by (rule Flush_index[OF fl])
  with un show "sid \<notin> set (Match (s_registry s2) ms)" by (intro Match_unindexed) (simp_all add: inv_ids_def)
qed

end
