(* ===== verification/Refinement.thy ===== *)
theory Refinement
  imports Recovery RetentionSpec
begin

text \<open>
  The specification of the database: label sets and the samples ingested for them. Buffer, parts,
  manifests, segments, merges and restarts implement it; only ingestion and retention show.
\<close>

section \<open>Simulation\<close>

inductive steps :: "('c \<Rightarrow> 'e \<Rightarrow> 'c \<Rightarrow> bool) \<Rightarrow> 'c \<Rightarrow> 'e list \<Rightarrow> 'c \<Rightarrow> bool" for step where
  stop: "steps step c [] c"
| go: "step c e c1 \<Longrightarrow> steps step c1 es c2 \<Longrightarrow> steps step c (e # es) c2"

locale simulation =
  fixes R :: "'c \<Rightarrow> 'a \<Rightarrow> bool" and cstep :: "'c \<Rightarrow> 'e \<Rightarrow> 'c \<Rightarrow> bool" and astep :: "'a \<Rightarrow> 'e \<Rightarrow> 'a"
  assumes simulates: "R c a \<Longrightarrow> cstep c e c' \<Longrightarrow> R c' (astep a e)"
begin

lemma simulates_run: "steps cstep c es c' \<Longrightarrow> R c a \<Longrightarrow> R c' (foldl astep a es)"
proof (induction arbitrary: a rule: steps.induct)
  case (go c e c1 es c2)
  then show ?case using simulates[OF go.prems go.hyps(1)] by simp
qed simp

end

section \<open>The specification\<close>

type_synonym database = "Label list \<Rightarrow> Sample multiset"

datatype db_event =
    Ingest "Label list" "Sample list"
  | FlushBuffer
  | MergeParts
  | Restart
  | Answer "Matcher list" int64 int64
  | Expire int int64

fun spec_step :: "database \<Rightarrow> db_event \<Rightarrow> database" where
  "spec_step A (Ingest ls xs) = (\<lambda>l. A l + (if CanonicalKey l = CanonicalKey ls then mset xs else {#}))"
| "spec_step A (Expire days nowMs) = (\<lambda>l. current_samples days nowMs (A l))"
| "spec_step A _ = A"

section \<open>The implementation\<close>

text \<open>
  The operations that succeed, in states with room for them. \<open>ForceMerge\<close> and a query may also
  fail. A restart is \<open>Close\<close> and \<open>Open\<close>. A retention pass is a step only when the buffer holds no
  sample of a day that it expires: the code does not check that, and hides such samples
  (\<open>retention_hides\<close> in \<open>RetentionSpec\<close>).
\<close>

inductive db_step :: "storage \<times> disk \<Rightarrow> db_event \<Rightarrow> storage \<times> disk \<Rightarrow> bool" where
  ingest: "samples \<noteq> [] \<Longrightarrow> labels_fit labels \<Longrightarrow> nextID (s_registry s) + 1 \<noteq> 0 \<Longrightarrow>
     Append s labels samples = (sid, s') \<Longrightarrow> db_step (s, w) (Ingest labels samples) (s', w)"
| flush: "(\<And>g. storage_inv (w_fs w) s g \<Longrightarrow> flush_room s g) \<Longrightarrow>
     Flush s w = (Inr (), s', w') \<Longrightarrow> db_step (s, w) FlushBuffer (s', w')"
| merge: "(\<And>g. storage_inv (w_fs w) s g \<Longrightarrow> merge_room s g) \<Longrightarrow>
     ForceMerge s w = (r, s', w') \<Longrightarrow> db_step (s, w) MergeParts (s', w')"
| restart: "(\<And>g. storage_inv (w_fs w) s g \<Longrightarrow> flush_room s g) \<Longrightarrow> \<not> s_closed s \<Longrightarrow> Close s w = (Inr (), s1, w1) \<Longrightarrow>
     (\<And>g. storage_inv (w_fs w1) s1 g \<Longrightarrow> reopenable s1 g) \<Longrightarrow>
     Open (s_path s1) w1 = (Inr s', w') \<Longrightarrow> db_step (s, w) Restart (s', w')"
| answer: "QueryRange s ms startMs endMs w = (r, w') \<Longrightarrow> ms \<noteq> [] \<Longrightarrow> plain_ms startMs \<Longrightarrow> plain_ms endMs \<Longrightarrow>
     db_step (s, w) (Answer ms startMs endMs) (s, w')"
| expire: "(\<And>sid sm. sm \<in> set (gm_get (s_mem s) sid) \<Longrightarrow> \<not> expired days nowMs (dayString (Timestamp sm))) \<Longrightarrow>
     ApplyRetention s days nowMs w = (Inr (), s', w') \<Longrightarrow> db_step (s, w) (Expire days nowMs) (s', w')"

text \<open>The samples of a label set: those of the series that its canonical key is registered for.\<close>

definition db_of :: "storage \<Rightarrow> ghost \<Rightarrow> database" where
  "db_of s g ls = (case map_of (byKey (s_registry s)) (CanonicalKey ls) of None \<Rightarrow> {#} | Some sid \<Rightarrow> contents s g sid)"

definition implements :: "storage \<times> disk \<Rightarrow> database \<Rightarrow> bool" where
  "implements = (\<lambda>(s, w) A. \<exists>g. storage_inv (w_fs w) s g \<and> all_synced (w_fs w) s \<and> db_of s g = A)"

lemma implementsI: "storage_inv (w_fs w) s g \<Longrightarrow> all_synced (w_fs w) s \<Longrightarrow> db_of s g = A \<Longrightarrow> implements (s, w) A"
  by (auto simp: implements_def)

lemma implementsE:
  assumes "implements (s, w) A"
  obtains g where "storage_inv (w_fs w) s g" and "all_synced (w_fs w) s" and "A = db_of s g"
  using assms by (auto simp: implements_def)

lemma handle_ok: "storage_inv fs s g \<Longrightarrow> registry_ok (s_registry s)"
  unfolding storage_inv_def using core_invD(4) registry_invD(1) by blast

lemma byKey_names: "storage_inv fs s g \<Longrightarrow>
    map_of (byKey (s_registry s)) k = Some i \<longleftrightarrow> (\<exists>ls. map_of (names (s_registry s)) i = Some ls \<and> CanonicalKey ls = k)"
  using handle_ok[of fs s g] by (simp add: registry_ok_def)

lemma unnamed_empty:
  assumes "storage_inv fs s g" and "map_of (names (s_registry s)) i = None"
  shows "contents s g i = {#}"
proof (rule ccontr)
  assume "contents s g i \<noteq> {#}"
  then obtain sm where "sm \<in># contents s g i" by blast
  from contents_indexed[OF assms(1) this] show False
    using registry_inv_named[of g "s_registry s"] assms core_invD(4) unfolding storage_inv_def by fastforce
qed

text \<open>The database is the same when the names are, and the contents of every series.\<close>

lemma db_of_cong:
  assumes "storage_inv fs s g" and "storage_inv fs' s' g'"
    and "map_of (names (s_registry s')) = map_of (names (s_registry s))"
    and "\<And>sid. contents s' g' sid = f (contents s g sid)" and "f {#} = {#}"
  shows "db_of s' g' ls = f (db_of s g ls)"
proof -
  have "map_of (byKey (s_registry s')) = map_of (byKey (s_registry s))"
    by (rule registry_ext[OF handle_ok[OF assms(1)] handle_ok[OF assms(2)] assms(3)])
  then show ?thesis using assms(4,5) by (simp add: db_of_def split: option.splits)
qed

lemma db_of_Append:
  assumes inv: "storage_inv fs s g" and inv': "storage_inv fs s' g'"
    and sub: "map_of (names (s_registry s)) \<subseteq>\<^sub>m map_of (names (s_registry s'))"
    and nm: "map_of (names (s_registry s')) sid = Some ls0" "CanonicalKey ls0 = CanonicalKey labels"
    and con: "\<And>i. contents s' g' i = contents s g i + (if i = sid then M else {#})"
  shows "db_of s' g' ls = db_of s g ls + (if CanonicalKey ls = CanonicalKey labels then M else {#})"
proof -
  have keep: "map_of (names (s_registry s')) i = Some l" if "map_of (names (s_registry s)) i = Some l" for i l
    using sub that unfolding map_le_def by (metis domI)
  show ?thesis
  proof (cases "CanonicalKey ls = CanonicalKey labels")
    case True
    then have new: "map_of (byKey (s_registry s')) (CanonicalKey ls) = Some sid"
      using byKey_names[OF inv'] nm by auto
    have "db_of s g ls = contents s g sid"
    proof (cases "map_of (byKey (s_registry s)) (CanonicalKey ls)")
      case None
      have "map_of (names (s_registry s)) sid = None"
      proof (rule ccontr)
        assume "map_of (names (s_registry s)) sid \<noteq> None"
        then obtain l where l: "map_of (names (s_registry s)) sid = Some l" by blast
        then have "map_of (names (s_registry s')) sid = Some l" by (rule keep)
        then have "CanonicalKey l = CanonicalKey ls" using nm True by simp
        with byKey_names[OF inv, of "CanonicalKey ls" sid] l None show False by auto
      qed
      from unnamed_empty[OF inv this] None show ?thesis by (simp add: db_of_def)
    next
      case (Some i)
      then obtain l where l: "map_of (names (s_registry s)) i = Some l" "CanonicalKey l = CanonicalKey ls"
        using byKey_names[OF inv] by blast
      have "map_of (names (s_registry s')) i = Some l" by (rule keep[OF l(1)])
      then have "map_of (byKey (s_registry s')) (CanonicalKey ls) = Some i" using byKey_names[OF inv'] l(2) by blast
      then show ?thesis using new Some by (simp add: db_of_def)
    qed
    then show ?thesis using new con True by (simp add: db_of_def)
  next
    case False
    show ?thesis
    proof (cases "map_of (byKey (s_registry s)) (CanonicalKey ls)")
      case (Some i)
      then obtain l where l: "map_of (names (s_registry s)) i = Some l" "CanonicalKey l = CanonicalKey ls"
        using byKey_names[OF inv] by blast
      have l': "map_of (names (s_registry s')) i = Some l" by (rule keep[OF l(1)])
      then have "map_of (byKey (s_registry s')) (CanonicalKey ls) = Some i" using byKey_names[OF inv'] l(2) by blast
      moreover have "i \<noteq> sid" using nm l' l(2) False by auto
      ultimately show ?thesis using Some con False by (simp add: db_of_def)
    next
      case None
      have "db_of s' g' ls = {#}"
      proof (cases "map_of (byKey (s_registry s')) (CanonicalKey ls)")
        case (Some i)
        then obtain l where l: "map_of (names (s_registry s')) i = Some l" "CanonicalKey l = CanonicalKey ls"
          using byKey_names[OF inv'] by blast
        have "i \<noteq> sid" using nm l False by auto
        have "map_of (names (s_registry s)) i = None"
        proof (rule ccontr)
          assume "map_of (names (s_registry s)) i \<noteq> None"
          then have "map_of (names (s_registry s)) i = Some l" using keep l(1) by fastforce
          with byKey_names[OF inv, of "CanonicalKey ls" i] l(2) None show False by auto
        qed
        from unnamed_empty[OF inv this] show ?thesis using Some con \<open>i \<noteq> sid\<close> by (simp add: db_of_def)
      qed (simp add: db_of_def)
      then show ?thesis using None False by (simp add: db_of_def)
    qed
  qed
qed

section \<open>Every operation implements its specification\<close>

lemma implements_Append:
  assumes im: "implements (s, w) A" and ne: "samples \<noteq> []" and fit: "labels_fit labels"
    and room: "nextID (s_registry s) + 1 \<noteq> 0" and run: "Append s labels samples = (sid, s')"
  shows "implements (s', w) (spec_step A (Ingest labels samples))"
proof -
  obtain g where g: "storage_inv (w_fs w) s g" "all_synced (w_fs w) s" and A: "A = db_of s g"
    using im by (rule implementsE)
  obtain g' where g': "storage_inv (w_fs w) s' g'" "s_partitions s' = s_partitions s"
    and sub: "map_of (names (s_registry s)) \<subseteq>\<^sub>m map_of (names (s_registry s'))"
    and nm: "\<exists>ls. map_of (names (s_registry s')) sid = Some ls \<and> CanonicalKey ls = CanonicalKey labels"
    and mem: "\<forall>i. gm_get (s_mem s') i = gm_get (s_mem s) i @ (if i = sid then samples else [])"
    and ds: "\<forall>i. disk_samples s' g' i = disk_samples s g i"
    by (rule Append_step[OF g(1) fit room ne run])
  obtain ls0 where ls0: "map_of (names (s_registry s')) sid = Some ls0" "CanonicalKey ls0 = CanonicalKey labels"
    using nm by blast
  have con: "contents s' g' i = contents s g i + (if i = sid then mset samples else {#})" for i
    using mem ds by (simp add: contents_def)
  have "db_of s' g' ls = spec_step A (Ingest labels samples) ls" for ls
    unfolding A spec_step.simps by (rule db_of_Append[OF g(1) g'(1) sub ls0 con])
  moreover have "all_synced (w_fs w) s'" using g(2) g'(2) by (simp add: all_synced_def)
  ultimately show ?thesis using g'(1) by (intro implementsI) auto
qed

lemma implements_same:
  assumes "storage_inv fs s g" and "storage_inv (w_fs w') s' g'" and "all_synced (w_fs w') s'"
    and "map_of (names (s_registry s')) = map_of (names (s_registry s))"
    and "\<And>sid. contents s' g' sid = contents s g sid"
  shows "implements (s', w') (db_of s g)"
  by (rule implementsI[OF assms(2,3)]) (use db_of_cong[OF assms(1,2,4), of "\<lambda>M. M"] assms(5) in auto)

lemma implements_Flush:
  assumes im: "implements (s, w) A" and room: "\<And>g. storage_inv (w_fs w) s g \<Longrightarrow> flush_room s g"
    and run: "Flush s w = (Inr (), s', w')"
  shows "implements (s', w') A" and "pending (s_registry s') = []" and "s_path s' = s_path s"
    and "\<And>sid. gm_get (s_mem s') sid = []"
proof -
  obtain g where g: "storage_inv (w_fs w) s g" "all_synced (w_fs w) s" and A: "A = db_of s g"
    using im by (rule implementsE)
  obtain g' where g': "storage_inv (w_fs w') s' g'" "s_path s' = s_path s" "names (s_registry s') = names (s_registry s)"
    and c: "(Inr () = (Inr () :: unit res) \<and> flushed s g s' g' \<and> pending (s_registry s') = [] \<and>
          (all_synced (w_fs w) s \<longrightarrow> all_synced (w_fs w') s')) \<or>
      (Inr () = (Inl ErrIO :: unit res) \<and> \<not> healthy w \<and> flush_refused s g s' g') \<or>
      (Inr () \<noteq> (Inr () :: unit res) \<and> (\<exists>saved day dup. flush_cut saved day dup s g s' g'))"
    by (rule Flush_outcome[OF g(1) room[OF g(1)] run])
  then have fl: "flushed s g s' g'" "pending (s_registry s') = []" "all_synced (w_fs w') s'" using g(2) by auto
  have "contents s' g' sid = contents s g sid" for sid using fl(1) by (simp add: flushed_def contents_def[of s'])
  then show "implements (s', w') A" unfolding A using g(1) g' fl by (intro implements_same) simp_all
  show "pending (s_registry s') = []" "s_path s' = s_path s" by (fact fl g')+
  show "\<And>sid. gm_get (s_mem s') sid = []" using fl(1) by (simp add: flushed_def)
qed

lemma implements_merge:
  assumes im: "implements (s, w) A" and room: "\<And>g. storage_inv (w_fs w) s g \<Longrightarrow> merge_room s g"
    and run: "ForceMerge s w = (r, s', w')"
  shows "implements (s', w') A"
proof -
  obtain g where g: "storage_inv (w_fs w) s g" "all_synced (w_fs w) s" and A: "A = db_of s g"
    using im by (rule implementsE)
  obtain g' where g': "storage_inv (w_fs w') s' g'" and s': "s' = s\<lparr>s_partitions := s_partitions s'\<rparr>"
    and ds: "\<forall>sid. disk_samples s' g' sid = disk_samples s g sid" and syn: "all_synced (w_fs w) s \<longrightarrow> all_synced (w_fs w') s'"
    by (rule ForceMerge_step[OF g(1) room[OF g(1)] run])
  have same: "s_registry s' = s_registry s" "s_mem s' = s_mem s"
    using arg_cong[OF s', of s_registry] arg_cong[OF s', of s_mem] by simp_all
  have con: "contents s' g' sid = contents s g sid" for sid by (simp only: contents_def same spec[OF ds])
  show ?thesis
    unfolding A by (rule implements_same[OF g(1) g' _ _ con]) (use syn g(2) same in simp_all)
qed

lemma closed_irrelevant: "storage_inv fs (s\<lparr>s_closed := b\<rparr>) g = storage_inv fs s g" "flush_room (s\<lparr>s_closed := b\<rparr>) g = flush_room s g"
  "all_synced fs (s\<lparr>s_closed := b\<rparr>) = all_synced fs s" "db_of (s\<lparr>s_closed := b\<rparr>) g = db_of s g"
  by (simp_all add: storage_inv_def core_inv_def flush_room_def all_synced_def db_of_def contents_def disk_samples_def fun_eq_iff
      cong: option.case_cong)

lemma implements_restart:
  assumes im: "implements (s, w) A" and room: "\<And>g. storage_inv (w_fs w) s g \<Longrightarrow> flush_room s g" and opn: "\<not> s_closed s"
    and run: "Close s w = (Inr (), s1, w1)" and re: "\<And>g. storage_inv (w_fs w1) s1 g \<Longrightarrow> reopenable s1 g"
    and op: "Open (s_path s1) w1 = (Inr s', w')"
  shows "implements (s', w') A"
proof -
  have fl: "Flush (s\<lparr>s_closed := True\<rparr>) w = (Inr (), s1, w1)" using run opn by (simp add: Close_def)
  have im0: "implements (s\<lparr>s_closed := True\<rparr>, w) A" using im by (auto simp: implements_def closed_irrelevant)
  note f = implements_Flush[OF im0 _ fl, simplified closed_irrelevant, OF room]
  obtain g1 where g1: "storage_inv (w_fs w1) s1 g1" "all_synced (w_fs w1) s1" and A: "A = db_of s1 g1"
    using f(1) by (rule implementsE)
  from Open_after_Flush[OF g1 re[OF g1(1)] f(2) op]
  obtain g' where g': "storage_inv (w_fs w') s' g'" "all_synced (w_fs w') s'"
    "map_of (names (s_registry s')) = map_of (names (s_registry s1))"
    "\<forall>sid. contents s' g' sid = disk_samples s1 g1 sid" by auto
  have con: "contents s' g' sid = contents s1 g1 sid" for sid
    by (simp only: contents_def[of s1] f(4) spec[OF g'(4)]) simp
  show ?thesis unfolding A by (rule implements_same[OF g1(1) g'(1,2,3) con])
qed

lemma implements_expire:
  assumes im: "implements (s, w) A"
    and mem: "\<And>sid sm. sm \<in> set (gm_get (s_mem s) sid) \<Longrightarrow> \<not> expired days nowMs (dayString (Timestamp sm))"
    and run: "ApplyRetention s days nowMs w = (Inr (), s', w')"
  shows "implements (s', w') (spec_step A (Expire days nowMs))"
proof -
  obtain g where g: "storage_inv (w_fs w) s g" "all_synced (w_fs w) s" and A: "A = db_of s g"
    using im by (rule implementsE)
  have mem1: "\<forall>sid. \<forall>sm \<in> set (gm_get (s_mem s) sid). \<not> expired days nowMs (dayString (Timestamp sm))"
    using mem by blast
  from ApplyRetention_correct[OF g(1) mem1 run] g(2)
  obtain g' where g': "storage_inv (w_fs w') s' g'" "names (s_registry s') = names (s_registry s)"
    and syn: "all_synced (w_fs w') s'" and con: "\<forall>sid. contents s' g' sid = current_samples days nowMs (contents s g sid)" by auto
  have "db_of s' g' ls = current_samples days nowMs (db_of s g ls)" for ls
    by (rule db_of_cong[OF g(1) g'(1)]) (simp_all add: g'(2) spec[OF con] current_samples_def)
  then show ?thesis
    using g'(1) syn by (intro implementsI) (auto simp: A)
qed

lemma implements_answer:
  assumes "implements (s, w) A" and "QueryRange s ms startMs endMs w = (r, w')" and "ms \<noteq> []"
    and "plain_ms startMs" and "plain_ms endMs"
  shows "implements (s, w') A"
proof -
  obtain g where g: "storage_inv (w_fs w) s g" "all_synced (w_fs w) s" "A = db_of s g"
    using assms(1) by (rule implementsE)
  have "w_fs w' = w_fs w" by (rule QueryRange_correct(1)[OF g(1) assms(3,4,5,2)])
  then show ?thesis using g by (intro implementsI) simp_all
qed

theorem implements_step:
  assumes "implements c A" and "db_step c e c'"
  shows "implements c' (spec_step A e)"
  using assms(2,1)
proof (induction arbitrary: A rule: db_step.induct)
  case (ingest samples labels s sid s' w)
  then show ?case using implements_Append by blast
next
  case (flush w s s' w')
  then show ?case using implements_Flush(1)[of s w A s' w'] by simp
next
  case (merge w s r s' w')
  then show ?case using implements_merge[of s w A r s' w'] by simp
next
  case (restart w s s1 w1 s' w')
  then show ?case using implements_restart[of s w A s1 w1 s' w'] by simp
next
  case (answer s ms startMs endMs w r w')
  then show ?case using implements_answer[of s w A ms startMs endMs r w'] by simp
next
  case (expire s days nowMs w s' w')
  then show ?case using implements_expire by blast
qed

interpretation db: simulation implements db_step spec_step
  by unfold_locales (rule implements_step)

text \<open>A database in a new directory, after any run of operations.\<close>

lemma db_run:
  assumes fresh: "fresh_dir (w_fs w0) path" and op: "Open path w0 = (Inr s, w)" and run: "steps db_step (s, w) es c"
  shows "implements c (foldl spec_step (\<lambda>_. {#}) es)"
proof -
  obtain g where g: "storage_inv (w_fs w) s g" "all_synced (w_fs w) s" "\<forall>sid. contents s g sid = {#}"
    using Open_new[OF fresh op] by auto
  have "implements (s, w) (\<lambda>_. {#})"
    by (rule implementsI[OF g(1,2)]) (simp add: db_of_def g(3) fun_eq_iff split: option.splits)
  then show ?thesis by (rule db.simulates_run[OF run])
qed

text \<open>A query answers from the database.\<close>

lemma query_database:
  assumes im: "implements (s, w) A" and ms: "ms \<noteq> []" and plain: "plain_ms startMs" "plain_ms endMs"
    and run: "QueryRange s ms startMs endMs w = (r, w')"
  shows "(\<exists>results st. r = Inr (results, st) \<and>
      (\<forall>x \<in> set results. (\<forall>m \<in> set ms. matcher_key m \<in> label_keys (sr_Labels x)) \<and> sr_Samples x \<noteq> [] \<and>
         sorted (map sample_time (sr_Samples x)) \<and>
         mset (sr_Samples x) = filter_mset (in_window startMs endMs) (A (sr_Labels x))) \<and>
      (\<forall>ls. filter_mset (in_window startMs endMs) (A ls) \<noteq> {#} \<longrightarrow>
         (\<exists>ls'. CanonicalKey ls' = CanonicalKey ls \<and>
            ((\<forall>m \<in> set ms. matcher_key m \<in> label_keys ls') \<longrightarrow> (\<exists>x \<in> set results. sr_Labels x = ls'))))) \<or>
    (r = Inl ErrIO \<and> \<not> healthy w)"
proof -
  obtain g where g: "storage_inv (w_fs w) s g" and A: "A = db_of s g" using im by (rule implementsE)
  have each: "(\<forall>m \<in> set ms. matcher_key m \<in> label_keys (sr_Labels x)) \<and> sr_Samples x \<noteq> [] \<and>
      sorted (map sample_time (sr_Samples x)) \<and> mset (sr_Samples x) = filter_mset (in_window startMs endMs) (A (sr_Labels x))"
    if ans: "query_answer s g ms startMs endMs results" and x: "x \<in> set results" for results x
  proof -
    have q: "map_of (names (s_registry s)) (sr_ID x) = Some (sr_Labels x)" "sorted (map sample_time (sr_Samples x))"
      "mset (sr_Samples x) = window_contents s g startMs endMs (sr_ID x)"
      "satisfies (s_registry s) ms (sr_ID x)" "window_contents s g startMs endMs (sr_ID x) \<noteq> {#}"
      using ans x unfolding query_answer_def by blast+
    have "map_of (byKey (s_registry s)) (CanonicalKey (sr_Labels x)) = Some (sr_ID x)" using byKey_names[OF g] q(1) by blast
    then have "A (sr_Labels x) = contents s g (sr_ID x)" by (simp add: A db_of_def)
    then show ?thesis using q by (auto simp: satisfies_def window_contents_def)
  qed
  have complete: "\<exists>ls'. CanonicalKey ls' = CanonicalKey ls \<and>
      ((\<forall>m \<in> set ms. matcher_key m \<in> label_keys ls') \<longrightarrow> (\<exists>x \<in> set results. sr_Labels x = ls'))"
    if ans: "query_answer s g ms startMs endMs results" and ne: "filter_mset (in_window startMs endMs) (A ls) \<noteq> {#}" for results ls
  proof -
    obtain i where i: "map_of (byKey (s_registry s)) (CanonicalKey ls) = Some i"
      using ne by (cases "map_of (byKey (s_registry s)) (CanonicalKey ls)") (simp_all add: A db_of_def)
    then obtain ls' where ls': "map_of (names (s_registry s)) i = Some ls'" "CanonicalKey ls' = CanonicalKey ls"
      using byKey_names[OF g] by blast
    have w: "window_contents s g startMs endMs i \<noteq> {#}" using ne i by (simp add: A db_of_def window_contents_def)
    have "\<exists>x \<in> set results. sr_Labels x = ls'" if "\<forall>m \<in> set ms. matcher_key m \<in> label_keys ls'"
    proof -
      have "satisfies (s_registry s) ms i" using that ls'(1) by (auto simp: satisfies_def)
      then have "i \<in> sr_ID ` set results" using ans w unfolding query_answer_def by blast
      then obtain x where x: "x \<in> set results" "sr_ID x = i" by auto
      then have "map_of (names (s_registry s)) i = Some (sr_Labels x)" using ans unfolding query_answer_def by auto
      then show ?thesis using ls'(1) x(1) by auto
    qed
    then show ?thesis using ls'(2) by blast
  qed
  show ?thesis using QueryRange_correct(3)[OF g ms plain run] each complete by blast
qed

end
