(* ===== verification/Progress.thy ===== *)
theory Progress
  imports Refinement
begin

text \<open>
  How many parts a compaction leaves, for any threshold, and what a flush keeps that fails in its
  first round.
\<close>

section \<open>The number of parts\<close>

lemma length_kept_parts:
  assumes "distinct parts" and "distinct nms" and "set nms \<subseteq> set parts"
  shows "length (kept_parts parts nms nm) + length nms = length parts + 1"
proof -
  have "length (filter (\<lambda>n. n \<notin> set nms) parts) + length (filter (\<lambda>n. n \<in> set nms) parts) = length parts"
    using sum_length_filter_compl[of "\<lambda>n. n \<notin> set nms" parts] by simp
  moreover have "length (filter (\<lambda>n. n \<in> set nms) parts) = length nms"
  proof -
    have "set (filter (\<lambda>n. n \<in> set nms) parts) = set nms" using assms(3) by auto
    then show ?thesis using assms(1,2) by (metis distinct_card distinct_filter)
  qed
  ultimately show ?thesis by (simp add: kept_parts_def)
qed

lemma mergeParts_parts:
  "mergeParts p nms w = (Inr (), p', w') \<Longrightarrow> \<exists>nm. p_parts p' = kept_parts (p_parts p) nms nm"
  by (auto simp: mergeParts_def Let_def split: prod.splits sum.splits)

text \<open>The small parts, as the metadata on disk have it.\<close>

definition is_small_part :: "jdoc fs \<Rightarrow> partition \<Rightarrow> string \<Rightarrow> bool" where
  "is_small_part fs p nm \<longleftrightarrow>
     (\<exists>meta. lookup fs (part_dir (p_dir p) nm @ [partMetaFile]) = Some (File (Json (JMeta meta))) \<and> Tier meta = ''small'')"

lemma yields_smallParts_exact:
  assumes "partition_inv fs p D"
  shows "yields fs (smallParts p) (\<lambda>r. r = Inr (filter (is_small_part fs p) (p_parts p)))"
proof -
  have "yields fs (smallParts p) (\<lambda>r. \<exists>small. r = Inr small \<and> small = filter (is_small_part fs p) (p_parts p))"
    unfolding smallParts_def
  proof (rule yields_fold)
    fix ys nm zs and s :: "string list"
    assume p: "p_parts p = ys @ nm # zs" and s: "s = filter (is_small_part fs p) ys"
    obtain meta where st: "stored_part fs (part_dir (p_dir p) nm) meta (D nm)"
      using assms p by (auto simp: partition_inv_def holds_part_def)
    then have "is_small_part fs p nm \<longleftrightarrow> Tier meta = tierSmall"
      by (auto simp: is_small_part_def stored_part_def tierSmall_def)
    then show "yields fs (small_step (p_dir p) s nm)
        (\<lambda>r. \<exists>s'. r = Inr s' \<and> s' = filter (is_small_part fs p) (ys @ [nm]))"
      unfolding small_step_def
      by (intro yields_bind_eq[OF yields_readPartMeta[OF st]] yields_return) (simp add: s)
  qed simp
  then show ?thesis by (rule yields_mono) simp
qed

lemma compactPartition_counts:
  assumes inv: "partition_inv (w_fs w) p D" and run: "compactPartition p minParts w = (Inr (), p', w')"
    and k: "k = length (filter (is_small_part (w_fs w) p) (p_parts p))"
  shows "(int k < minParts \<and> p' = p) \<or> (minParts \<le> int k \<and> length (p_parts p') + k = length (p_parts p) + 1)"
proof -
  let ?small = "filter (is_small_part (w_fs w) p) (p_parts p)"
  obtain r0 w0 where sm: "smallParts p w = (r0, w0)" by fastforce
  note y = yieldsD[OF yields_smallParts_exact[OF inv] sm]
  have r0: "r0 = Inr ?small"
    using y(3) run sm by (auto simp: compactPartition_def)
  show ?thesis
  proof (cases "int k < minParts")
    case True
    then show ?thesis using run sm r0 k by (simp add: compactPartition_def)
  next
    case False
    then have "mergeParts p ?small w0 = (Inr (), p', w')" using run sm r0 k by (simp add: compactPartition_def)
    from mergeParts_parts[OF this] obtain nm where nm: "p_parts p' = kept_parts (p_parts p) ?small nm" by blast
    have "distinct (p_parts p)" using inv by (simp add: partition_inv_def)
    then show ?thesis using length_kept_parts[of "p_parts p" ?small nm] False k by (simp add: nm)
  qed
qed

section \<open>What is left after a failed flush\<close>

text \<open>The first round fails before it has written anything: only its day returns to the buffer.\<close>

lemma flush_first_failed:
  assumes pend: "pending (s_registry s) = []" and wf: "gm_wf (s_mem s)"
    and days: "shuffle w 1 (group_by_day (shuffle w 0 (s_mem s))) = (day, data) # rest"
    and fails: "persistDayIndex (s\<lparr>s_mem := [], s_registry := (s_registry s)\<lparr>pending := []\<rparr>\<rparr>) day data w = (Inl e, s1, w1)"
    and e: "\<not> is_panic e" and run: "Flush s w = (r, s', w')"
  shows "r = Inl e" and "gm_get (s_mem s') sid = filter (of_day day) (gm_get (s_mem s) sid)"
proof -
  let ?s = "s\<lparr>s_mem := [], s_registry := (s_registry s)\<lparr>pending := []\<rparr>\<rparr>"
  have ne: "s_mem s \<noteq> []"
  proof
    assume "s_mem s = []"
    then show False using days by (simp add: shuffle_empty group_by_day_def)
  qed
  have sv: "saveRegistrySegment ?s [] w = (Inr (), w)"
    by (simp add: saveRegistrySegment_def appendIndexSegment_def io_bind_def io_return_def)
  have s1: "s_mem s1 = []"
    using fails by (auto simp: persistDayIndex_def Let_def split: if_splits sum.splits prod.splits)
  have fd: "flush_days ?s (shuffle w 1 (group_by_day (shuffle w 0 (s_mem s)))) w = (Inl e, restoreMem s1 data, w1)"
    unfolding days using fails e by (simp add: flush_day_def restore_on_def)
  have r: "r = Inl e" "s' = restoreMem s1 data"
    using run ne sv fd by (simp_all add: Flush_def Let_def DrainPending_eq pend)
  then show "r = Inl e" by blast
  have gr: "groups ((day, data) # rest) (gm_get (s_mem s))"
    using groups_shuffle[OF group_by_day_groups[OF shuffle_map(1)[OF wf]], of w 1 w 0]
    by (simp only: days shuffle_map(2)[OF wf])
  have "gm_wf data" "gm_get data sid = filter (of_day day) (gm_get (s_mem s) sid)"
    using groups_entry[OF gr, of day data] by auto
  then show "gm_get (s_mem s') sid = filter (of_day day) (gm_get (s_mem s) sid)"
    using merge_into_props[of data "[]"] by (simp add: r restoreMem_def s1)
qed

end
