(* ===== verification/GoStrings.thy ===== *)
theory GoStrings
  imports Prelude
begin

text \<open>
  Go strings are byte strings; a \<open>char\<close> is one byte. This theory has what the text handling of
  the program takes from the \<open>strings\<close> and \<open>unicode/utf8\<close> packages: decoding and encoding
  one rune, \<open>unicode.IsSpace\<close>, \<open>strings.TrimSpace\<close>, \<open>strings.IndexByte\<close> and
  \<open>strings.Join\<close>, and \<open>path.Clean\<close> on lists of segments. Runes are natural numbers.
\<close>

section \<open>Runes\<close>

abbreviation ord :: "char \<Rightarrow> nat" where
  "ord c \<equiv> of_char c"

definition RuneError :: nat where
  "RuneError = 65533"

definition ValidRune :: "nat \<Rightarrow> bool" where
  "ValidRune r \<longleftrightarrow> r < 55296 \<or> 57343 < r \<and> r \<le> 1114111"

definition EncodeRune :: "nat \<Rightarrow> string" where
  "EncodeRune r0 =
     (let r = (if ValidRune r0 then r0 else RuneError) in
      map char_of
        (if r < 128 then [r]
         else if r < 2048 then [192 + r div 64, 128 + r mod 64]
         else if r < 65536 then [224 + r div 4096, 128 + r div 64 mod 64, 128 + r mod 64]
         else [240 + r div 262144, 128 + r div 4096 mod 64, 128 + r div 64 mod 64, 128 + r mod 64]))"

text \<open>The range of the second byte depends on the first one: no overlong form, no surrogate.\<close>

definition accept_range :: "nat \<Rightarrow> nat \<times> nat" where
  "accept_range x =
     (if x = 224 then (160, 191) else if x = 237 then (128, 159)
      else if x = 240 then (144, 191) else if x = 244 then (128, 143) else (128, 191))"

definition is_cont :: "char \<Rightarrow> bool" where
  "is_cont c \<longleftrightarrow> 128 \<le> ord c \<and> ord c \<le> 191"

text \<open>\<open>utf8.DecodeRuneInString\<close>: the rune and its width; an invalid byte is \<open>(RuneError, 1)\<close>.\<close>

definition DecodeRune :: "string \<Rightarrow> nat \<times> nat" where
  "DecodeRune s =
     (case s of [] \<Rightarrow> (RuneError, 0)
      | c0 # s1 \<Rightarrow>
          (let x = ord c0 in
           if x < 128 then (x, 1)
           else if x < 194 \<or> 244 < x then (RuneError, 1)
           else
             (case s1 of [] \<Rightarrow> (RuneError, 1)
              | c1 # s2 \<Rightarrow>
                  if ord c1 < fst (accept_range x) \<or> snd (accept_range x) < ord c1 then (RuneError, 1)
                  else if x < 224 then ((x - 192) * 64 + (ord c1 - 128), 2)
                  else
                    (case s2 of [] \<Rightarrow> (RuneError, 1)
                     | c2 # s3 \<Rightarrow>
                         if \<not> is_cont c2 then (RuneError, 1)
                         else if x < 240 then ((x - 224) * 4096 + (ord c1 - 128) * 64 + (ord c2 - 128), 3)
                         else
                           (case s3 of [] \<Rightarrow> (RuneError, 1)
                            | c3 # _ \<Rightarrow>
                                if \<not> is_cont c3 then (RuneError, 1)
                                else ((x - 240) * 262144 + (ord c1 - 128) * 4096 + (ord c2 - 128) * 64
                                      + (ord c3 - 128), 4))))))"

lemma ord_less [simp]: "ord c < 256"
proof -
  have "ord c \<in> range (of_char :: char \<Rightarrow> nat)" by (rule rangeI)
  then show ?thesis by (simp add: range_nat_of_char)
qed

lemma ord_char_of [simp]: "n < 256 \<Longrightarrow> ord (char_of n) = n"
  by simp

lemma char_of_eq: "r < 256 \<Longrightarrow> char_of r = c \<longleftrightarrow> r = ord c"
  by (metis char_of_char ord_char_of)

lemma DecodeRune_ascii [simp]: "ord c < 128 \<Longrightarrow> DecodeRune (c # s) = (ord c, 1)"
  by (simp add: DecodeRune_def)

lemma EncodeRune_ascii: "r < 128 \<Longrightarrow> EncodeRune r = [char_of r]"
  by (simp add: EncodeRune_def ValidRune_def)

text \<open>The widths of two to four bytes, by the fields of the encoding.\<close>

lemma field64: "c < 64 \<Longrightarrow> (64 * x + c) div 64 = x" "c < 64 \<Longrightarrow> (64 * x + c) mod 64 = (c :: nat)"
  by simp_all

lemma div4096: "n div 4096 = n div 64 div (64 :: nat)"
  by (simp add: div_mult2_eq[symmetric])

lemma div262144: "n div 262144 = n div 64 div 64 div (64 :: nat)"
  by (simp add: div_mult2_eq[symmetric])

lemma EncodeRune_2:
  assumes "2 \<le> a" "a < 32" "b < 64"
  shows "EncodeRune (64 * a + b) = map char_of [192 + a, 128 + b]"
proof -
  have "\<not> 64 * a + b < 128" "64 * a + b < 2048" using assms by linarith+
  then show ?thesis
    unfolding EncodeRune_def
    using assms by (simp only: field64[OF assms(3)] Let_def ValidRune_def if_True if_False) simp
qed

lemma EncodeRune_3:
  assumes "a < 16" "b < 64" "c < 64" "ValidRune (64 * (64 * a + b) + c)" "a = 0 \<longrightarrow> 32 \<le> b"
  shows "EncodeRune (64 * (64 * a + b) + c) = map char_of [224 + a, 128 + b, 128 + c]"
proof -
  let ?r = "64 * (64 * a + b) + c"
  have "2048 \<le> ?r"
  proof (cases "a = 0")
    case True
    then show ?thesis using assms(5) by simp
  next
    case False
    then have "1 \<le> a" by simp
    then show ?thesis by simp
  qed
  then have "\<not> ?r < 2048" "\<not> ?r < 128" by linarith+
  moreover have "?r < 65536" using assms by simp
  ultimately show ?thesis
    using assms(4) unfolding EncodeRune_def
    by (simp only: field64[OF assms(3)] field64[OF assms(2)] div4096 Let_def if_True if_False)
qed

lemma EncodeRune_4:
  assumes "a < 5" "b < 64" "c < 64" "d < 64" "64 * (64 * (64 * a + b) + c) + d \<le> 1114111" "a = 0 \<longrightarrow> 16 \<le> b"
  shows "EncodeRune (64 * (64 * (64 * a + b) + c) + d) = map char_of [240 + a, 128 + b, 128 + c, 128 + d]"
proof -
  let ?r = "64 * (64 * (64 * a + b) + c) + d"
  have low: "65536 \<le> ?r"
  proof (cases "a = 0")
    case True
    then show ?thesis using assms(6) by simp
  next
    case False
    then have "1 \<le> a" by simp
    then show ?thesis by simp
  qed
  then have "\<not> ?r < 65536" "\<not> ?r < 2048" "\<not> ?r < 128" by linarith+
  moreover have "ValidRune ?r" unfolding ValidRune_def using assms(5) low by linarith
  ultimately show ?thesis
    unfolding EncodeRune_def
    by (simp only: field64[OF assms(2)] field64[OF assms(3)] field64[OF assms(4)] div4096 div262144 Let_def if_True if_False)
qed

lemma rune_cases:
  assumes "ValidRune r"
  obtains (ascii) "r < 128"
  | (two) a b where "r = 64 * a + b" "2 \<le> a" "a < 32" "b < 64"
  | (three) a b c where "r = 64 * (64 * a + b) + c" "a < 16" "b < 64" "c < 64" "a = 0 \<longrightarrow> 32 \<le> b" "a = 13 \<longrightarrow> b < 32"
  | (four) a b c d where "r = 64 * (64 * (64 * a + b) + c) + d" "a < 5" "b < 64" "c < 64" "d < 64"
      "a = 0 \<longrightarrow> 16 \<le> b" "a = 4 \<longrightarrow> b < 16" "r \<le> 1114111"
proof -
  define d x c y b a where "d = r mod 64" and "x = r div 64" and "c = x mod 64" and "y = x div 64"
    and "b = y mod 64" and "a = y div 64"
  have d: "r = 64 * x + d" "d < 64" by (simp_all add: d_def x_def)
  have c: "x = 64 * y + c" "c < 64" by (simp_all add: c_def y_def)
  have b: "y = 64 * a + b" "b < 64" by (simp_all add: a_def b_def)
  consider "r < 128" | "128 \<le> r" "r < 2048" | "2048 \<le> r" "r < 65536" | "65536 \<le> r" by linarith
  then show ?thesis
  proof cases
    case 1
    then show ?thesis by (rule ascii)
  next
    case 2
    then have "2 \<le> x" "x < 32" using d by linarith+
    with d show ?thesis by (intro two)
  next
    case 3
    have v: "r < 55296 \<or> 57343 < r" using assms by (auto simp: ValidRune_def)
    have r: "r = 64 * (64 * y + c) + d" using d(1) c(1) by simp
    have "y < 16" using 3(2) r by simp
    moreover have "y = 0 \<longrightarrow> 32 \<le> c" using 3(1) r d(2) by auto
    moreover have "y = 13 \<longrightarrow> c < 32" using v r c(2) d(2) by auto
    ultimately show ?thesis using r c(2) d(2) by (intro three)
  next
    case 4
    have v: "r \<le> 1114111" using assms 4 by (auto simp: ValidRune_def)
    have r: "r = 64 * (64 * (64 * a + b) + c) + d" using d(1) c(1) b(1) by simp
    have "a < 5" using v r by simp
    moreover have "a = 0 \<longrightarrow> 16 \<le> b" using 4 r d(2) c(2) by auto
    moreover have "a = 4 \<longrightarrow> b < 16" using v r by auto
    ultimately show ?thesis using r v b(2) c(2) d(2) by (intro four)
  qed
qed

text \<open>Decoding reads back what encoding writes, and encoding what a valid decoding read.\<close>

lemma decode_encode:
  assumes "ValidRune r"
  shows "DecodeRune (EncodeRune r @ t) = (r, length (EncodeRune r))"
  using assms
proof (cases rule: rune_cases)
  case ascii
  then show ?thesis by (simp add: EncodeRune_ascii)
next
  case (two a b)
  then show ?thesis unfolding two(1) EncodeRune_2[OF two(2-4)]
    by (simp add: DecodeRune_def accept_range_def)
next
  case (three a b c)
  then show ?thesis
    unfolding three(1) EncodeRune_3[OF three(2-4) assms[unfolded three(1)] three(5)]
    by (auto simp: DecodeRune_def accept_range_def is_cont_def Let_def)
next
  case (four a b c d)
  then show ?thesis
    unfolding four(1) EncodeRune_4[OF four(2-5) four(8)[unfolded four(1)] four(6)]
    by (auto simp: DecodeRune_def accept_range_def is_cont_def Let_def)
qed

lemma char_ordE:
  assumes "k \<le> ord c" "ord c < k + n"
  obtains m where "c = char_of (k + m)" "m < n"
proof (rule that[of "ord c - k"])
  show "c = char_of (k + (ord c - k))" "ord c - k < n" using assms by simp_all
qed

lemma encode_decode:
  assumes "DecodeRune s = (r, n)" and "s \<noteq> []" and "\<not> (r = RuneError \<and> n = 1)"
  shows "ValidRune r \<and> take n s = EncodeRune r \<and> n = length (EncodeRune r)"
proof -
  obtain c0 s1 where s: "s = c0 # s1" using assms(2) by (cases s) auto
  show ?thesis
  proof (cases "ord c0 < 128")
    case True
    then show ?thesis using assms(1) s by (auto simp: EncodeRune_ascii ValidRune_def)
  next
    case False
    note D = assms(1)[unfolded DecodeRune_def s list.case Let_def]
    have hi: "194 \<le> ord c0" "ord c0 \<le> 244" and "s1 \<noteq> []"
      using D assms(3) False by (auto split: if_splits)
    then obtain c1 s2 where s1: "s1 = c1 # s2" by (cases s1) auto
    have c1: "fst (accept_range (ord c0)) \<le> ord c1" "ord c1 \<le> snd (accept_range (ord c0))"
      using D assms(3) False hi s1 by (auto split: if_splits)
    then obtain b :: nat where b: "c1 = char_of (128 + b)" "b < 64"
      by (rule_tac char_ordE[of 128 c1 64]) (auto simp: accept_range_def split: if_splits)
    show ?thesis
    proof (cases "ord c0 < 224")
      case True
      then obtain a :: nat where a: "c0 = char_of (192 + a)" "a < 32"
        using hi by (rule_tac char_ordE[of 192 c0 32]) auto
      have "2 \<le> a" using hi(1) a by simp
      then have "EncodeRune (64 * a + b) = [c0, c1]" by (simp add: EncodeRune_2 a b)
      moreover have "r = 64 * a + b" "n = 2" using D s1 a b c1 hi by (auto split: if_splits)
      moreover have "ValidRune (64 * a + b)" using a(2) b(2) by (simp add: ValidRune_def)
      ultimately show ?thesis using s s1 by simp
    next
      case c0: False
      then have "s2 \<noteq> []" using D assms(3) False hi s1 c1 by (auto split: if_splits)
      then obtain c2 s3 where s2: "s2 = c2 # s3" by (cases s2) auto
      then have "is_cont c2" using D assms(3) False hi s1 c1 c0 by (auto split: if_splits)
      then obtain c :: nat where c: "c2 = char_of (128 + c)" "c < 64"
        by (rule_tac char_ordE[of 128 c2 64]) (auto simp: is_cont_def)
      show ?thesis
      proof (cases "ord c0 < 240")
        case True
        then obtain a :: nat where a: "c0 = char_of (224 + a)" "a < 16"
          using c0 by (rule_tac char_ordE[of 224 c0 16]) auto
        have ab: "a = 0 \<longrightarrow> 32 \<le> b" "a = 13 \<longrightarrow> b < 32"
          using c1 a b by (auto simp: accept_range_def)
        have r: "r = 64 * (64 * a + b) + c" "n = 3"
          using D s1 s2 a b c c1 hi by (auto simp: is_cont_def split: if_splits)
        have "ValidRune (64 * (64 * a + b) + c)"
        proof (cases "a \<le> 12")
          case True
          then show ?thesis using b c by (simp add: ValidRune_def)
        next
          case False
          then consider "a = 13" | "14 \<le> a" by linarith
          then show ?thesis using a b c ab by cases (simp_all add: ValidRune_def)
        qed
        then show ?thesis using EncodeRune_3[of a b c] a b c ab r s s1 s2 by simp
      next
        case c0': False
        then have "s3 \<noteq> []" using D assms(3) False hi s1 c1 s2 c by (auto split: if_splits)
        then obtain c3 s4 where s3: "s3 = c3 # s4" by (cases s3) auto
        then have "is_cont c3" using D assms(3) False hi s1 c1 c0 c0' s2 \<open>is_cont c2\<close> by (auto split: if_splits)
        then obtain d :: nat where d: "c3 = char_of (128 + d)" "d < 64"
          by (rule_tac char_ordE[of 128 c3 64]) (auto simp: is_cont_def)
        obtain a :: nat where a: "c0 = char_of (240 + a)" "a < 5"
          using c0' hi by (rule_tac char_ordE[of 240 c0 5]) auto
        have ab: "a = 0 \<longrightarrow> 16 \<le> b" "a = 4 \<longrightarrow> b < 16"
          using c1 a b by (auto simp: accept_range_def)
        have r: "r = 64 * (64 * (64 * a + b) + c) + d" "n = 4"
          using D s1 s2 s3 a b c d c1 hi by (auto simp: is_cont_def split: if_splits)
        have "64 * (64 * (64 * a + b) + c) + d \<le> 1114111 \<and> 65536 \<le> 64 * (64 * (64 * a + b) + c) + d"
        proof -
          consider "a = 0" | "1 \<le> a" "a \<le> 3" | "a = 4" using a(2) by linarith
          then show ?thesis using b c d ab by cases simp_all
        qed
        then have "ValidRune (64 * (64 * (64 * a + b) + c) + d)"
          and "EncodeRune (64 * (64 * (64 * a + b) + c) + d) = map char_of [240 + a, 128 + b, 128 + c, 128 + d]"
          unfolding ValidRune_def using EncodeRune_4[of a b c d] a b c d ab by (blast, linarith | simp)+
        then show ?thesis using a b c d r s s1 s2 s3 by simp
      qed
    qed
  qed
qed

lemma EncodeRune_high: "c \<in> set (EncodeRune r) \<Longrightarrow> 128 \<le> r \<Longrightarrow> 128 \<le> ord c"
proof -
  assume c: "c \<in> set (EncodeRune r)" and r: "128 \<le> r"
  define v where "v = (if ValidRune r then r else RuneError)"
  have v: "ValidRune v" "128 \<le> v" using r by (auto simp: v_def ValidRune_def RuneError_def)
  have "EncodeRune r = EncodeRune v" using v(1) by (simp add: EncodeRune_def v_def)
  with c have "c \<in> set (EncodeRune v)" by simp
  with v(1) show ?thesis
  proof (cases rule: rune_cases)
    case ascii
    then show ?thesis using v(2) by simp
  next
    case (two a b)
    with \<open>c \<in> set (EncodeRune v)\<close> show ?thesis
      unfolding two(1) EncodeRune_2[OF two(2-4)] by auto
  next
    case (three a b c')
    with \<open>c \<in> set (EncodeRune v)\<close> show ?thesis
      unfolding three(1) EncodeRune_3[OF three(2-4) v(1)[unfolded three(1)] three(5)] by auto
  next
    case (four a b c' d)
    with \<open>c \<in> set (EncodeRune v)\<close> show ?thesis
      unfolding four(1) EncodeRune_4[OF four(2-5) four(8)[unfolded four(1)] four(6)] by auto
  qed
qed

section \<open>Trimming\<close>

text \<open>\<open>unicode.IsSpace\<close>: the white space of Latin-1 and the \<open>White_Space\<close> property beyond it.\<close>

definition IsSpace :: "nat \<Rightarrow> bool" where
  "IsSpace r \<longleftrightarrow>
     r \<in> {9, 10, 11, 12, 13, 32, 133, 160, 5760, 8232, 8233, 8239, 8287, 12288} \<or> 8192 \<le> r \<and> r \<le> 8202"

text \<open>For evaluation: Latin-1 without comparing large numerals.\<close>

lemma IsSpace_code [code]:
  "IsSpace r = (if r < 256 then r \<in> {9, 10, 11, 12, 13, 32, 133, 160}
     else r \<in> {5760, 8232, 8233, 8239, 8287, 12288} \<or> 8192 \<le> r \<and> r \<le> 8202)"
  by (auto simp: IsSpace_def)

fun TrimLeftSpace :: "string \<Rightarrow> string" where
  "TrimLeftSpace s =
     (case s of [] \<Rightarrow> []
      | _ # s' \<Rightarrow>
          (case DecodeRune s of (r, n) \<Rightarrow> if IsSpace r then TrimLeftSpace (drop (n - 1) s') else s))"

declare TrimLeftSpace.simps [simp del]

text \<open>
  \<open>utf8.DecodeLastRuneInString\<close>: the scan back to the first byte of a rune looks at most four
  bytes back, and a rune that does not end the string is an error of width 1.
\<close>

definition RuneStart :: "char \<Rightarrow> bool" where
  "RuneStart c \<longleftrightarrow> \<not> is_cont c"

definition DecodeLastRune :: "string \<Rightarrow> nat \<times> nat" where
  "DecodeLastRune s =
     (if s = [] then (RuneError, 0)
      else if ord (last s) < 128 then (ord (last s), 1)
      else
        (case filter (\<lambda>k. k \<le> length s \<and> RuneStart (s ! (length s - k))) [2, 3, 4] of
           [] \<Rightarrow> (RuneError, 1)
         | k # _ \<Rightarrow>
             (case DecodeRune (drop (length s - k) s) of (r, n) \<Rightarrow>
                if n = k then (r, n) else (RuneError, 1))))"

lemma DecodeRune_width: "s \<noteq> [] \<Longrightarrow> 1 \<le> snd (DecodeRune s)"
  by (auto simp: DecodeRune_def Let_def split: list.split if_splits)

lemma DecodeLastRune_width: "s \<noteq> [] \<Longrightarrow> 1 \<le> snd (DecodeLastRune s)"
proof -
  assume "s \<noteq> []"
  moreover have "1 \<le> k" if "filter P [2, 3, 4 :: nat] = k # ks" for P k ks
  proof -
    have "set (filter P [2, 3, 4 :: nat]) \<subseteq> {2, 3, 4}" by auto
    with that show ?thesis by (auto simp del: filter.simps)
  qed
  ultimately show ?thesis
    by (auto simp: DecodeLastRune_def split: list.split prod.split if_splits simp del: filter.simps)
qed

lemma DecodeLastRune_progress:
  "(r, n) = DecodeLastRune s \<Longrightarrow> s \<noteq> [] \<Longrightarrow> 0 < n \<and> 0 < length s"
  using DecodeLastRune_width[of s] by (metis One_nat_def Suc_le_lessD length_greater_0_conv snd_conv)

function TrimRightSpace :: "string \<Rightarrow> string" where
  "TrimRightSpace s =
     (if s = [] then []
      else (case DecodeLastRune s of (r, n) \<Rightarrow>
              if IsSpace r then TrimRightSpace (take (length s - n) s) else s))"
  by auto
termination
  by (relation "measure length") (auto dest!: DecodeLastRune_progress)

declare TrimRightSpace.simps [simp del]

definition TrimSpace :: "string \<Rightarrow> string" where
  "TrimSpace s = TrimRightSpace (TrimLeftSpace s)"

text \<open>An ASCII byte that is no space stops both scans.\<close>

definition solid :: "char \<Rightarrow> bool" where
  "solid c \<longleftrightarrow> ord c < 128 \<and> \<not> IsSpace (ord c)"

lemma TrimLeftSpace_Nil [simp]: "TrimLeftSpace [] = []"
  by (subst TrimLeftSpace.simps) simp

lemma TrimLeftSpace_solid [simp]: "solid c \<Longrightarrow> TrimLeftSpace (c # s) = c # s"
  by (subst TrimLeftSpace.simps) (simp add: solid_def)

lemma TrimLeftSpace_space [simp]: "TrimLeftSpace (CHR '' '' # s) = TrimLeftSpace s"
  by (subst TrimLeftSpace.simps) (simp add: IsSpace_def)

lemma TrimRightSpace_Nil [simp]: "TrimRightSpace [] = []"
  by (subst TrimRightSpace.simps) simp

lemma TrimRightSpace_solid: "s \<noteq> [] \<Longrightarrow> solid (last s) \<Longrightarrow> TrimRightSpace s = s"
  by (subst TrimRightSpace.simps) (simp add: solid_def DecodeLastRune_def)

lemma TrimSpace_solid: "s \<noteq> [] \<Longrightarrow> solid (hd s) \<Longrightarrow> solid (last s) \<Longrightarrow> TrimSpace s = s"
  by (cases s) (simp_all add: TrimSpace_def TrimRightSpace_solid)

lemma TrimSpace_Nil [simp]: "TrimSpace [] = []"
  by (simp add: TrimSpace_def)

lemma TrimSpace_space [simp]: "TrimSpace (CHR '' '' # s) = TrimSpace s"
  by (simp add: TrimSpace_def)

section \<open>Searching, joining\<close>

text \<open>\<open>strings.IndexByte\<close>; \<open>None\<close> is \<open>-1\<close>.\<close>

fun IndexByte :: "string \<Rightarrow> char \<Rightarrow> nat option" where
  "IndexByte [] c = None"
| "IndexByte (x # xs) c = (if x = c then Some 0 else map_option Suc (IndexByte xs c))"

fun Join :: "string list \<Rightarrow> string \<Rightarrow> string" where
  "Join [] sep = []"
| "Join [x] sep = x"
| "Join (x # xs) sep = x @ sep @ Join xs sep"

lemma IndexByte_append [simp]: "c \<notin> set xs \<Longrightarrow> IndexByte (xs @ c # ys) c = Some (length xs)"
  by (induction xs) auto

lemma IndexByte_None: "IndexByte xs c = None \<longleftrightarrow> c \<notin> set xs"
  by (induction xs) auto

lemma IndexByte_Some: "IndexByte xs c = Some i \<Longrightarrow> i < length xs \<and> xs ! i = c \<and> c \<notin> set (take i xs)"
  by (induction xs arbitrary: i) (auto split: if_splits)

lemma Join_Cons: "Join (x # xs) sep = x @ concat (map (\<lambda>y. sep @ y) xs)"
  by (induction xs arbitrary: x) auto

section \<open>Paths\<close>

text \<open>\<open>path.Clean\<close> works on the elements of a path; \<open>..\<close> at the root stays there.\<close>

fun split_slash :: "string \<Rightarrow> string \<Rightarrow> string list" where
  "split_slash cur [] = [cur]"
| "split_slash cur (c # s) = (if c = CHR ''/'' then cur # split_slash [] s else split_slash (cur @ [c]) s)"

definition clean_step :: "string list \<Rightarrow> string \<Rightarrow> string list" where
  "clean_step p c = (if c = [] \<or> c = ''.'' then p else if c = ''..'' then butlast p else p @ [c])"

definition clean_path :: "string list \<Rightarrow> string \<Rightarrow> string list" where
  "clean_path base s = foldl clean_step base (split_slash [] s)"

end
