(* ===== verification/Quote.thy ===== *)
theory Quote
  imports GoStrings
begin

text \<open>
  Quoted strings of the \<open>strconv\<close> package: \<open>strconv.Unquote\<close>, which reads the label values of
  a selector, and \<open>strconv.Quote\<close> (\<open>fmt\<close>'s \<open>%q\<close>), with which \<open>mmctl\<close> prints them. Quoting
  leaves printable runes as they are; the Unicode tables behind \<open>strconv.IsPrint\<close> for runes
  above Latin-1 are the argument \<open>printable\<close>.
\<close>

section \<open>Hexadecimal digits\<close>

definition hex_char :: "nat \<Rightarrow> char" where
  "hex_char d = (if d < 10 then char_of (48 + d) else char_of (87 + d))"

definition unhex :: "char \<Rightarrow> nat option" where
  "unhex c =
     (let n = ord c in
      if 48 \<le> n \<and> n \<le> 57 then Some (n - 48)
      else if 97 \<le> n \<and> n \<le> 102 then Some (n - 87)
      else if 65 \<le> n \<and> n \<le> 70 then Some (n - 55)
      else None)"

text \<open>\<open>n\<close> digits of base \<open>2 ^ k\<close>, most significant first.\<close>

fun hex_pad :: "nat \<Rightarrow> nat \<Rightarrow> string" where
  "hex_pad 0 r = []"
| "hex_pad (Suc n) r = hex_char (r div 16 ^ n mod 16) # hex_pad n r"

fun hex_loop :: "nat \<Rightarrow> nat \<Rightarrow> string \<Rightarrow> (nat \<times> string) option" where
  "hex_loop 0 v s = Some (v, s)"
| "hex_loop (Suc n) v [] = None"
| "hex_loop (Suc n) v (c # s) =
     (case unhex c of None \<Rightarrow> None | Some x \<Rightarrow> hex_loop n (v * 16 + x) s)"

definition unoct :: "char \<Rightarrow> nat option" where
  "unoct c = (if 48 \<le> ord c \<and> ord c \<le> 55 then Some (ord c - 48) else None)"

section \<open>Unquoting\<close>

text \<open>
  \<open>strconv.UnquoteChar\<close>: the value of the first character or escape, whether it stands for a
  rune (rather than a byte), and the rest. \<open>None\<close> is \<open>ErrSyntax\<close>.
\<close>

definition simple_escape :: "char \<Rightarrow> nat option" where
  "simple_escape c =
     map_of [(CHR ''a'', 7), (CHR ''b'', 8), (CHR ''f'', 12), (CHR ''n'', 10), (CHR ''r'', 13),
             (CHR ''t'', 9), (CHR ''v'', 11), (CHR 0x5C, 92)] c"

definition unquote_octal :: "char \<Rightarrow> string \<Rightarrow> (nat \<times> bool \<times> string) option" where
  "unquote_octal e s =
     (case s of
        d1 # d2 # t \<Rightarrow>
          (case (unoct e, unoct d1, unoct d2) of
             (Some v, Some v1, Some v2) \<Rightarrow>
               if (v * 8 + v1) * 8 + v2 > 255 then None
               else Some ((v * 8 + v1) * 8 + v2, False, t)
           | _ \<Rightarrow> None)
      | _ \<Rightarrow> None)"

definition unquote_rune :: "nat \<Rightarrow> string \<Rightarrow> (nat \<times> bool \<times> string) option" where
  "unquote_rune n s =
     (case hex_loop n 0 s of None \<Rightarrow> None
      | Some (v, t) \<Rightarrow> if ValidRune v then Some (v, True, t) else None)"

text \<open>The escapes, after the backslash and the byte \<open>e\<close>.\<close>

definition unquote_escape :: "char \<Rightarrow> string \<Rightarrow> char \<Rightarrow> (nat \<times> bool \<times> string) option" where
  "unquote_escape e s quote =
     (case simple_escape e of
        Some v \<Rightarrow> Some (v, False, s)
      | None \<Rightarrow>
          if e = CHR ''x'' then map_option (\<lambda>(v, t). (v, False, t)) (hex_loop 2 0 s)
          else if e = CHR ''u'' then unquote_rune 4 s
          else if e = CHR ''U'' then unquote_rune 8 s
          else if unoct e \<noteq> None then unquote_octal e s
          else if (e = CHR 0x27 \<or> e = CHR 0x22) \<and> e = quote then Some (ord e, False, s)
          else None)"

definition UnquoteChar :: "string \<Rightarrow> char \<Rightarrow> (nat \<times> bool \<times> string) option" where
  "UnquoteChar s quote =
     (case s of [] \<Rightarrow> None
      | c # s1 \<Rightarrow>
          if c = quote \<and> (quote = CHR 0x27 \<or> quote = CHR 0x22) then None
          else if 128 \<le> ord c then (case DecodeRune s of (r, n) \<Rightarrow> Some (r, True, drop n s))
          else if c \<noteq> CHR 0x5C then Some (ord c, False, s1)
          else (case s1 of [] \<Rightarrow> None | e # s2 \<Rightarrow> unquote_escape e s2 quote))"

lemma hex_loop_rest: "hex_loop n v s = Some (v', t) \<Longrightarrow> length t \<le> length s"
  by (induction n v s rule: hex_loop.induct) (auto split: option.splits)

lemma unquote_escape_rest: "unquote_escape e s quote = Some (r, mb, t) \<Longrightarrow> length t \<le> length s"
proof -
  have "length t \<le> length s" if "unquote_octal e s = Some (r, mb, t)"
    using that by (auto simp: unquote_octal_def split: list.splits option.splits if_splits)
  moreover have "length t \<le> length s" if "unquote_rune n s = Some (r, mb, t)" for n
    using that by (auto simp: unquote_rune_def dest!: hex_loop_rest split: option.splits if_splits)
  moreover assume "unquote_escape e s quote = Some (r, mb, t)"
  ultimately show ?thesis
    by (auto simp: unquote_escape_def dest!: hex_loop_rest split: option.splits if_splits)
qed

lemma UnquoteChar_progress:
  assumes "UnquoteChar s quote = Some (r, mb, t)"
  shows "length t < length s"
proof -
  obtain c s1 where s: "s = c # s1" using assms by (cases s) (auto simp: UnquoteChar_def)
  show ?thesis
  proof (cases "128 \<le> ord c")
    case True
    then have "t = drop (snd (DecodeRune s)) s"
      using assms by (auto simp: s UnquoteChar_def split: prod.splits if_splits)
    then show ?thesis using DecodeRune_width[of s] s by simp
  next
    case False
    then show ?thesis
      using assms by (auto simp: s UnquoteChar_def split: if_splits list.splits dest!: unquote_escape_rest)
  qed
qed

text \<open>
  The loop of \<open>unquote\<close> after the opening quote, up to the closing quote, which it leaves; a
  single-quoted string is one character. (The code has a shortcut for strings without escapes
  that are valid UTF-8, for which the loop returns the string itself.)
\<close>

definition unquoted :: "nat \<Rightarrow> bool \<Rightarrow> string" where
  "unquoted r multibyte = (if r < 128 \<or> \<not> multibyte then [char_of r] else EncodeRune r)"

function unquote_loop :: "char \<Rightarrow> string \<Rightarrow> (string \<times> string) option" where
  "unquote_loop quote s =
     (if s = [] \<or> hd s = quote then Some ([], s)
      else
        (case UnquoteChar s quote of None \<Rightarrow> None
         | Some (r, multibyte, t) \<Rightarrow>
             if hd s = CHR 0x0A then None
             else if quote = CHR 0x27 then Some (unquoted r multibyte, t)
             else map_option (\<lambda>(out, rem). (unquoted r multibyte @ out, rem)) (unquote_loop quote t)))"
  by auto
termination
  by (relation "measure (\<lambda>(quote, s). length s)") (auto dest: UnquoteChar_progress)

declare unquote_loop.simps [simp del]

definition Unquote :: "string \<Rightarrow> string option" where
  "Unquote s =
     (if length s < 2 then None
      else
        (case IndexByte (tl s) (hd s) of None \<Rightarrow> None
         | Some e \<Rightarrow>
             if hd s = CHR 0x60 then
               (if drop (Suc e) (tl s) \<noteq> [] then None
                else Some (filter (\<lambda>c. c \<noteq> CHR 0x0D) (take e (tl s))))
             else if hd s = CHR 0x22 \<or> hd s = CHR 0x27 then
               (case unquote_loop (hd s) (tl s) of
                  Some (out, rem) \<Rightarrow> if rem = [hd s] then Some out else None
                | None \<Rightarrow> None)
             else None))"

section \<open>Quoting\<close>

definition IsPrint :: "(nat \<Rightarrow> bool) \<Rightarrow> nat \<Rightarrow> bool" where
  "IsPrint printable r =
     (if r < 128 then 32 \<le> r \<and> r < 127
      else if r < 256 then 161 \<le> r \<and> r \<noteq> 173
      else printable r)"

definition appendEscapedRune :: "(nat \<Rightarrow> bool) \<Rightarrow> nat \<Rightarrow> string" where
  "appendEscapedRune printable r =
     (if r = 34 \<or> r = 92 then [CHR 0x5C, char_of r]
      else if IsPrint printable r then EncodeRune r
      else
        (case map_of [(7, CHR ''a''), (8, CHR ''b''), (12, CHR ''f''), (10, CHR ''n''), (13, CHR ''r''),
                      (9, CHR ''t''), (11, CHR ''v'')] r of
           Some e \<Rightarrow> [CHR 0x5C, e]
         | None \<Rightarrow>
             if r < 32 \<or> r = 127 then [CHR 0x5C, CHR ''x''] @ hex_pad 2 r
             else
               (let r = (if ValidRune r then r else RuneError) in
                if r < 65536 then [CHR 0x5C, CHR ''u''] @ hex_pad 4 r
                else [CHR 0x5C, CHR ''U''] @ hex_pad 8 r)))"

fun quote_body :: "(nat \<Rightarrow> bool) \<Rightarrow> string \<Rightarrow> string" where
  "quote_body printable s =
     (case s of [] \<Rightarrow> []
      | c # s' \<Rightarrow>
          (case DecodeRune s of (r, n) \<Rightarrow>
             if n = 1 \<and> r = RuneError
             then [CHR 0x5C, CHR ''x''] @ hex_pad 2 (ord c) @ quote_body printable s'
             else appendEscapedRune printable r @ quote_body printable (drop (n - 1) s')))"

declare quote_body.simps [simp del]

definition Quote :: "(nat \<Rightarrow> bool) \<Rightarrow> string \<Rightarrow> string" where
  "Quote printable s = CHR 0x22 # quote_body printable s @ [CHR 0x22]"

section \<open>Unquoting a quoted string\<close>

lemma unhex_hex_char: "d < 16 \<Longrightarrow> unhex (hex_char d) = Some d"
  by (auto simp: unhex_def hex_char_def Let_def)

lemma hex_loop_hex_pad: "hex_loop n v (hex_pad n r @ t) = Some (v * 16 ^ n + r mod 16 ^ n, t)"
proof (induction n arbitrary: v)
  case 0
  then show ?case by simp
next
  case (Suc n)
  have "r mod 16 ^ Suc n = 16 ^ n * (r div 16 ^ n mod 16) + r mod 16 ^ n"
    by (metis mod_mult2_eq mult.commute power_Suc)
  with Suc show ?case by (simp add: unhex_hex_char algebra_simps)
qed

lemma UnquoteChar_hex:
  "UnquoteChar (CHR 0x5C # CHR ''x'' # hex_pad 2 r @ t) CHR 0x22 = Some (r mod 256, False, t)"
  "ValidRune (r mod 65536) \<Longrightarrow>
   UnquoteChar (CHR 0x5C # CHR ''u'' # hex_pad 4 r @ t) CHR 0x22 = Some (r mod 65536, True, t)"
  "ValidRune (r mod 4294967296) \<Longrightarrow>
   UnquoteChar (CHR 0x5C # CHR ''U'' # hex_pad 8 r @ t) CHR 0x22 = Some (r mod 4294967296, True, t)"
  by (simp_all add: UnquoteChar_def unquote_escape_def unquote_rune_def simple_escape_def
      hex_loop_hex_pad del: hex_loop.simps hex_pad.simps)

lemma EncodeRune_hd: "128 \<le> r \<Longrightarrow> \<exists>c cs. EncodeRune r = c # cs \<and> 128 \<le> ord c"
  by (auto simp: EncodeRune_def Let_def ValidRune_def RuneError_def)

text \<open>What one escaped rune gives back.\<close>

definition reads_as :: "string \<Rightarrow> string \<Rightarrow> bool" where
  "reads_as q out \<longleftrightarrow>
     (\<forall>t. \<exists>r mb. UnquoteChar (q @ t) CHR 0x22 = Some (r, mb, t) \<and> unquoted r mb = out) \<and>
     q \<noteq> [] \<and> hd q \<noteq> CHR 0x22 \<and> hd q \<noteq> CHR 0x0A"

lemma unquote_loop_reads:
  "reads_as q out \<Longrightarrow>
   unquote_loop CHR 0x22 (q @ t) = map_option (\<lambda>(o', rem). (out @ o', rem)) (unquote_loop CHR 0x22 t)"
  unfolding reads_as_def
  by (subst unquote_loop.simps) (auto split: option.splits dest: spec[of _ t])

lemma reads_asI:
  "(\<And>t. UnquoteChar (q @ t) CHR 0x22 = Some (r, mb, t)) \<Longrightarrow> unquoted r mb = out \<Longrightarrow>
   q \<noteq> [] \<Longrightarrow> hd q \<noteq> CHR 0x22 \<Longrightarrow> hd q \<noteq> CHR 0x0A \<Longrightarrow> reads_as q out"
  unfolding reads_as_def by blast

lemma reads_as_byte: "c < 256 \<Longrightarrow> reads_as ([CHR 0x5C, CHR ''x''] @ hex_pad 2 c) [char_of c]"
  by (rule reads_asI[of _ c False]) (simp_all add: UnquoteChar_hex unquoted_def del: hex_pad.simps)

lemma reads_as_simple:
  "simple_escape e = Some v \<Longrightarrow> v < 128 \<Longrightarrow> reads_as [CHR 0x5C, e] [char_of v]"
  by (rule reads_asI[of _ v False]) (simp_all add: UnquoteChar_def unquote_escape_def unquoted_def)

lemma reads_as_quote: "reads_as [CHR 0x5C, CHR 0x22] [CHR 0x22]"
  by (rule reads_asI[of _ 34 False])
    (simp_all add: UnquoteChar_def unquote_escape_def simple_escape_def unoct_def unquoted_def char_of_eq)

lemma reads_as_plain:
  assumes "ValidRune r" and "r \<noteq> 34" "r \<noteq> 92" "r \<noteq> 10"
  shows "reads_as (EncodeRune r) (EncodeRune r)"
proof (cases "r < 128")
  case True
  then have "char_of r \<noteq> CHR 0x22" "char_of r \<noteq> CHR 0x5C" "char_of r \<noteq> CHR 0x0A"
    using assms by (simp_all add: char_of_eq)
  with True show ?thesis
    by (intro reads_asI[of _ r False]) (simp_all add: EncodeRune_ascii UnquoteChar_def unquoted_def)
next
  case False
  then obtain c cs where e: "EncodeRune r = c # cs" "128 \<le> ord c" using EncodeRune_hd[of r] by auto
  then have "c \<noteq> CHR 0x22" "c \<noteq> CHR 0x0A" by auto
  moreover have "DecodeRune (c # cs @ t) = (r, length (c # cs))" for t
    using decode_encode[OF assms(1), of t] e by simp
  ultimately show ?thesis using False e
    by (intro reads_asI[of _ r True]) (simp_all add: UnquoteChar_def unquoted_def)
qed

lemma reads_as_rune:
  assumes "ValidRune r"
  shows "reads_as (appendEscapedRune printable r) (EncodeRune r)"
proof -
  let ?esc = "map_of [(7, CHR ''a''), (8, CHR ''b''), (12, CHR ''f''), (10, CHR ''n''), (13, CHR ''r''),
                      (9, CHR ''t''), (11 :: nat, CHR ''v'')]"
  consider (quote) "r = 34 \<or> r = 92" | (print) "r \<noteq> 34" "r \<noteq> 92" "IsPrint printable r"
    | (esc) e where "\<not> IsPrint printable r" "?esc r = Some e"
    | (byte) "\<not> IsPrint printable r" "?esc r = None" "r < 32 \<or> r = 127"
    | (wide) "r \<noteq> 34" "r \<noteq> 92" "\<not> IsPrint printable r" "?esc r = None" "\<not> (r < 32 \<or> r = 127)"
    by (cases "?esc r") blast+
  then show ?thesis
  proof cases
    case quote
    then show ?thesis
    proof
      assume "r = 34"
      moreover have "char_of (34 :: nat) = CHR 0x22" by code_simp
      ultimately show ?thesis
        using reads_as_quote by (simp add: appendEscapedRune_def EncodeRune_ascii)
    next
      assume "r = 92"
      moreover have "char_of (92 :: nat) = CHR 0x5C" by code_simp
      moreover have "reads_as [CHR 0x5C, CHR 0x5C] [char_of (92 :: nat)]"
        by (rule reads_as_simple) (simp_all add: simple_escape_def)
      ultimately show ?thesis by (simp add: appendEscapedRune_def EncodeRune_ascii)
    qed
  next
    case print
    moreover have "r \<noteq> 10" using print(3) by (auto simp: IsPrint_def)
    ultimately show ?thesis using reads_as_plain[OF assms] by (simp add: appendEscapedRune_def)
  next
    case (esc e)
    then have "simple_escape e = Some r" "r < 128" "r \<noteq> 34" "r \<noteq> 92"
      by (auto simp: simple_escape_def split: if_splits)
    with esc show ?thesis
      using reads_as_simple by (simp add: appendEscapedRune_def EncodeRune_ascii del: map_of.simps)
  next
    case byte
    then have "r < 128" "r \<noteq> 34" "r \<noteq> 92" by auto
    with byte show ?thesis
      using reads_as_byte[of r]
      by (simp add: appendEscapedRune_def EncodeRune_ascii del: map_of.simps hex_pad.simps)
  next
    case wide
    then have big: "128 \<le> r" using wide by (auto simp: IsPrint_def split: if_splits)
    show ?thesis
    proof (cases "r < 65536")
      case True
      with wide assms big show ?thesis
        by (intro reads_asI[of _ r True])
          (simp_all add: appendEscapedRune_def UnquoteChar_hex unquoted_def Let_def
            del: map_of.simps hex_pad.simps)
    next
      case False
      have "r < 4294967296" using assms by (auto simp: ValidRune_def)
      then have m: "r mod 4294967296 = r" by simp
      show ?thesis using False wide assms big
        by (intro reads_asI[of _ r True])
          (simp_all add: appendEscapedRune_def UnquoteChar_hex unquoted_def Let_def m
            del: map_of.simps hex_pad.simps)
    qed
  qed
qed

lemma unquote_loop_quote_body:
  "unquote_loop CHR 0x22 (quote_body printable s @ CHR 0x22 # t) = Some (s, CHR 0x22 # t)"
proof (induction printable s rule: quote_body.induct)
  case (1 printable s)
  show ?case
  proof (cases s)
    case Nil
    then show ?thesis by (subst unquote_loop.simps) (simp add: quote_body.simps)
  next
    case (Cons c s')
    obtain r n where d: "DecodeRune s = (r, n)" by fastforce
    show ?thesis
    proof (cases "n = 1 \<and> r = RuneError")
      case True
      then have "quote_body printable s = [CHR 0x5C, CHR ''x''] @ hex_pad 2 (ord c) @ quote_body printable s'"
        using Cons d by (subst quote_body.simps) (simp del: hex_pad.simps)
      then show ?thesis
        using unquote_loop_reads[OF reads_as_byte[of "ord c"], of "quote_body printable s' @ CHR 0x22 # t"]
          1(1)[OF Cons d[symmetric] True] Cons by simp
    next
      case False
      then have v: "ValidRune r" "take n s = EncodeRune r" using encode_decode[OF d] Cons by auto
      have n: "1 \<le> n" using DecodeRune_width[of s] d Cons by simp
      then have dr: "drop (n - 1) s' = drop n s" using Cons by (cases n) auto
      have "quote_body printable s = appendEscapedRune printable r @ quote_body printable (drop n s)"
        using Cons d False dr by (subst quote_body.simps) auto
      then show ?thesis
        using unquote_loop_reads[OF reads_as_rune[OF v(1)], of printable "quote_body printable (drop n s) @ CHR 0x22 # t"]
          1(2)[OF Cons d[symmetric] False] dr v(2) by (simp) (metis append_take_drop_id)
    qed
  qed
qed

theorem Unquote_Quote: "Unquote (Quote printable s) = Some s"
proof -
  have "CHR 0x22 \<in> set (quote_body printable s @ [CHR 0x22])" by simp
  then obtain e where "IndexByte (quote_body printable s @ [CHR 0x22]) CHR 0x22 = Some e"
    using IndexByte_None[of "quote_body printable s @ [CHR 0x22]" "CHR 0x22"] by (metis not_None_eq)
  then show ?thesis
    using unquote_loop_quote_body[of printable s "[]"] by (simp add: Unquote_def Quote_def)
qed

end
