(* ===== verification/Selector.thy ===== *)
theory Selector
  imports Series Quote
begin

text \<open>
  The query language: \<open>ParseSelector\<close> and \<open>splitLabelPairs\<close> of \<open>storage/query.go\<close>. The
  texts of the errors are given without the offending input they quote.
\<close>

section \<open>Names\<close>

text \<open>The regular expression \<open>metricNameRE\<close>; \<open>$\<close> is the end of the text.\<close>

definition name_start :: "char \<Rightarrow> bool" where
  "name_start c \<longleftrightarrow>
     97 \<le> ord c \<and> ord c \<le> 122 \<or> 65 \<le> ord c \<and> ord c \<le> 90 \<or> c = CHR ''_'' \<or> c = CHR '':''"

definition name_char :: "char \<Rightarrow> bool" where
  "name_char c \<longleftrightarrow> name_start c \<or> 48 \<le> ord c \<and> ord c \<le> 57"

definition metricNameRE :: "string \<Rightarrow> bool" where
  "metricNameRE s = (case s of [] \<Rightarrow> False | c # cs \<Rightarrow> name_start c \<and> list_all name_char cs)"

section \<open>Splitting at commas outside quotes\<close>

record split_state =
  sp_parts :: "string list"
  sp_start :: nat
  sp_inQuote :: bool
  sp_escaped :: bool

definition split_step :: "string \<Rightarrow> split_state \<Rightarrow> nat \<Rightarrow> split_state" where
  "split_step s st i =
     (let c = s ! i in
      if sp_escaped st then st\<lparr>sp_escaped := False\<rparr>
      else if sp_inQuote st \<and> c = CHR 0x5C then st\<lparr>sp_escaped := True\<rparr>
      else if c = CHR 0x22 then st\<lparr>sp_inQuote := \<not> sp_inQuote st\<rparr>
      else if c = CHR '','' \<and> \<not> sp_inQuote st
      then st\<lparr>sp_parts := sp_parts st @ [drop (sp_start st) (take i s)], sp_start := i + 1\<rparr>
      else st)"

definition splitLabelPairs :: "string \<Rightarrow> string list" where
  "splitLabelPairs s =
     (let st = foldl (split_step s)
                 \<lparr>sp_parts = [], sp_start = 0, sp_inQuote = False, sp_escaped = False\<rparr> [0..<length s]
      in sp_parts st @ [drop (sp_start st) s])"

section \<open>Parsing\<close>

text \<open>One part of the matcher list; \<open>None\<close> is an empty part, which is skipped.\<close>

definition parse_pair :: "string \<Rightarrow> nat \<Rightarrow> Matcher option res" where
  "parse_pair part eq =
     (let nm = TrimSpace (take eq part) in
      if \<not> metricNameRE nm then Inl (ErrMsg ''invalid label name'')
      else
        (case Unquote (TrimSpace (drop (eq + 1) part)) of
           None \<Rightarrow> Inl (ErrMsg ''malformed value in matcher'')
         | Some v \<Rightarrow> Inr (Some \<lparr>m_name = nm, m_value = v\<rparr>)))"

definition parse_matcher :: "string \<Rightarrow> Matcher option res" where
  "parse_matcher part0 =
     (let part = TrimSpace part0 in
      if part = [] then Inr None
      else
        (case IndexByte part CHR ''='' of
           None \<Rightarrow> Inl (ErrMsg ''malformed matcher'')
         | Some eq \<Rightarrow> if eq = 0 then Inl (ErrMsg ''malformed matcher'') else parse_pair part eq))"

fun parse_matchers :: "Matcher list \<Rightarrow> string list \<Rightarrow> Matcher list res" where
  "parse_matchers ms [] = Inr ms"
| "parse_matchers ms (p # ps) =
     rbind (parse_matcher p)
       (\<lambda>r. case r of None \<Rightarrow> parse_matchers ms ps | Some m \<Rightarrow> parse_matchers (ms @ [m]) ps)"

text \<open>The matchers in braces, after the metric name before them, if any.\<close>

definition parse_braces :: "Matcher list \<Rightarrow> string \<Rightarrow> Matcher list res" where
  "parse_braces ms rest =
     (if length rest < 2 \<or> hd rest \<noteq> CHR ''{'' \<or> last rest \<noteq> CHR ''}'' then Inl (ErrMsg ''malformed selector'')
      else
        rbind (parse_matchers ms (splitLabelPairs (butlast (tl rest))))
          (\<lambda>ms. if ms = [] then Inl (ErrMsg ''selector must contain at least one matcher'') else Inr ms))"

definition ParseSelector :: "string \<Rightarrow> Matcher list res" where
  "ParseSelector q0 =
     (let q = TrimSpace q0 in
      if q = [] then Inl (ErrMsg ''empty selector'')
      else
        (case IndexByte q CHR ''{'' of
           None \<Rightarrow>
             if \<not> metricNameRE q then Inl (ErrMsg ''invalid metric name'')
             else Inr [\<lparr>m_name = MetricNameLabel, m_value = q\<rparr>]
         | Some i \<Rightarrow>
             (let nm = TrimSpace (take i q) in
              if nm = [] then parse_braces [] (drop i q)
              else if \<not> metricNameRE nm then Inl (ErrMsg ''invalid metric name'')
              else parse_braces [\<lparr>m_name = MetricNameLabel, m_value = nm\<rparr>] (drop i q))))"

section \<open>What a split is\<close>

text \<open>
  The scanner's mode is (inside quotes, after a backslash inside quotes). A comma is bare when
  it is met outside both.
\<close>

definition scan_char :: "bool \<times> bool \<Rightarrow> char \<Rightarrow> bool \<times> bool" where
  "scan_char = (\<lambda>(q, e) c.
     if e then (q, False)
     else if q \<and> c = CHR 0x5C then (q, True)
     else if c = CHR 0x22 then (\<not> q, False)
     else (q, False))"

abbreviation outside :: "bool \<times> bool" where
  "outside \<equiv> (False, False)"

fun no_bare_comma :: "bool \<times> bool \<Rightarrow> string \<Rightarrow> bool" where
  "no_bare_comma md [] = True"
| "no_bare_comma md (c # cs) = (\<not> (md = outside \<and> c = CHR '','') \<and> no_bare_comma (scan_char md c) cs)"

text \<open>
  The reference: the parts joined by commas are the string, none has a bare comma, and the
  scanner is outside quotes at the end of every part but the last.
\<close>

definition well_split :: "string list \<Rightarrow> string \<Rightarrow> bool" where
  "well_split ps s \<longleftrightarrow>
     ps \<noteq> [] \<and> Join ps '','' = s \<and> (\<forall>p \<in> set ps. no_bare_comma outside p) \<and>
     (\<forall>p \<in> set (butlast ps). foldl scan_char outside p = outside)"

fun pieces :: "bool \<times> bool \<Rightarrow> string \<Rightarrow> string \<Rightarrow> string list" where
  "pieces md cur [] = [cur]"
| "pieces md cur (c # cs) =
     (if md = outside \<and> c = CHR '','' then cur # pieces outside [] cs
      else pieces (scan_char md c) (cur @ [c]) cs)"

lemma split_loop:
  assumes "i \<le> length s" and "sp_start st \<le> i"
  shows "(let st = foldl (split_step s) st [i..<length s] in sp_parts st @ [drop (sp_start st) s])
       = sp_parts st @ pieces (sp_inQuote st, sp_escaped st) (drop (sp_start st) (take i s)) (drop i s)"
  using assms
proof (induction "length s - i" arbitrary: i st)
  case 0
  then show ?case by simp
next
  case (Suc n)
  then have i: "i < length s" by simp
  let ?st = "split_step s st i"
  have start: "sp_start ?st \<le> Suc i"
    using Suc.prems by (auto simp: split_step_def Let_def)
  have up: "[i..<length s] = i # [Suc i..<length s]" using i by (simp add: upt_conv_Cons)
  have dr: "drop i s = s ! i # drop (Suc i) s" using i by (simp add: Cons_nth_drop_Suc)
  have tk: "drop (sp_start st) (take (Suc i) s) = drop (sp_start st) (take i s) @ [s ! i]"
    using i Suc.prems(2) by (simp add: take_Suc_conv_app_nth)
  have "(let st = foldl (split_step s) ?st [Suc i..<length s] in sp_parts st @ [drop (sp_start st) s])
      = sp_parts ?st @ pieces (sp_inQuote ?st, sp_escaped ?st) (drop (sp_start ?st) (take (Suc i) s)) (drop (Suc i) s)"
    using Suc.hyps(2) i start by (intro Suc.hyps(1)) auto
  then show ?case
    unfolding up foldl.simps dr by (auto simp: split_step_def scan_char_def Let_def tk)
qed

lemma splitLabelPairs_pieces: "splitLabelPairs s = pieces outside [] s"
  using split_loop[of 0 s "\<lparr>sp_parts = [], sp_start = 0, sp_inQuote = False, sp_escaped = False\<rparr>"]
  by (simp add: splitLabelPairs_def)

lemma pieces_append:
  "no_bare_comma md p \<Longrightarrow> pieces md cur (p @ t) = pieces (foldl scan_char md p) (cur @ p) t"
  by (induction p arbitrary: md cur) auto

lemma no_bare_comma_append:
  "no_bare_comma md (p @ t) \<longleftrightarrow> no_bare_comma md p \<and> no_bare_comma (foldl scan_char md p) t"
  by (induction p arbitrary: md) auto

lemma Join_Cons_ne: "ps \<noteq> [] \<Longrightarrow> Join (p # ps) sep = p @ sep @ Join ps sep"
  by (cases ps) auto

lemma pieces_ne [simp]: "pieces md cur s \<noteq> []"
  by (induction md cur s rule: pieces.induct) auto

lemma pieces_well_split:
  "no_bare_comma outside cur \<Longrightarrow> foldl scan_char outside cur = md \<Longrightarrow> well_split (pieces md cur s) (cur @ s)"
proof (induction md cur s rule: pieces.induct)
  case (1 md cur)
  then show ?case by (simp add: well_split_def)
next
  case (2 md cur c cs)
  show ?case
  proof (cases "md = outside \<and> c = CHR '',''")
    case True
    then have "well_split (pieces outside [] cs) cs" using 2(1) by simp
    with True 2(3,4) show ?thesis by (simp add: well_split_def Join_Cons_ne)
  next
    case False
    have "well_split (pieces (scan_char md c) (cur @ [c]) cs) ((cur @ [c]) @ cs)"
      by (rule 2(2)[OF False]) (use 2(3,4) False in \<open>simp_all add: no_bare_comma_append\<close>)
    with False show ?thesis by auto
  qed
qed

lemma well_split_pieces: "well_split ps s \<Longrightarrow> pieces outside [] s = ps"
proof (induction ps arbitrary: s)
  case Nil
  then show ?case by (simp add: well_split_def)
next
  case (Cons p ps)
  then have p: "no_bare_comma outside p" by (simp add: well_split_def)
  show ?case
  proof (cases "ps = []")
    case True
    then show ?thesis using Cons.prems pieces_append[OF p, of "[]" "[]"] by (simp add: well_split_def)
  next
    case False
    then have "s = p @ CHR '','' # Join ps '',''" and "foldl scan_char outside p = outside"
      and "well_split ps (Join ps '','')"
      using Cons.prems by (auto simp: well_split_def Join_Cons_ne)
    then show ?thesis using pieces_append[OF p, of "[]"] Cons.IH by simp
  qed
qed

lemma splitLabelPairs_iff: "splitLabelPairs s = ps \<longleftrightarrow> well_split ps s"
proof
  have "well_split (pieces outside [] s) ([] @ s)" by (rule pieces_well_split) simp_all
  then show "splitLabelPairs s = ps \<Longrightarrow> well_split ps s" by (metis append_Nil splitLabelPairs_pieces)
  show "well_split ps s \<Longrightarrow> splitLabelPairs s = ps" by (simp add: splitLabelPairs_pieces well_split_pieces)
qed

section \<open>What the parser accepts\<close>

lemma parse_pair_name: "parse_pair part eq = Inr (Some m) \<Longrightarrow> metricNameRE (m_name m)"
  by (auto simp: parse_pair_def Let_def split: if_splits option.splits)

lemma parse_matcher_name: "parse_matcher p = Inr (Some m) \<Longrightarrow> metricNameRE (m_name m)"
  by (auto simp: parse_matcher_def Let_def dest: parse_pair_name split: if_splits option.splits)

lemma parse_matchers_result:
  "parse_matchers ms ps = Inr ms' \<Longrightarrow>
   \<exists>ns. ms' = ms @ ns \<and> (\<forall>m \<in> set ns. metricNameRE (m_name m))"
proof (induction ps arbitrary: ms)
  case Nil
  then show ?case by simp
next
  case (Cons p ps)
  show ?case
  proof (cases "parse_matcher p")
    case (Inl e)
    then show ?thesis using Cons.prems by simp
  next
    case (Inr r)
    show ?thesis
    proof (cases r)
      case None
      then show ?thesis using Cons Inr by simp
    next
      case (Some m)
      then have "parse_matchers (ms @ [m]) ps = Inr ms'" using Cons.prems Inr by simp
      then obtain ns where ns: "ms' = (ms @ [m]) @ ns" "\<forall>m \<in> set ns. metricNameRE (m_name m)"
        using Cons.IH by blast
      moreover have "metricNameRE (m_name m)" using parse_matcher_name Inr Some by blast
      ultimately show ?thesis by (intro exI[of _ "m # ns"]) simp
    qed
  qed
qed

lemma metricNameRE_MetricNameLabel: "metricNameRE MetricNameLabel"
  by (simp add: metricNameRE_def MetricNameLabel_def name_start_def name_char_def)

lemma parse_braces_result:
  "parse_braces ms rest = Inr ms' \<Longrightarrow>
   \<exists>ns. ms' = ms @ ns \<and> ms' \<noteq> [] \<and> (\<forall>m \<in> set ns. metricNameRE (m_name m))"
  using parse_matchers_result[of ms "splitLabelPairs (butlast (tl rest))" ms']
  by (auto simp: parse_braces_def rbind_Inr_iff split: if_splits)

lemma ParseSelector_names:
  assumes "ParseSelector q = Inr ms"
  shows "ms \<noteq> [] \<and> (\<forall>m \<in> set ms. metricNameRE (m_name m))"
proof -
  have "(\<exists>v. ms = [\<lparr>m_name = MetricNameLabel, m_value = v\<rparr>]) \<or>
    (\<exists>ms0 rest. parse_braces ms0 rest = Inr ms \<and> (\<forall>m \<in> set ms0. m_name m = MetricNameLabel))"
    using assms by (auto simp: ParseSelector_def Let_def split: if_splits option.splits)
  then show ?thesis
    using metricNameRE_MetricNameLabel by (auto dest!: parse_braces_result)
qed

section \<open>Parsing printed matchers\<close>

text \<open>A label as \<open>mmctl\<close> prints it: \<open>name="value"\<close>.\<close>

definition label_text :: "(nat \<Rightarrow> bool) \<Rightarrow> string \<Rightarrow> string \<Rightarrow> string" where
  "label_text printable n v = n @ CHR ''='' # Quote printable v"

lemma name_char_plain:
  assumes "name_char c"
  shows "solid c" "c \<noteq> CHR 0x22" "c \<noteq> CHR '',''" "c \<noteq> CHR ''=''" "c \<noteq> CHR ''{''" "c \<noteq> CHR 0x5C"
  using assms by (auto simp: name_char_def name_start_def solid_def IsSpace_def)

lemma metricNameRE_chars:
  assumes "metricNameRE n"
  shows "n \<noteq> []" and "\<And>c. c \<in> set n \<Longrightarrow> name_char c"
  using assms by (auto simp: metricNameRE_def name_char_def list_all_iff split: list.splits)

lemma TrimSpace_name: "metricNameRE n \<Longrightarrow> TrimSpace n = n"
  by (intro TrimSpace_solid name_char_plain(1) metricNameRE_chars(2)) (auto dest: metricNameRE_chars(1))

text \<open>Quoted text keeps the scanner inside the quotes.\<close>

definition in_quotes :: "string \<Rightarrow> bool" where
  "in_quotes q \<longleftrightarrow> foldl scan_char (True, False) q = (True, False) \<and> no_bare_comma (True, False) q"

lemma in_quotes_append: "in_quotes p \<Longrightarrow> in_quotes q \<Longrightarrow> in_quotes (p @ q)"
  by (simp add: in_quotes_def no_bare_comma_append)

lemma in_quotes_plain: "\<forall>c \<in> set q. c \<noteq> CHR 0x22 \<and> c \<noteq> CHR 0x5C \<Longrightarrow> in_quotes q"
  by (induction q) (auto simp: in_quotes_def scan_char_def)

lemma in_quotes_escape: "in_quotes q \<Longrightarrow> in_quotes (CHR 0x5C # c # q)"
  by (simp add: in_quotes_def scan_char_def)

lemma hex_char_plain: "d < 16 \<Longrightarrow> hex_char d \<noteq> CHR 0x22 \<and> hex_char d \<noteq> CHR 0x5C"
  by (auto simp: hex_char_def char_of_eq)

lemma in_quotes_hex: "in_quotes (hex_pad n r)"
  by (rule in_quotes_plain) (induction n, auto simp: hex_char_plain)

lemma EncodeRune_plain:
  assumes "r \<noteq> 34" "r \<noteq> 92"
  shows "in_quotes (EncodeRune r)"
proof (rule in_quotes_plain, cases "r < 128")
  case True
  then show "\<forall>c \<in> set (EncodeRune r). c \<noteq> CHR 0x22 \<and> c \<noteq> CHR 0x5C"
    using assms by (simp add: EncodeRune_ascii char_of_eq)
next
  case False
  then show "\<forall>c \<in> set (EncodeRune r). c \<noteq> CHR 0x22 \<and> c \<noteq> CHR 0x5C"
    by (auto dest: EncodeRune_high)
qed

lemma in_quotes_rune: "in_quotes (appendEscapedRune printable r)"
proof -
  have "in_quotes []" by (simp add: in_quotes_def)
  then show ?thesis
    by (auto simp: appendEscapedRune_def Let_def in_quotes_escape in_quotes_hex EncodeRune_plain
        simp del: map_of.simps hex_pad.simps split: option.splits)
qed

lemma in_quotes_body: "in_quotes (quote_body printable s)"
proof (induction printable s rule: quote_body.induct)
  case (1 printable s)
  show ?case
  proof (cases s)
    case Nil
    then show ?thesis by (subst quote_body.simps) (simp add: in_quotes_def)
  next
    case (Cons c s')
    obtain r n where d: "DecodeRune s = (r, n)" by fastforce
    show ?thesis
    proof (cases "n = 1 \<and> r = RuneError")
      case True
      have "in_quotes (quote_body printable s')" by (rule 1(1)[OF Cons d[symmetric] True])
      with True show ?thesis using Cons d
        by (subst quote_body.simps)
          (simp del: hex_pad.simps add: in_quotes_escape in_quotes_append in_quotes_hex)
    next
      case False
      have "in_quotes (quote_body printable (drop (n - 1) s'))" by (rule 1(2)[OF Cons d[symmetric] False])
      with False show ?thesis using Cons d
        by (subst quote_body.simps) (auto simp: in_quotes_append in_quotes_rune)
    qed
  qed
qed

lemma label_text_piece:
  assumes "metricNameRE n"
  shows "no_bare_comma outside (label_text printable n v)"
    and "foldl scan_char outside (label_text printable n v) = outside"
proof -
  have name: "foldl scan_char outside n = outside \<and> no_bare_comma outside n"
    using metricNameRE_chars(2)[OF assms] by (induction n) (auto simp: scan_char_def dest: name_char_plain)
  have body: "foldl scan_char (True, False) (quote_body printable v) = (True, False)"
    "no_bare_comma (True, False) (quote_body printable v)"
    using in_quotes_body by (simp_all add: in_quotes_def)
  have eq: "scan_char outside CHR ''='' = outside" "scan_char outside CHR 0x22 = (True, False)"
    "scan_char (True, False) CHR 0x22 = outside"
    by (simp_all add: scan_char_def)
  show "no_bare_comma outside (label_text printable n v)"
    and "foldl scan_char outside (label_text printable n v) = outside"
    using name body by (simp_all add: label_text_def Quote_def no_bare_comma_append eq)
qed

lemma spaced_piece:
  "no_bare_comma outside (CHR '' '' # p) = no_bare_comma outside p"
  "foldl scan_char outside (CHR '' '' # p) = foldl scan_char outside p"
  by (simp_all add: scan_char_def)

lemma Join_spaced: "Join (p # ps) '', '' = Join (p # map ((#) CHR '' '') ps) '',''"
  by (simp add: Join_Cons comp_def)

lemma split_labels:
  fixes printable :: "nat \<Rightarrow> bool"
  assumes "\<forall>m \<in> set (m # ms). metricNameRE (m_name m)"
  defines "txt \<equiv> \<lambda>m. label_text printable (m_name m) (m_value m)"
  shows "splitLabelPairs (Join (map txt (m # ms)) '', '') = txt m # map (\<lambda>m. CHR '' '' # txt m) ms"
proof -
  have p: "no_bare_comma outside (txt m)" "foldl scan_char outside (txt m) = outside"
    if "metricNameRE (m_name m)" for m
    using that label_text_piece by (simp_all add: txt_def)
  have "well_split (txt m # map (\<lambda>m. CHR '' '' # txt m) ms) (Join (map txt (m # ms)) '', '')"
    unfolding well_split_def
  proof (intro conjI)
    show "Join (txt m # map (\<lambda>m. CHR '' '' # txt m) ms) '','' = Join (map txt (m # ms)) '', ''"
      unfolding list.map(2) Join_spaced by (simp add: comp_def)
    show "\<forall>q \<in> set (txt m # map (\<lambda>m. CHR '' '' # txt m) ms). no_bare_comma outside q"
      using assms(1) by (auto simp: spaced_piece(1) p(1) simp del: no_bare_comma.simps)
    have "foldl scan_char outside q = outside" if "q \<in> set (txt m # map (\<lambda>m. CHR '' '' # txt m) ms)" for q
      using assms(1) that by (auto simp: spaced_piece(2) p(2) simp del: foldl.simps)
    then show "\<forall>q \<in> set (butlast (txt m # map (\<lambda>m. CHR '' '' # txt m) ms)). foldl scan_char outside q = outside"
      by (meson in_set_butlastD)
  qed simp
  then show ?thesis by (simp only: splitLabelPairs_iff)
qed

lemma parse_matcher_text:
  assumes "metricNameRE (m_name m)"
  shows "parse_matcher (label_text printable (m_name m) (m_value m)) = Inr (Some m)"
proof -
  let ?n = "m_name m"
  let ?p = "label_text printable ?n (m_value m)"
  note chars = metricNameRE_chars[OF assms]
  have solid22: "solid CHR 0x22" by (simp add: solid_def IsSpace_def)
  have "solid (hd ?p)"
    using chars name_char_plain(1)[of "hd ?n"] by (simp add: label_text_def)
  moreover have "last ?p = CHR 0x22" by (simp add: label_text_def Quote_def)
  ultimately have trim: "TrimSpace ?p = ?p"
    using solid22 by (intro TrimSpace_solid) (simp_all add: label_text_def)
  have "CHR ''='' \<notin> set ?n" using chars(2) name_char_plain(4) by blast
  then have ix: "IndexByte ?p CHR ''='' = Some (length ?n)" by (simp add: label_text_def)
  have ne: "?p \<noteq> []" "length ?n \<noteq> 0" using chars(1) by (simp_all add: label_text_def)
  have q: "TrimSpace (Quote printable (m_value m)) = Quote printable (m_value m)"
    using solid22 by (intro TrimSpace_solid) (simp_all add: Quote_def)
  have "parse_pair ?p (length ?n) = Inr (Some m)"
    using assms q by (simp add: parse_pair_def label_text_def TrimSpace_name Unquote_Quote)
  then show ?thesis using ne by (simp add: parse_matcher_def trim ix)
qed

lemma parse_matchers_texts:
  "\<forall>m \<in> set ms. metricNameRE (m_name m) \<Longrightarrow>
   parse_matchers acc (map (\<lambda>m. CHR '' '' # label_text printable (m_name m) (m_value m)) ms) = Inr (acc @ ms)"
proof (induction ms arbitrary: acc)
  case (Cons m ms)
  then have "parse_matcher (CHR '' '' # label_text printable (m_name m) (m_value m)) = Inr (Some m)"
    using parse_matcher_text[of m printable] by (simp add: parse_matcher_def)
  with Cons show ?case by simp
qed simp

definition selector_text :: "(nat \<Rightarrow> bool) \<Rightarrow> string \<Rightarrow> Matcher list \<Rightarrow> string" where
  "selector_text printable name ms =
     (if ms = [] then name
      else name @ ''{'' @ Join (map (\<lambda>m. label_text printable (m_name m) (m_value m)) ms) '', '' @ ''}'')"

lemma ParseSelector_text:
  assumes "\<forall>m \<in> set ms. metricNameRE (m_name m)"
    and "name = [] \<or> metricNameRE name" and "name \<noteq> [] \<or> ms \<noteq> []"
  shows "ParseSelector (selector_text printable name ms)
       = Inr ((if name = [] then [] else [\<lparr>m_name = MetricNameLabel, m_value = name\<rparr>]) @ ms)"
proof -
  let ?pre = "if name = [] then [] else [\<lparr>m_name = MetricNameLabel, m_value = name\<rparr>]"
  have chars: "c \<in> set name \<Longrightarrow> name_char c" for c using assms(2) metricNameRE_chars(2) by auto
  have brace: "CHR ''{'' \<notin> set name" using chars name_char_plain(5) by blast
  have hd_name: "name \<noteq> [] \<Longrightarrow> solid (hd name)" using chars name_char_plain(1) by simp
  have trim_name: "TrimSpace name = name" using assms(2) TrimSpace_name by auto
  show ?thesis
  proof (cases ms)
    case Nil
    then have "name \<noteq> []" "metricNameRE name" using assms(2,3) by auto
    then show ?thesis using Nil brace
      by (simp add: selector_text_def ParseSelector_def trim_name IndexByte_None[THEN iffD2])
  next
    case (Cons m ms')
    define body where "body = Join (map (\<lambda>m. label_text printable (m_name m) (m_value m)) ms) '', ''"
    have shape: "selector_text printable name ms = name @ CHR ''{'' # body @ ''}''"
      using Cons by (simp add: selector_text_def body_def)
    have solid: "solid CHR ''{''" "solid CHR ''}''" by (simp_all add: solid_def IsSpace_def)
    have trim: "TrimSpace (name @ CHR ''{'' # body @ ''}'') = name @ CHR ''{'' # body @ ''}''"
      using hd_name solid by (intro TrimSpace_solid) (auto simp: hd_append)
    have "parse_matchers ?pre (splitLabelPairs body) = Inr (?pre @ ms)"
      using assms(1) Cons split_labels[of m ms' printable] parse_matcher_text[of m printable]
        parse_matchers_texts[of ms' "?pre @ [m]" printable]
      by (simp add: body_def)
    then have "parse_braces ?pre (CHR ''{'' # body @ ''}'') = Inr (?pre @ ms)"
      using Cons by (simp add: parse_braces_def butlast_append)
    then show ?thesis
      using assms(2) brace unfolding shape ParseSelector_def trim by (auto simp: trim_name)
  qed
qed

end
