(* ===== verification/GoTime.thy ===== *)
theory GoTime
  imports Calendar
begin

text \<open>
  RFC 3339 times of the \<open>time\<close> package: \<open>Parse(time.RFC3339, s)\<close> as the layout
  \<open>2006-01-02T15:04:05Z07:00\<close> drives it, with the liberties the package takes (hours of one
  digit, a fraction after a period or a comma although the layout has none, zone offsets up to
  24:60), and \<open>UnixMilli(ms).UTC().Format(time.RFC3339)\<close>. Instants are milliseconds since the
  Unix epoch.
\<close>

section \<open>Fields\<close>

definition expect :: "char \<Rightarrow> string \<Rightarrow> string option" where
  "expect c s = (case s of [] \<Rightarrow> None | x # t \<Rightarrow> if x = c then Some t else None)"

text \<open>\<open>getnum\<close>: two digits, or one where \<open>fixed\<close> does not demand two.\<close>

definition getnum :: "bool \<Rightarrow> string \<Rightarrow> (nat \<times> string) option" where
  "getnum fixed s =
     (case s of [] \<Rightarrow> None
      | c0 # t \<Rightarrow>
          (case digit_val c0 of None \<Rightarrow> None
           | Some a \<Rightarrow>
               (case t of [] \<Rightarrow> if fixed then None else Some (a, t)
                | c1 # t' \<Rightarrow>
                    (case digit_val c1 of
                       None \<Rightarrow> if fixed then None else Some (a, t)
                     | Some b \<Rightarrow> Some (10 * a + b, t')))))"

definition getnum_range :: "bool \<Rightarrow> nat \<Rightarrow> nat \<Rightarrow> string \<Rightarrow> (nat \<times> string) option" where
  "getnum_range fixed lo hi s =
     (case getnum fixed s of None \<Rightarrow> None
      | Some (n, t) \<Rightarrow> if lo \<le> n \<and> n \<le> hi then Some (n, t) else None)"

definition parse_year :: "string \<Rightarrow> (nat \<times> string) option" where
  "parse_year s =
     (if length s < 4 then None
      else (case parse_digits (take 4 s) of None \<Rightarrow> None | Some y \<Rightarrow> Some (y, drop 4 s)))"

text \<open>A fraction of a second: nine digits of it count, the others are skipped.\<close>

definition parse_fraction :: "string \<Rightarrow> nat \<times> string" where
  "parse_fraction s =
     (case s of
        c # d # _ \<Rightarrow>
          if (c = CHR ''.'' \<or> c = CHR '','') \<and> digit_val d \<noteq> None then
            (let ds = takeWhile (\<lambda>x. digit_val x \<noteq> None) (tl s); k = take 9 ds
             in (digits_value k * 10 ^ (9 - length k), drop (length ds) (tl s)))
          else (0, s)
      | _ \<Rightarrow> (0, s))"

text \<open>The zone as its offset in seconds.\<close>

definition parse_zone :: "string \<Rightarrow> (int \<times> string) option" where
  "parse_zone s =
     (if s \<noteq> [] \<and> hd s = CHR ''Z'' then Some (0, tl s)
      else if length s < 6 \<or> s ! 3 \<noteq> CHR '':'' then None
      else
        (case (getnum_range True 0 24 (take 2 (drop 1 s)), getnum_range True 0 60 (take 2 (drop 4 s))) of
           (Some (hr, _), Some (mm, _)) \<Rightarrow>
             (let off = int ((hr * 60 + mm) * 60) in
              if hd s = CHR ''+'' then Some (off, drop 6 s)
              else if hd s = CHR ''-'' then Some (- off, drop 6 s)
              else None)
         | _ \<Rightarrow> None))"

section \<open>Parsing\<close>

definition daysIn :: "nat \<Rightarrow> int \<Rightarrow> nat" where
  "daysIn m y =
     (if m = 2 then (if is_leap y then 29 else 28)
      else if m = 4 \<or> m = 6 \<or> m = 9 \<or> m = 11 then 30 else 31)"

definition civil_day :: "int \<Rightarrow> nat \<Rightarrow> nat \<Rightarrow> int" where
  "civil_day y m d =
     year_start y + days_before ! (m - 1) + (if is_leap y \<and> 2 < m then 1 else 0) + int d - 1"

definition parse_date :: "string \<Rightarrow> (int \<times> string) option" where
  "parse_date s =
     Option.bind (parse_year s) (\<lambda>(y, s).
     Option.bind (expect CHR ''-'' s) (\<lambda>s.
     Option.bind (getnum_range True 1 12 s) (\<lambda>(m, s).
     Option.bind (expect CHR ''-'' s) (\<lambda>s.
     Option.bind (getnum True s) (\<lambda>(d, s).
       if 1 \<le> d \<and> d \<le> daysIn m (int y) then Some (civil_day (int y) m d, s) else None)))))"

definition parse_clock :: "string \<Rightarrow> (nat \<times> string) option" where
  "parse_clock s =
     Option.bind (getnum_range False 0 23 s) (\<lambda>(hour, s).
     Option.bind (expect CHR '':'' s) (\<lambda>s.
     Option.bind (getnum_range True 0 59 s) (\<lambda>(mn, s).
     Option.bind (expect CHR '':'' s) (\<lambda>s.
     Option.bind (getnum_range True 0 59 s) (\<lambda>(sec, s).
       Some ((hour * 60 + mn) * 60 + sec, s))))))"

text \<open>
  \<open>time.Parse(time.RFC3339, s)\<close> followed by \<open>UnixMilli\<close>. (The package checks the day of the
  month after the zone; every failure is the one answer \<open>None\<close>.)
\<close>

definition ParseRFC3339 :: "string \<Rightarrow> int64 option" where
  "ParseRFC3339 s =
     Option.bind (parse_date s) (\<lambda>(day, s).
     Option.bind (expect CHR ''T'' s) (\<lambda>s.
     Option.bind (parse_clock s) (\<lambda>(sec, s).
       (case parse_fraction s of (nsec, s) \<Rightarrow>
          Option.bind (parse_zone s) (\<lambda>(off, s).
            if s = [] then
              Some (of_int (((day - 719162) * 86400 + int sec - off) * 1000 + int nsec div 1000000))
            else None)))))"

section \<open>Formatting\<close>

definition format_date :: "int \<Rightarrow> string" where
  "format_date n =
     (let (y, yday) = year_yday n; (m, d) = month_day (is_leap y) yday
      in format_year y @ ''-'' @ zpad 2 (dec_string m) @ ''-'' @ zpad 2 (dec_string d))"

definition format_clock :: "nat \<Rightarrow> string" where
  "format_clock s =
     zpad 2 (dec_string (s div 3600)) @ '':'' @ zpad 2 (dec_string (s div 60 mod 60)) @ '':''
       @ zpad 2 (dec_string (s mod 60))"

definition FormatRFC3339 :: "int64 \<Rightarrow> string" where
  "FormatRFC3339 ms =
     format_date (day_number ms) @ ''T'' @ format_clock (nat (sint ms mod 86400000 div 1000)) @ ''Z''"

section \<open>Parsing a formatted time\<close>

lemma zpad2: "n < 100 \<Longrightarrow> zpad 2 (dec_string n) = [digit_char (n div 10), digit_char (n mod 10)]"
proof (cases "n < 10")
  case True
  then show ?thesis by (subst dec_string.simps) (simp add: zpad_def digit_char_0 numeral_2_eq_2)
next
  case False
  assume "n < 100"
  then have "n div 10 < 10" by (simp add: div_less_iff_less_mult)
  then have "dec_string (n div 10) = [digit_char (n div 10)]" by (subst dec_string.simps) simp
  with False show ?thesis by (subst dec_string.simps) (simp add: zpad_def)
qed

lemma getnum_zpad: "n < 100 \<Longrightarrow> getnum fixed (zpad 2 (dec_string n) @ t) = Some (n, t)"
  by (simp add: zpad2 getnum_def div_less_iff_less_mult)

lemma getnum_range_zpad:
  "lo \<le> n \<Longrightarrow> n \<le> hi \<Longrightarrow> n < 100 \<Longrightarrow> getnum_range fixed lo hi (zpad 2 (dec_string n) @ t) = Some (n, t)"
  by (simp add: getnum_range_def getnum_zpad)

lemma expect_Cons [simp]: "expect c (c # t) = Some t"
  by (simp add: expect_def)

lemma parse_year_format:
  assumes "0 \<le> y" "y \<le> 9999"
  shows "parse_year (format_year y @ t) = Some (nat y, t)"
proof -
  have "length (dec_string (nat y)) \<le> 4" using assms length_dec_string[of 4 "nat y"] by simp
  then have "length (zpad 4 (dec_string (nat y))) = 4" by (rule length_zpad)
  then show ?thesis using assms(1) by (simp add: parse_year_def format_year_def)
qed

text \<open>The day of the month exists, and the civil date is the day it was computed from.\<close>

lemma civil_month_day:
  assumes "0 \<le> yday" and "yday < (if is_leap y then 366 else 365)" and "month_day (is_leap y) yday = (m, d)"
  shows "d \<le> daysIn m y" and "civil_day y m d = year_start y + yday"
proof -
  define e where "e = (if is_leap y \<and> yday > 59 then yday - 1 else yday)"
  obtain a k where ak: "common_day e = (a, k)" by (cases "common_day e")
  have c: "(m, d) = (2, 29) \<and> is_leap y \<and> yday = 59 \<or>
      (0 \<le> e \<and> e < 365 \<and> \<not> (is_leap y \<and> yday = 59) \<and> m = nat a \<and> d = nat k + 1)"
    using month_day_table[OF assms(1,2)] assms ak
    by (cases "is_leap y \<and> yday = 59") (auto simp: e_def[symmetric], auto simp: e_def split: if_splits)
  have "d \<le> daysIn m y \<and> civil_day y m d = year_start y + yday"
    using c
  proof
    assume "(m, d) = (2, 29) \<and> is_leap y \<and> yday = 59"
    then show ?thesis by (simp add: daysIn_def civil_day_def days_before_def)
  next
    assume *: "0 \<le> e \<and> e < 365 \<and> \<not> (is_leap y \<and> yday = 59) \<and> m = nat a \<and> d = nat k + 1"
    then have yd: "yday = (if is_leap y \<and> e > 58 then e + 1 else e)"
      by (auto simp: e_def split: if_splits)
    have "(e < 31 \<and> a = 1 \<and> k = e) \<or> (31 \<le> e \<and> e < 59 \<and> a = 2 \<and> k = e - 31) \<or> (59 \<le> e \<and> e < 90 \<and> a = 3 \<and> k = e - 59)
      \<or> (90 \<le> e \<and> e < 120 \<and> a = 4 \<and> k = e - 90) \<or> (120 \<le> e \<and> e < 151 \<and> a = 5 \<and> k = e - 120)
      \<or> (151 \<le> e \<and> e < 181 \<and> a = 6 \<and> k = e - 151) \<or> (181 \<le> e \<and> e < 212 \<and> a = 7 \<and> k = e - 181)
      \<or> (212 \<le> e \<and> e < 243 \<and> a = 8 \<and> k = e - 212) \<or> (243 \<le> e \<and> e < 273 \<and> a = 9 \<and> k = e - 243)
      \<or> (273 \<le> e \<and> e < 304 \<and> a = 10 \<and> k = e - 273) \<or> (304 \<le> e \<and> e < 334 \<and> a = 11 \<and> k = e - 304)
      \<or> (334 \<le> e \<and> e < 365 \<and> a = 12 \<and> k = e - 334)"
      using ak * by (simp add: common_day_def split: if_splits)
    then show ?thesis
      using * yd by (elim disjE) (simp_all add: daysIn_def civil_day_def days_before_def nat_le_iff)
  qed
  then show "d \<le> daysIn m y" and "civil_day y m d = year_start y + yday" by simp_all
qed

lemma parse_format_date:
  assumes "year_yday n = (y, yday)" and "0 \<le> y" "y \<le> 9999"
  shows "parse_date (format_date n @ t) = Some (n, t)"
proof -
  obtain m d where md: "month_day (is_leap y) yday = (m, d)" by (cases "month_day (is_leap y) yday")
  note b = year_yday_bounds[OF assms(1)]
  note r = month_day_range[OF b(2,3) md]
  note c = civil_month_day[OF b(2,3) md]
  have "getnum_range True 1 12 (zpad 2 (dec_string m) @ u) = Some (m, u)" for u
    using r by (intro getnum_range_zpad) simp_all
  moreover have "getnum True (zpad 2 (dec_string d) @ u) = Some (d, u)" for u
    using r by (intro getnum_zpad) simp
  moreover have "format_date n = format_year y @ ''-'' @ zpad 2 (dec_string m) @ ''-'' @ zpad 2 (dec_string d)"
    by (simp add: format_date_def assms(1) md)
  moreover have "civil_day y m d = n" using c(2) b(1) by simp
  ultimately show ?thesis
    using assms(2,3) c(1) r(3) by (simp add: parse_date_def parse_year_format)
qed

lemma parse_format_clock:
  assumes "s < 86400"
  shows "parse_clock (format_clock s @ t) = Some (s, t)"
proof -
  have "s div 3600 < 24" "s div 60 mod 60 < 60" "s mod 60 < 60"
    using assms by (auto simp: less_mult_imp_div_less)
  then have n: "getnum_range False 0 23 (zpad 2 (dec_string (s div 3600)) @ u) = Some (s div 3600, u)"
      "getnum_range True 0 59 (zpad 2 (dec_string (s div 60 mod 60)) @ u) = Some (s div 60 mod 60, u)"
      "getnum_range True 0 59 (zpad 2 (dec_string (s mod 60)) @ u) = Some (s mod 60, u)" for u
    by (simp_all add: getnum_range_zpad)
  have "s div 3600 = s div 60 div 60" by (simp add: div_mult2_eq[symmetric])
  then have "(s div 3600 * 60 + s div 60 mod 60) * 60 + s mod 60 = s" by simp
  then show ?thesis by (simp add: parse_clock_def format_clock_def n)
qed

theorem ParseRFC3339_Format:
  assumes "year_yday (day_number ms) = (y, yday)" and "0 \<le> y" "y \<le> 9999"
  shows "ParseRFC3339 (FormatRFC3339 ms) = Some (ms - of_int (sint ms mod 1000))"
proof -
  let ?x = "sint ms"
  define sec where "sec = nat (?x mod 86400000 div 1000)"
  have sec: "sec < 86400" "int sec = ?x mod 86400000 div 1000"
    by (simp_all add: sec_def nat_less_iff)
  have whole: "((q + 719162 - 719162) * 86400 + a - 0) * 1000 + int 0 div 1000000 = x - u"
    if "x = 86400000 * q + r" "r = 1000 * a + u" for q a x r u :: int
    using that by simp
  have "?x mod 86400000 = 1000 * (?x mod 86400000 div 1000) + ?x mod 1000"
    using mult_div_mod_eq[of 1000 "?x mod 86400000"] by (simp add: mod_mod_cancel)
  then have t: "((day_number ms - 719162) * 86400 + int sec - 0) * 1000 + int 0 div 1000000 = ?x - ?x mod 1000"
    unfolding day_number_def sec(2) by (intro whole[of _ _ "?x mod 86400000"]) simp_all
  have "ParseRFC3339 (FormatRFC3339 ms)
      = Some (of_int (((day_number ms - 719162) * 86400 + int sec - 0) * 1000 + int 0 div 1000000))"
    by (simp add: ParseRFC3339_def FormatRFC3339_def sec_def[symmetric] parse_format_date[OF assms]
        parse_format_clock[OF sec(1)] parse_fraction_def parse_zone_def)
  also have "\<dots> = Some (ms - of_int (?x mod 1000))" unfolding t by simp
  finally show ?thesis .
qed

end
