(* ===== verification/GoFloat.thy ===== *)
theory GoFloat
  imports GoStrings ValueCodec Decimal
begin

text \<open>
  The \<open>float64\<close> arithmetic the program uses outside its codecs, on the IEEE 754 bit patterns:
  rounding a ratio of integers to the nearest double (ties to even), the product with
  1000, conversions from and to \<open>int64\<close>, and \<open>strconv.ParseFloat\<close>.
\<close>

section \<open>Rounding\<close>

text \<open>The number of binary digits of a natural number.\<close>

function bit_length :: "int \<Rightarrow> int" where
  "bit_length n = (if n \<le> 0 then 0 else 1 + bit_length (n div 2))"
  by auto
termination
  by (relation "measure nat") auto

declare bit_length.simps [simp del]

text \<open>The binary exponent of \<open>p / q\<close>, the floor of its logarithm.\<close>

definition ratio_exp :: "int \<Rightarrow> int \<Rightarrow> int" where
  "ratio_exp p q = (if q \<le> p then bit_length (p div q) - 1 else - bit_length ((q - 1) div p))"

definition round_even :: "int \<Rightarrow> int \<Rightarrow> int" where
  "round_even n d =
     (let m = n div d; r = n mod d in if 2 * r > d \<or> 2 * r = d \<and> odd m then m + 1 else m)"

definition float_inf :: "bool \<Rightarrow> float64" where
  "float_inf neg = (if neg then 0xFFF0000000000000 else 0x7FF0000000000000)"

text \<open>
  The mantissa has 53 bits, fewer below the smallest exponent; a mantissa that rounds up to
  \<open>2 ^ 53\<close> carries into the exponent field, and a field of all ones is infinity.
\<close>

definition mant_exp :: "int \<Rightarrow> int \<Rightarrow> int" where
  "mant_exp p q = max (- 1074) (ratio_exp p q - 52)"

definition round_ratio :: "bool \<Rightarrow> int \<Rightarrow> int \<Rightarrow> float64" where
  "round_ratio neg p q =
     (let sign = (if neg then 2 ^ 63 else 0) in
      if p = 0 then of_int sign
      else
        (let e = mant_exp p q;
             m = round_even (p * 2 ^ nat (- e)) (q * 2 ^ nat e);
             field = (e + 1074) * 2 ^ 52 + m
         in if 2047 * 2 ^ 52 \<le> field then float_inf neg else of_int (sign + field)))"

section \<open>The value of a double\<close>

definition float_neg :: "float64 \<Rightarrow> bool" where
  "float_neg f \<longleftrightarrow> 2 ^ 63 \<le> uint f"

definition float_field :: "float64 \<Rightarrow> int" where
  "float_field f = uint f mod 2 ^ 63 div 2 ^ 52"

definition float_finite :: "float64 \<Rightarrow> bool" where
  "float_finite f \<longleftrightarrow> float_field f \<noteq> 2047"

text \<open>A finite double is \<open>float_mant f * 2 ^ float_exp f\<close>, up to its sign.\<close>

definition float_mant :: "float64 \<Rightarrow> int" where
  "float_mant f = uint f mod 2 ^ 52 + (if float_field f = 0 then 0 else 2 ^ 52)"

definition float_exp :: "float64 \<Rightarrow> int" where
  "float_exp f = max 1 (float_field f) - 1075"

section \<open>Operations\<close>

text \<open>\<open>f * 1000\<close>; infinities and NaNs are their own product.\<close>

definition mul1000 :: "float64 \<Rightarrow> float64" where
  "mul1000 f =
     (if \<not> float_finite f then f
      else round_ratio (float_neg f) (float_mant f * 1000 * 2 ^ nat (float_exp f)) (2 ^ nat (- float_exp f)))"

text \<open>\<open>float64(n) / 1000\<close> for an \<open>int64\<close> \<open>n\<close>: the conversion rounds, then the division does.\<close>

definition float_of_int64 :: "int64 \<Rightarrow> float64" where
  "float_of_int64 n = round_ratio (sint n < 0) \<bar>sint n\<bar> 1"

definition div1000 :: "float64 \<Rightarrow> float64" where
  "div1000 f =
     (if \<not> float_finite f then f
      else round_ratio (float_neg f) (float_mant f * 2 ^ nat (float_exp f)) (1000 * 2 ^ nat (- float_exp f)))"

text \<open>
  \<open>int64(f)\<close> truncates. The Go specification leaves the result open when the value does not
  fit; the argument \<open>other\<close> is what the machine gives then.
\<close>

definition float_trunc :: "float64 \<Rightarrow> int" where
  "float_trunc f =
     (let v = float_mant f * 2 ^ nat (float_exp f) div 2 ^ nat (- float_exp f)
      in if float_neg f then - v else v)"

definition int64_of_float :: "(float64 \<Rightarrow> int64) \<Rightarrow> float64 \<Rightarrow> int64" where
  "int64_of_float other f =
     (if float_finite f \<and> - (2 ^ 63) \<le> float_trunc f \<and> float_trunc f < 2 ^ 63
      then of_int (float_trunc f) else other f)"

section \<open>Parsing\<close>

definition lower :: "char \<Rightarrow> char" where
  "lower c = (if 65 \<le> ord c \<and> ord c \<le> 90 then char_of (ord c + 32) else c)"

definition digit_in :: "bool \<Rightarrow> char \<Rightarrow> nat option" where
  "digit_in hex c =
     (case digit_val c of Some d \<Rightarrow> Some d
      | None \<Rightarrow>
          if hex \<and> 97 \<le> ord (lower c) \<and> ord (lower c) \<le> 102 then Some (ord (lower c) - 87) else None)"

text \<open>
  The digits of the mantissa: their value, how many stand after the point (\<open>None\<close> before it),
  whether there was any, whether there was an underscore, and the rest.
\<close>

fun read_mant :: "bool \<Rightarrow> int \<Rightarrow> nat option \<Rightarrow> bool \<Rightarrow> bool \<Rightarrow> string \<Rightarrow> int \<times> nat option \<times> bool \<times> bool \<times> string" where
  "read_mant hex m frac saw us [] = (m, frac, saw, us, [])"
| "read_mant hex m frac saw us (c # s) =
     (if c = CHR ''_'' then read_mant hex m frac saw True s
      else if c = CHR ''.'' then
        (case frac of None \<Rightarrow> read_mant hex m (Some 0) saw us s
         | Some _ \<Rightarrow> (m, frac, saw, us, c # s))
      else
        (case digit_in hex c of
           Some d \<Rightarrow> read_mant hex ((if hex then 16 else 10) * m + int d) (map_option Suc frac) True us s
         | None \<Rightarrow> (m, frac, saw, us, c # s)))"

text \<open>The digits of the exponent; its value stops growing at five digits.\<close>

fun read_exp :: "int \<Rightarrow> bool \<Rightarrow> string \<Rightarrow> int \<times> bool \<times> string" where
  "read_exp e us [] = (e, us, [])"
| "read_exp e us (c # s) =
     (if c = CHR ''_'' then read_exp e True s
      else
        (case digit_val c of
           Some d \<Rightarrow> read_exp (if e < 10000 then 10 * e + int d else e) us s
         | None \<Rightarrow> (e, us, c # s)))"

datatype saw = SawStart | SawDigit | SawUnderscore | SawOther

fun underscores_from :: "bool \<Rightarrow> saw \<Rightarrow> string \<Rightarrow> bool" where
  "underscores_from hex w [] = (w \<noteq> SawUnderscore)"
| "underscores_from hex w (c # s) =
     (if digit_in hex c \<noteq> None then underscores_from hex SawDigit s
      else if c = CHR ''_'' then w = SawDigit \<and> underscores_from hex SawUnderscore s
      else w \<noteq> SawUnderscore \<and> underscores_from hex SawOther s)"

definition strip_sign :: "string \<Rightarrow> bool \<times> string" where
  "strip_sign s =
     (case s of c # t \<Rightarrow> if c = CHR ''-'' then (True, t) else if c = CHR ''+'' then (False, t) else (False, s)
      | [] \<Rightarrow> (False, s))"

definition underscoreOK :: "string \<Rightarrow> bool" where
  "underscoreOK s0 =
     (let s = snd (strip_sign s0) in
      case s of
        c # d # t \<Rightarrow>
          if c = CHR ''0'' \<and> lower d \<in> {CHR ''b'', CHR ''o'', CHR ''x''}
          then underscores_from (lower d = CHR ''x'') SawDigit t
          else underscores_from False SawStart s
      | _ \<Rightarrow> underscores_from False SawStart s)"

text \<open>The infinities and the NaN, in any case.\<close>

definition special :: "string \<Rightarrow> float64 option" where
  "special s =
     (let (neg, t) = strip_sign s; w = map lower t in
      if w = ''inf'' \<or> w = ''infinity'' then Some (float_inf neg)
      else if map lower s = ''nan'' then Some 0x7FF8000000000001
      else None)"

text \<open>
  A number is \<open>m * 10 ^ x\<close>, or \<open>m * 2 ^ x\<close> after \<open>0x\<close>, and the result is the nearest double;
  the code's shortcuts for short numbers give the same. An overflow is an error (\<open>ErrRange\<close>).
\<close>

definition scaled :: "bool \<Rightarrow> int \<Rightarrow> bool \<Rightarrow> int \<Rightarrow> float64" where
  "scaled neg m hex x =
     (let b = (if hex then 2 else 10) in round_ratio neg (m * b ^ nat x) (b ^ nat (- x)))"

definition has_hex_prefix :: "string \<Rightarrow> bool" where
  "has_hex_prefix t \<longleftrightarrow> 2 < length t \<and> t ! 0 = CHR ''0'' \<and> lower (t ! 1) = CHR ''x''"

definition parse_number :: "string \<Rightarrow> float64 option" where
  "parse_number s =
     (let (neg, t) = strip_sign s;
          hex = has_hex_prefix t;
          (m, frac, saw, us, t) = read_mant hex 0 None False False (if hex then drop 2 t else t);
          point = (case frac of None \<Rightarrow> 0 | Some k \<Rightarrow> if hex then 4 * int k else int k)
      in if \<not> saw then None
         else if t = [] then
           (if hex \<or> us \<and> \<not> underscoreOK s then None else Some (scaled neg m hex (- point)))
         else if lower (hd t) \<noteq> (if hex then CHR ''p'' else CHR ''e'') then None
         else
           (let (eneg, u) = strip_sign (tl t) in
            if u = [] \<or> digit_val (hd u) = None then None
            else
              (let (e, us, v) = read_exp 0 us u in
               if v \<noteq> [] \<or> us \<and> \<not> underscoreOK s then None
               else Some (scaled neg m hex ((if eneg then - e else e) - point)))))"

definition ParseFloat :: "string \<Rightarrow> float64 option" where
  "ParseFloat s =
     (case special s of Some f \<Rightarrow> Some f
      | None \<Rightarrow>
          (case parse_number s of None \<Rightarrow> None
           | Some f \<Rightarrow> if float_finite f then Some f else None))"

end
