(* ===== verification/FloatFormat.thy ===== *)
theory FloatFormat
  imports GoFloat
begin

text \<open>
  \<open>strconv.FormatFloat(f, 'g', -1, 64)\<close>, also \<open>fmt\<close>'s \<open>%g\<close>: the shortest decimal that reads
  back as the same double. The search tries one digit, two digits and so on, up to the seventeen
  that always suffice, and takes the nearer of the two neighbours where both read back.
\<close>

section \<open>Digits\<close>

text \<open>The value of a finite double as a ratio.\<close>

definition float_num :: "float64 \<Rightarrow> int" where
  "float_num f = float_mant f * 2 ^ nat (float_exp f)"

definition float_den :: "float64 \<Rightarrow> int" where
  "float_den f = 2 ^ nat (- float_exp f)"

function digits10 :: "int \<Rightarrow> int" where
  "digits10 n = (if n \<le> 0 then 0 else 1 + digits10 (n div 10))"
  by auto
termination
  by (relation "measure nat") auto

declare digits10.simps [simp del]

text \<open>The decimal point: \<open>10 ^ (dp - 1) \<le> p / q < 10 ^ dp\<close>.\<close>

definition decimal_point :: "int \<Rightarrow> int \<Rightarrow> int" where
  "decimal_point p q = (if q \<le> p then digits10 (p div q) else 1 - digits10 ((q - 1) div p))"

text \<open>\<open>c\<close> units of \<open>10 ^ k\<close>, as a double.\<close>

definition decimal_float :: "int \<Rightarrow> int \<Rightarrow> float64" where
  "decimal_float c k = round_ratio False (c * 10 ^ nat k) (10 ^ nat (- k))"

text \<open>The unit of the last of \<open>n\<close> digits, the value in it rounded down, and whether to round up.\<close>

definition floor_units :: "int \<Rightarrow> int \<Rightarrow> int \<Rightarrow> int" where
  "floor_units p q k = (p * 10 ^ nat (- k)) div (q * 10 ^ nat k)"

definition nearest_units :: "int \<Rightarrow> int \<Rightarrow> int \<Rightarrow> int" where
  "nearest_units p q k = round_even (p * 10 ^ nat (- k)) (q * 10 ^ nat k)"

definition float_abs :: "float64 \<Rightarrow> float64" where
  "float_abs f = of_int (uint f mod 2 ^ 63)"

text \<open>The digits and the exponent of their unit that \<open>n\<close> digits give, if they read back.\<close>

definition try_digits :: "float64 \<Rightarrow> int \<Rightarrow> int \<Rightarrow> (int \<times> int) option" where
  "try_digits f dp n =
     (let p = float_num f; q = float_den f; k = dp - n; lo = floor_units p q k;
          okdown = (decimal_float lo k = float_abs f); okup = (decimal_float (lo + 1) k = float_abs f)
      in if okdown \<and> okup then Some (nearest_units p q k, k)
         else if okdown then Some (lo, k)
         else if okup then Some (lo + 1, k)
         else None)"

fun search_digits :: "float64 \<Rightarrow> int \<Rightarrow> nat list \<Rightarrow> int \<times> int" where
  "search_digits f dp [] = (nearest_units (float_num f) (float_den f) (dp - 17), dp - 17)"
| "search_digits f dp (n # ns) =
     (case try_digits f dp (int n) of Some r \<Rightarrow> r | None \<Rightarrow> search_digits f dp ns)"

definition shortest :: "float64 \<Rightarrow> int \<times> int" where
  "shortest f = search_digits f (decimal_point (float_num f) (float_den f)) [1..<17]"

section \<open>Layout\<close>

function int_string :: "int \<Rightarrow> string" where
  "int_string n =
     (if n < 10 then [digit_char (nat n)] else int_string (n div 10) @ [digit_char (nat (n mod 10))])"
  by auto
termination
  by (relation "measure nat") auto

declare int_string.simps [simp del]

lemma int_string_eq: "0 \<le> n \<Longrightarrow> int_string n = dec_string (nat n)"
proof (induction n rule: int_string.induct)
  case (1 n)
  show ?case
  proof (cases "n < 10")
    case True
    then show ?thesis by (subst int_string.simps, subst dec_string.simps) simp
  next
    case False
    with 1 have "int_string (n div 10) = dec_string (nat n div 10)" by (simp add: nat_div_distrib)
    with False 1(2) show ?thesis
      by (subst int_string.simps, subst dec_string.simps) (simp add: nat_mod_distrib)
  qed
qed

text \<open>\<open>%d\<close> of an \<open>int\<close>.\<close>

definition itoa :: "int64 \<Rightarrow> string" where
  "itoa n = (if sint n < 0 then CHR ''-'' # int_string (- sint n) else int_string (sint n))"

text \<open>
  The digits without trailing zeros and the position of the point relative to their start, then
  \<open>%e\<close> when the exponent is below \<open>-4\<close> or at least 6, else \<open>%f\<close>.
\<close>

definition strip_zeros :: "string \<Rightarrow> string" where
  "strip_zeros ds = rev (dropWhile (\<lambda>c. c = CHR ''0'') (rev ds))"

definition format_e :: "string \<Rightarrow> int \<Rightarrow> string" where
  "format_e ds x =
     take 1 ds @ (if length ds > 1 then CHR ''.'' # drop 1 ds else []) @ ''e'' @
     (if x < 0 then ''-'' else ''+'') @ zpad 2 (int_string \<bar>x\<bar>)"

definition format_f :: "string \<Rightarrow> int \<Rightarrow> string" where
  "format_f ds dp =
     (if dp \<le> 0 then CHR ''0'' # CHR ''.'' # replicate (nat (- dp)) CHR ''0'' @ ds
      else if length ds \<le> nat dp then ds @ replicate (nat dp - length ds) CHR ''0''
      else take (nat dp) ds @ CHR ''.'' # drop (nat dp) ds)"

definition FormatFloat :: "float64 \<Rightarrow> string" where
  "FormatFloat f =
     (if \<not> float_finite f then
        (if uint f mod 2 ^ 52 \<noteq> 0 then ''NaN'' else if float_neg f then ''-Inf'' else ''+Inf'')
      else
        (if float_neg f then ''-'' else []) @
        (if float_mant f = 0 then ''0''
         else
           (case shortest f of (c, k) \<Rightarrow>
              (let all = int_string c; dp = int (length all) + k; ds = strip_zeros all
               in if dp - 1 < - 4 \<or> 6 \<le> dp - 1 then format_e ds (dp - 1) else format_f ds dp))))"

end
