(* ===== verification/Http.thy ===== *)
theory Http
  imports Query Selector GoTime FloatFormat
begin

text \<open>
  The HTTP API of \<open>cmd/marchimetrics\<close>: \<open>http.go\<close> and \<open>remote_write.go\<close>. A request is its
  method, its path, its query parameters as \<open>URL.Query().Get\<close> returns them, and its body. The
  decoders of the bodies are arguments: \<open>encoding/json\<close> into \<open>importRequest\<close>, snappy and the
  protobuf \<open>WriteRequest\<close>. Handlers take the storage and the disk to a response, the storage and
  the disk. A response has the headers the handler, \<open>http.Error\<close> or \<open>http.NotFound\<close> sets; the matrix of
  a query is the value that is handed to the JSON encoder, and the texts of errors leave out what
  they quote. Paths have no percent escapes.
\<close>

section \<open>Requests and responses\<close>

record request =
  rq_method :: string
  rq_path :: string
  rq_query :: "string \<Rightarrow> string"
  rq_body :: string
  rq_broken :: bool  \<comment> \<open>reading the body fails\<close>

record matrixEntry =
  me_metric :: "(string, string) gomap"
  me_values :: "(float64 \<times> string) list"

datatype body =
    NoBody
  | Text string
  | Ingested nat
  | Matrix "matrixEntry list"
  | Moved string  \<comment> \<open>the page of a redirect; its \<open>Location\<close> is this path and the query of the request\<close>

text \<open>A handler that panics leaves the client with a closed connection.\<close>

datatype response =
    Response nat "(string \<times> string) list" body
  | Aborted

definition http_error :: "nat \<Rightarrow> string \<Rightarrow> response" where
  "http_error code msg =
     Response code [(''Content-Type'', ''text/plain; charset=utf-8''), (''X-Content-Type-Options'', ''nosniff'')]
       (Text (msg @ [CHR 0x0A]))"

text \<open>An error of the storage layer: 500, unless it is a panic.\<close>

definition storage_error :: "string \<Rightarrow> goerr \<Rightarrow> response" where
  "storage_error msg e = (case e of Panic _ \<Rightarrow> Aborted | _ \<Rightarrow> http_error 500 msg)"

text \<open>\<open>io.ReadAll(http.MaxBytesReader(w, r.Body, 64<<20))\<close>\<close>

definition read_body :: "request \<Rightarrow> string option" where
  "read_body rq = (if rq_broken rq \<or> length (rq_body rq) > 67108864 then None else Some (rq_body rq))"

definition method_post :: string where "method_post = ''POST''"

section \<open>Ingestion\<close>

record importRequest =
  im_metric :: string
  im_labels :: "(string, string) gomap"
  im_samples :: "Sample list"

definition import_labels :: "importRequest \<Rightarrow> Label list" where
  "import_labels req =
     Label MetricNameLabel (im_metric req) # map (\<lambda>(k, v). Label k v) (im_labels req)"

text \<open>The loop over the entries: an entry without a metric name ends it with an error.\<close>

fun import_entries :: "storage \<Rightarrow> nat \<Rightarrow> importRequest list \<Rightarrow> response \<times> storage" where
  "import_entries s ingested [] =
     (Response 200 [(''Content-Type'', ''application/json'')] (Ingested ingested), s)"
| "import_entries s ingested (req # reqs) =
     (if im_metric req = [] then (http_error 400 ''every entry needs a metric name'', s)
      else
        import_entries (snd (Append s (import_labels req) (im_samples req)))
          (ingested + length (im_samples req)) reqs)"

definition handleImport ::
  "(string \<Rightarrow> importRequest list option) \<Rightarrow> (string \<Rightarrow> importRequest option) \<Rightarrow> storage \<Rightarrow> request \<Rightarrow> response \<times> storage" where
  "handleImport unmarshal_array unmarshal_object s rq =
     (if rq_method rq \<noteq> method_post then (http_error 405 ''POST only'', s)
      else
        (case read_body rq of
           None \<Rightarrow> (http_error 400 ''cannot read body'', s)
         | Some raw \<Rightarrow>
             (let body = TrimSpace raw in
              if body = [] then (http_error 400 ''empty body'', s)
              else
                (case (if hd body = CHR ''['' then unmarshal_array body
                       else map_option (\<lambda>single. [single]) (unmarshal_object body)) of
                   None \<Rightarrow> (http_error 400 ''invalid JSON'', s)
                 | Some reqs \<Rightarrow> import_entries s 0 reqs))))"

section \<open>Remote write\<close>

record TimeSeries =
  ts_labels :: "Label list"
  ts_samples :: "Sample list"

definition hasName :: "Label list \<Rightarrow> bool" where
  "hasName labels = list_ex (\<lambda>l. label_name l = MetricNameLabel) labels"

text \<open>One round of the loop over the series: the storage, points ingested, series skipped.\<close>

definition ingest_series :: "storage \<times> nat \<times> nat \<Rightarrow> TimeSeries \<Rightarrow> storage \<times> nat \<times> nat" where
  "ingest_series = (\<lambda>(s, ingested, skipped) ts.
     if \<not> hasName (ts_labels ts) \<or> ts_samples ts = [] then (s, ingested, skipped + 1)
     else (snd (Append s (ts_labels ts) (ts_samples ts)), ingested + length (ts_samples ts), skipped))"

definition handleRemoteWrite ::
  "(string \<Rightarrow> string option) \<Rightarrow> (string \<Rightarrow> TimeSeries list option) \<Rightarrow> storage \<Rightarrow> request \<Rightarrow> response \<times> storage" where
  "handleRemoteWrite snappy_decode unmarshal_write s rq =
     (if rq_method rq \<noteq> method_post then (http_error 405 ''POST only'', s)
      else
        (case read_body rq of
           None \<Rightarrow> (http_error 400 ''cannot read body'', s)
         | Some body \<Rightarrow>
             (case snappy_decode body of
                None \<Rightarrow> (http_error 400 ''cannot snappy-decode body'', s)
              | Some raw \<Rightarrow>
                  (case unmarshal_write raw of
                     None \<Rightarrow> (http_error 400 ''cannot unmarshal WriteRequest'', s)
                   | Some series \<Rightarrow>
                       (case foldl ingest_series (s, 0, 0) series of
                          (s, ingested, skipped) \<Rightarrow>
                            (Response 204 [(''X-Marchimetrics-Points-Ingested'', dec_string ingested)] NoBody, s))))))"

section \<open>Queries\<close>

text \<open>
  \<open>parseTimeParam\<close>: RFC 3339, else Unix seconds as a \<open>float64\<close>, in milliseconds. What
  \<open>int64\<close> makes of a value that does not fit is the argument \<open>other\<close>.
\<close>

definition parseTimeParam :: "(float64 \<Rightarrow> int64) \<Rightarrow> string \<Rightarrow> int64 res" where
  "parseTimeParam other s =
     (if s = [] then Inl (ErrMsg ''empty time parameter'')
      else
        (case ParseRFC3339 s of
           Some t \<Rightarrow> Inr t
         | None \<Rightarrow>
             (case ParseFloat s of
                None \<Rightarrow> Inl (ErrMsg ''want RFC3339 or unix seconds'')
              | Some f \<Rightarrow> Inr (int64_of_float other (mul1000 f)))))"

text \<open>\<open>entry.Metric[l.Name] = l.Value\<close> over the labels: a later label of the same name wins.\<close>

definition matrix_entry :: "SeriesResult \<Rightarrow> matrixEntry" where
  "matrix_entry sr =
     \<lparr>me_metric = foldl (\<lambda>m l. AList.update (label_name l) (label_value l) m) [] (sr_Labels sr),
      me_values = map (\<lambda>sm. (div1000 (float_of_int64 (Timestamp sm)), FormatFloat (Value sm))) (sr_Samples sr)\<rparr>"

definition stats_headers :: "QueryStats \<Rightarrow> (string \<times> string) list" where
  "stats_headers st =
     [(''X-Marchimetrics-Parts-Scanned'', itoa (PartsScanned st)),
      (''X-Marchimetrics-Blocks-Scanned'', itoa (BlocksScanned st)),
      (''X-Marchimetrics-Points-Scanned'', itoa (PointsScanned st)),
      (''X-Marchimetrics-Points-Returned'', itoa (PointsReturned st))]"

definition handleQueryRange ::
  "(float64 \<Rightarrow> int64) \<Rightarrow> storage \<Rightarrow> request \<Rightarrow> disk \<Rightarrow> response \<times> disk" where
  "handleQueryRange other s rq w =
     (case ParseSelector (rq_query rq ''query'') of
        Inl _ \<Rightarrow> (http_error 400 ''bad query'', w)
      | Inr matchers \<Rightarrow>
          (case parseTimeParam other (rq_query rq ''start'') of
             Inl _ \<Rightarrow> (http_error 400 ''bad start'', w)
           | Inr startMs \<Rightarrow>
               (case parseTimeParam other (rq_query rq ''end'') of
                  Inl _ \<Rightarrow> (http_error 400 ''bad end'', w)
                | Inr endMs \<Rightarrow>
                    if sint endMs < sint startMs then (http_error 400 ''end must not be before start'', w)
                    else
                      (case QueryRange s matchers startMs endMs w of
                         (Inl e, w) \<Rightarrow> (storage_error ''query failed'' e, w)
                       | (Inr (results, st), w) \<Rightarrow>
                           (Response 200 (stats_headers st @ [(''Content-Type'', ''application/json'')])
                              (Matrix (map matrix_entry results)), w)))))"

section \<open>Administration\<close>

definition handleForceFlush :: "storage \<Rightarrow> request \<Rightarrow> disk \<Rightarrow> response \<times> storage \<times> disk" where
  "handleForceFlush s rq w =
     (if rq_method rq \<noteq> method_post then (http_error 405 ''POST only'', s, w)
      else
        (case Flush s w of
           (Inl e, s, w) \<Rightarrow> (storage_error ''flush failed'' e, s, w)
         | (Inr _, s, w) \<Rightarrow> (Response 204 [] NoBody, s, w)))"

definition handleForceMerge :: "storage \<Rightarrow> request \<Rightarrow> disk \<Rightarrow> response \<times> storage \<times> disk" where
  "handleForceMerge s rq w =
     (if rq_method rq \<noteq> method_post then (http_error 405 ''POST only'', s, w)
      else
        (case ForceMerge s w of
           (Inl e, s, w) \<Rightarrow> (storage_error ''merge failed'' e, s, w)
         | (Inr _, s, w) \<Rightarrow> (Response 204 [] NoBody, s, w)))"

definition handleHealthz :: response where
  "handleHealthz = Response 200 [] (Text (''OK'' @ [CHR 0x0A]))"

section \<open>Routes\<close>

text \<open>The decoders a server uses, and the machine's conversion of doubles that do not fit.\<close>

record codecs =
  json_array :: "string \<Rightarrow> importRequest list option"
  json_object :: "string \<Rightarrow> importRequest option"
  snappy_decode :: "string \<Rightarrow> string option"
  unmarshal_write :: "string \<Rightarrow> TimeSeries list option"
  float_oob :: "float64 \<Rightarrow> int64"

text \<open>
  The multiplexer first redirects a path that is not clean, except for \<open>CONNECT\<close>: without a leading
  slash, with empty elements, \<open>.\<close> or \<open>..\<close>. A trailing slash is kept.
\<close>

definition cleanPath :: "string \<Rightarrow> string" where
  "cleanPath p0 =
     (let p = (if p0 \<noteq> [] \<and> hd p0 = CHR ''/'' then p0 else CHR ''/'' # p0);
          np = CHR ''/'' # Join (clean_path [] p) ''/''
      in if last p = CHR ''/'' \<and> np \<noteq> ''/'' then np @ ''/'' else np)"

definition misdirected :: "request \<Rightarrow> bool" where
  "misdirected rq \<longleftrightarrow> rq_method rq \<noteq> ''CONNECT'' \<and> cleanPath (rq_path rq) \<noteq> rq_path rq"

text \<open>\<open>routes\<close>; any other path gets 404.\<close>

definition serve :: "codecs \<Rightarrow> storage \<Rightarrow> request \<Rightarrow> disk \<Rightarrow> response \<times> storage \<times> disk" where
  "serve c s rq w =
     (if misdirected rq then (Response 301 [] (Moved (cleanPath (rq_path rq))), s, w)
      else if rq_path rq = ''/healthz'' then (handleHealthz, s, w)
      else if rq_path rq = ''/api/v1/import'' then
        (case handleImport (json_array c) (json_object c) s rq of (resp, s) \<Rightarrow> (resp, s, w))
      else if rq_path rq = ''/api/v1/write'' then
        (case handleRemoteWrite (snappy_decode c) (unmarshal_write c) s rq of (resp, s) \<Rightarrow> (resp, s, w))
      else if rq_path rq = ''/api/v1/query_range'' then
        (case handleQueryRange (float_oob c) s rq w of (resp, w) \<Rightarrow> (resp, s, w))
      else if rq_path rq = ''/internal/force_flush'' then handleForceFlush s rq w
      else if rq_path rq = ''/internal/force_merge'' then handleForceMerge s rq w
      else (http_error 404 ''404 page not found'', s, w))"

lemma cleanPath_routes:
  "p \<in> {''/healthz'', ''/api/v1/import'', ''/api/v1/write'', ''/api/v1/query_range'', ''/internal/force_flush'', ''/internal/force_merge''} \<Longrightarrow>
   cleanPath p = p"
proof -
  have "cleanPath ''/healthz'' = ''/healthz'' \<and> cleanPath ''/api/v1/import'' = ''/api/v1/import'' \<and>
      cleanPath ''/api/v1/write'' = ''/api/v1/write'' \<and> cleanPath ''/api/v1/query_range'' = ''/api/v1/query_range'' \<and>
      cleanPath ''/internal/force_flush'' = ''/internal/force_flush'' \<and> cleanPath ''/internal/force_merge'' = ''/internal/force_merge''"
    by code_simp
  then show "p \<in> {''/healthz'', ''/api/v1/import'', ''/api/v1/write'', ''/api/v1/query_range'', ''/internal/force_flush'', ''/internal/force_merge''} \<Longrightarrow>
      cleanPath p = p" by blast
qed

lemma misdirected_routes [simp]:
  "rq_path rq = ''/api/v1/import'' \<Longrightarrow> \<not> misdirected rq"
  "rq_path rq = ''/api/v1/write'' \<Longrightarrow> \<not> misdirected rq"
  "rq_path rq = ''/api/v1/query_range'' \<Longrightarrow> \<not> misdirected rq"
  "rq_path rq = ''/internal/force_flush'' \<Longrightarrow> \<not> misdirected rq"
  "rq_path rq = ''/internal/force_merge'' \<Longrightarrow> \<not> misdirected rq"
  using cleanPath_routes[of "rq_path rq"] by (simp_all add: misdirected_def)

end
