(* ===== verification/Daemon.thy ===== *)
theory Daemon
  imports Query GoStrings Decimal
begin

text \<open>
  The process around the engine: \<open>main.go\<close> of \<open>cmd/marchimetrics\<close> and the two background
  loops, \<open>StartFlushLoop\<close> of \<open>storage/storage.go\<close> and \<open>StartRetentionLoop\<close> of
  \<open>storage/retention.go\<close>. A loop is run on the ticks it gets before \<open>Close\<close> stops it; it logs
  errors and goes on. A panic ends the process: the state it leaves is the last one.
\<close>

section \<open>Start-up\<close>

definition trim_day_suffix :: "string \<Rightarrow> string option" where
  "trim_day_suffix s = (if s \<noteq> [] \<and> last s = CHR ''d'' then Some (butlast s) else None)"

definition parseRetentionDays :: "string \<Rightarrow> int res" where
  "parseRetentionDays s0 =
     (let s = TrimSpace s0 in
      if s = [] \<or> s = ''0'' then Inr 0
      else
        (case trim_day_suffix s of
           None \<Rightarrow> Inl (ErrMsg ''want a day count like 7d (or 0)'')
         | Some ds \<Rightarrow>
             (case Atoi ds of
                None \<Rightarrow> Inl (ErrMsg ''want a day count like 7d (or 0)'')
              | Some n \<Rightarrow> if n < 0 then Inl (ErrMsg ''want a day count like 7d (or 0)'') else Inr n)))"

text \<open>\<open>main\<close> up to the loops: the flags \<open>mergeThreshold\<close> and \<open>retentionPeriod\<close> go into the handle.\<close>

definition startup :: "path \<Rightarrow> int \<Rightarrow> string \<Rightarrow> storage diskio" where
  "startup path mergeThreshold retentionPeriod =
     io_bind (Open path) (\<lambda>store.
     io_bind (io_lift (parseRetentionDays retentionPeriod)) (\<lambda>days.
     io_return (store\<lparr>s_threshold := mergeThreshold, s_retention := days\<rparr>)))"

section \<open>Background loops\<close>

definition flush_tick :: "storage \<times> disk \<Rightarrow> storage \<times> disk" where
  "flush_tick = (\<lambda>(s, w). snd (Flush s w))"

definition flush_loop :: "nat \<Rightarrow> storage \<times> disk \<Rightarrow> storage \<times> disk" where
  "flush_loop ticks = (flush_tick ^^ ticks)"

definition runRetentionPass :: "int64 \<Rightarrow> storage \<times> disk \<Rightarrow> storage \<times> disk" where
  "runRetentionPass now = (\<lambda>(s, w). snd (ApplyRetention s (s_retention s) now w))"

text \<open>One pass at once, then one for every tick, each at its time.\<close>

definition retention_loop :: "int64 \<Rightarrow> int64 list \<Rightarrow> storage \<times> disk \<Rightarrow> storage \<times> disk" where
  "retention_loop start ticks st = fold runRetentionPass ticks (runRetentionPass start st)"

section \<open>Retention periods\<close>

lemma is_digits_solid:
  assumes "is_digits ds" and "c \<in> set ds"
  shows "solid c"
proof -
  have "digit_val c \<noteq> None" using assms by (simp add: is_digits_def)
  then have "48 \<le> ord c \<and> ord c \<le> 57" by (simp add: digit_val_def Let_def split: if_splits)
  then have "ord c < 128" "\<not> IsSpace (ord c)" unfolding IsSpace_def by auto
  then show ?thesis by (simp add: solid_def)
qed

lemma solid_d: "solid CHR ''d''"
  by (simp add: solid_def IsSpace_def)

lemma parseRetentionDays_print:
  assumes "n < 2 ^ 63"
  shows "parseRetentionDays (dec_string n @ ''d'') = Inr (int n)"
proof -
  have "solid (hd (dec_string n @ ''d''))"
    using is_digits_solid[OF is_digits_dec_string, of "hd (dec_string n)" n] by simp
  then have "TrimSpace (dec_string n @ ''d'') = dec_string n @ ''d''"
    using solid_d by (intro TrimSpace_solid) simp_all
  moreover have "Atoi (dec_string n) = Some (int n)"
    using assms by (intro Atoi_digits) simp_all
  moreover have "dec_string n @ ''d'' \<noteq> ''0''" using dec_string_nonempty[of n] by (cases "dec_string n") auto
  ultimately show ?thesis by (simp add: parseRetentionDays_def trim_day_suffix_def)
qed

text \<open>Every period that is accepted is empty, \<open>0\<close>, or a number of days and a \<open>d\<close>; it is never negative.\<close>

lemma parseRetentionDays_cases:
  assumes "parseRetentionDays s = Inr n"
  shows "0 \<le> n \<and> n < 2 ^ 63 \<and>
    (TrimSpace s \<in> {[], ''0''} \<and> n = 0 \<or> (\<exists>ds. TrimSpace s = ds @ ''d'' \<and> Atoi ds = Some n))"
proof (cases "TrimSpace s \<in> {[], ''0''}")
  case True
  then have "n = 0" using assms by (auto simp: parseRetentionDays_def)
  with True show ?thesis by simp
next
  case False
  then obtain ds where ds: "trim_day_suffix (TrimSpace s) = Some ds" "Atoi ds = Some n" "0 \<le> n"
    using assms by (auto simp: parseRetentionDays_def Let_def split: option.splits if_splits)
  then have "TrimSpace s \<noteq> []" "last (TrimSpace s) = CHR ''d''" "ds = butlast (TrimSpace s)"
    by (auto simp: trim_day_suffix_def split: if_splits)
  then have "TrimSpace s = ds @ ''d''" by (metis append_butlast_last_id)
  moreover have "n < 2 ^ 63" using ds(2) by (auto simp: Atoi_def Let_def split: list.splits option.splits if_splits)
  ultimately show ?thesis using ds by blast
qed

end
