(* ===== verification/HttpSpec.thy ===== *)
theory HttpSpec
  imports Http Daemon Refinement
begin

text \<open>
  What the HTTP API does to the database: the series a request ingests, the answer to a query, both
  stated on the request and the result of the query alone, and the server as a client
  of the storage engine, so that a run of requests, flush and retention timers and restarts
  implements the specification of \<open>Refinement\<close>.
\<close>

section \<open>Ingestion\<close>

type_synonym batch = "(Label list \<times> Sample list) list"

definition append_all :: "storage \<Rightarrow> batch \<Rightarrow> storage" where
  "append_all s batch = foldl (\<lambda>s (ls, xs). snd (Append s ls xs)) s batch"

definition batch_points :: "batch \<Rightarrow> nat" where
  "batch_points batch = (\<Sum>(ls, xs)\<leftarrow>batch. length xs)"

lemma append_all_simps [simp]:
  "append_all s [] = s"
  "append_all s ((ls, xs) # batch) = append_all (snd (Append s ls xs)) batch"
  by (simp_all add: append_all_def)

lemma batch_points_simps [simp]:
  "batch_points [] = 0"
  "batch_points ((ls, xs) # batch) = length xs + batch_points batch"
  by (simp_all add: batch_points_def)

text \<open>The entries of an import before the first one without a metric name.\<close>

definition import_batch :: "importRequest list \<Rightarrow> batch" where
  "import_batch reqs =
     map (\<lambda>r. (Label ''__name__'' (im_metric r) # map (\<lambda>(k, v). Label k v) (im_labels r), im_samples r)) (takeWhile (\<lambda>r. im_metric r \<noteq> []) reqs)"

lemma import_entries_batch:
  "import_entries s n reqs =
     (if \<forall>r \<in> set reqs. im_metric r \<noteq> []
      then Response 200 [(''Content-Type'', ''application/json'')] (Ingested (n + batch_points (import_batch reqs)))
      else http_error 400 ''every entry needs a metric name'',
      append_all s (import_batch reqs))"
  by (induction s n reqs rule: import_entries.induct)
    (auto simp: import_batch_def import_labels_def MetricNameLabel_def add.assoc)

text \<open>The series of a remote write that have a name and samples.\<close>

definition valid_series :: "TimeSeries \<Rightarrow> bool" where
  "valid_series ts \<longleftrightarrow> (\<exists>l \<in> set (ts_labels ts). label_name l = ''__name__'') \<and> ts_samples ts \<noteq> []"

definition write_batch :: "TimeSeries list \<Rightarrow> batch" where
  "write_batch series = map (\<lambda>ts. (ts_labels ts, ts_samples ts)) (filter valid_series series)"

lemma ingest_series_batch:
  "foldl ingest_series (s, n, k) series =
     (append_all s (write_batch series), n + batch_points (write_batch series),
      k + length (filter (\<lambda>ts. \<not> valid_series ts) series))"
  by (induction series arbitrary: s n k)
    (auto simp: write_batch_def ingest_series_def valid_series_def hasName_def list_ex_iff MetricNameLabel_def)

section \<open>What a request asks of the storage\<close>

text \<open>The body of a \<open>POST\<close>, if it can be read and has at most 64 MiB.\<close>

definition posted :: "request \<Rightarrow> string option" where
  "posted rq =
     (if rq_method rq = ''POST'' \<and> \<not> rq_broken rq \<and> length (rq_body rq) \<le> 64 * 1024 * 1024
      then Some (rq_body rq) else None)"

lemma posted_read: "posted rq = (if rq_method rq = method_post then read_body rq else None)"
  by (simp add: posted_def read_body_def method_post_def)

definition imported :: "codecs \<Rightarrow> request \<Rightarrow> batch" where
  "imported c rq =
     (case map_option TrimSpace (posted rq) of
        None \<Rightarrow> []
      | Some body \<Rightarrow>
          if body = [] then []
          else
            (case (if hd body = CHR ''['' then json_array c body
                   else map_option (\<lambda>single. [single]) (json_object c body)) of
               None \<Rightarrow> []
             | Some reqs \<Rightarrow> import_batch reqs))"

definition written :: "codecs \<Rightarrow> request \<Rightarrow> batch" where
  "written c rq =
     (case posted rq of
        None \<Rightarrow> []
      | Some body \<Rightarrow>
          (case snappy_decode c body of
             None \<Rightarrow> []
           | Some raw \<Rightarrow> (case unmarshal_write c raw of None \<Rightarrow> [] | Some series \<Rightarrow> write_batch series)))"

lemma handleImport_state:
  "snd (handleImport (json_array c) (json_object c) s rq) = append_all s (imported c rq)"
  by (auto simp: handleImport_def imported_def posted_read Let_def import_entries_batch split: option.splits)

lemma handleRemoteWrite_state:
  "snd (handleRemoteWrite (snappy_decode c) (unmarshal_write c) s rq) = append_all s (written c rq)"
  by (auto simp: handleRemoteWrite_def written_def posted_read ingest_series_batch split: option.splits)

text \<open>The query a request stands for, if it is well-formed.\<close>

definition asked :: "codecs \<Rightarrow> request \<Rightarrow> (Matcher list \<times> int64 \<times> int64) option" where
  "asked c rq =
     (case (ParseSelector (rq_query rq ''query''), parseTimeParam (float_oob c) (rq_query rq ''start''),
            parseTimeParam (float_oob c) (rq_query rq ''end'')) of
        (Inr ms, Inr startMs, Inr endMs) \<Rightarrow>
          if sint endMs < sint startMs then None else Some (ms, startMs, endMs)
      | _ \<Rightarrow> None)"

lemma handleQueryRange_asked:
  "asked c rq = Some (ms, startMs, endMs) \<Longrightarrow>
   handleQueryRange (float_oob c) s rq w =
     (case QueryRange s ms startMs endMs w of
        (Inl e, w) \<Rightarrow> (storage_error ''query failed'' e, w)
      | (Inr (results, st), w) \<Rightarrow>
          (Response 200 (stats_headers st @ [(''Content-Type'', ''application/json'')])
             (Matrix (map matrix_entry results)), w))"
  by (auto simp: asked_def handleQueryRange_def split: sum.splits if_splits)

lemma handleQueryRange_refused:
  "asked c rq = None \<Longrightarrow> \<exists>msg. handleQueryRange (float_oob c) s rq w = (http_error 400 msg, w)"
  by (auto simp: asked_def handleQueryRange_def split: sum.splits if_splits)

lemma asked_matchers: "asked c rq = Some (ms, startMs, endMs) \<Longrightarrow> ms \<noteq> []"
  by (auto simp: asked_def dest: ParseSelector_names split: sum.splits if_splits)

definition ingest_events :: "batch \<Rightarrow> db_event list" where
  "ingest_events batch = map (\<lambda>(ls, xs). Ingest ls xs) (filter (\<lambda>(ls, xs). xs \<noteq> []) batch)"

definition request_batch :: "codecs \<Rightarrow> request \<Rightarrow> batch" where
  "request_batch c rq =
     (if rq_path rq = ''/api/v1/import'' then imported c rq
      else if rq_path rq = ''/api/v1/write'' then written c rq
      else [])"

definition request_events :: "codecs \<Rightarrow> request \<Rightarrow> db_event list" where
  "request_events c rq =
     (if rq_path rq = ''/api/v1/query_range'' then
        (case asked c rq of None \<Rightarrow> [] | Some (ms, startMs, endMs) \<Rightarrow> [Answer ms startMs endMs])
      else if rq_path rq = ''/internal/force_flush'' \<and> rq_method rq = ''POST'' then [FlushBuffer]
      else if rq_path rq = ''/internal/force_merge'' \<and> rq_method rq = ''POST'' then [MergeParts]
      else ingest_events (request_batch c rq))"

section \<open>The server refines the specification\<close>

lemma steps_append: "steps step c es c1 \<Longrightarrow> steps step c1 es' c2 \<Longrightarrow> steps step c (es @ es') c2"
  by (induction rule: steps.induct) (auto intro: steps.intros)

lemma Append_nil [simp]: "Append s labels [] = (0, s)"
  by (simp add: Append_def)

lemma Append_nextID:
  "nextID (s_registry (snd (Append s labels samples))) = nextID (s_registry s) \<or>
   nextID (s_registry (snd (Append s labels samples))) = nextID (s_registry s) + 1"
proof -
  have ix: "nextID (foldl (\<lambda>r day. IndexForDay r day sid) r days) = nextID r" for r days sid
    by (induction days arbitrary: r) (simp_all add: IndexForDay_def addInvertedLocked_def Let_def)
  show ?thesis
    by (auto simp: Append_def Resolve_def Let_def ix split: option.splits prod.splits)
qed

text \<open>Label sets fit on disk, and there are IDs left for them.\<close>

definition batch_fits :: "storage \<Rightarrow> batch \<Rightarrow> bool" where
  "batch_fits s batch \<longleftrightarrow>
     (\<forall>(ls, xs) \<in> set batch. labels_fit ls) \<and> unat (nextID (s_registry s)) + length batch < 2 ^ 64"

lemma batch_fits_step:
  assumes "batch_fits s ((ls, xs) # batch)"
  shows "nextID (s_registry s) + 1 \<noteq> 0" and "batch_fits (snd (Append s ls xs)) batch" and "labels_fit ls"
proof -
  let ?n = "nextID (s_registry s)"
  have room: "unat ?n + 1 < 2 ^ 64" using assms by (simp add: batch_fits_def)
  then have up: "unat (?n + 1) = unat ?n + 1" using unat_add_lem[of ?n 1] by simp
  then show "?n + 1 \<noteq> 0" by (metis Suc_eq_plus1 nat.distinct(1) unat_0)
  show "batch_fits (snd (Append s ls xs)) batch"
    using assms Append_nextID[of s ls xs] up by (auto simp: batch_fits_def)
  show "labels_fit ls" using assms by (simp add: batch_fits_def)
qed

lemma steps_append_all:
  "batch_fits s batch \<Longrightarrow> steps db_step (s, w) (ingest_events batch) (append_all s batch, w)"
proof (induction batch arbitrary: s)
  case Nil
  then show ?case by (simp add: ingest_events_def steps.stop)
next
  case (Cons b batch)
  obtain ls xs where b: "b = (ls, xs)" by fastforce
  note fits = batch_fits_step[OF Cons.prems[unfolded b]]
  have rest: "steps db_step (snd (Append s ls xs), w) (ingest_events batch) (append_all (snd (Append s ls xs)) batch, w)"
    by (rule Cons.IH[OF fits(2)])
  show ?case
  proof (cases "xs = []")
    case True
    then show ?thesis using rest b by (simp add: ingest_events_def)
  next
    case False
    have "db_step (s, w) (Ingest ls xs) (snd (Append s ls xs), w)"
      by (rule db_step.ingest[OF False fits(3,1), of "fst (Append s ls xs)"]) simp
    with rest False b show ?thesis by (simp add: ingest_events_def steps.go)
  qed
qed

text \<open>
  The conditions under which a request is served as specified: room for what it ingests, flushes or
  merges, the window of a query within the years 0 to 9999, and no failed flush.
\<close>

definition flush_answered :: "response \<Rightarrow> bool" where
  "flush_answered resp = (case resp of Response code _ _ \<Rightarrow> code \<noteq> 500 | Aborted \<Rightarrow> False)"

definition request_room :: "codecs \<Rightarrow> storage \<Rightarrow> disk \<Rightarrow> request \<Rightarrow> bool" where
  "request_room c s w rq \<longleftrightarrow>
     batch_fits s (request_batch c rq) \<and>
     (rq_path rq = ''/internal/force_flush'' \<longrightarrow> (\<forall>g. storage_inv (w_fs w) s g \<longrightarrow> flush_room s g)) \<and>
     (rq_path rq = ''/internal/force_merge'' \<longrightarrow> (\<forall>g. storage_inv (w_fs w) s g \<longrightarrow> merge_room s g)) \<and>
     (rq_path rq = ''/api/v1/query_range'' \<longrightarrow>
        (\<forall>ms startMs endMs. asked c rq = Some (ms, startMs, endMs) \<longrightarrow> plain_ms startMs \<and> plain_ms endMs))"

lemma serve_flush:
  assumes "rq_path rq = ''/internal/force_flush''" and "request_room c s w rq"
    and "serve c s rq w = (resp, s', w')" and "flush_answered resp"
  shows "steps db_step (s, w) (request_events c rq) (s', w')"
proof (cases "rq_method rq = method_post")
  case False
  then show ?thesis using assms(1,3)
    by (auto simp: serve_def handleForceFlush_def method_post_def request_events_def request_batch_def ingest_events_def intro: steps.stop)
next
  case True
  then have post: "rq_method rq = ''POST''" by (simp add: method_post_def)
  obtain r s1 w1 where fl: "Flush s w = (r, s1, w1)" by (metis prod_cases3)
  have r: "r = Inr ()" "s1 = s'" "w1 = w'"
    using assms(1,3,4) True fl
    by (auto simp: serve_def handleForceFlush_def storage_error_def http_error_def flush_answered_def
        split: sum.splits goerr.splits)
  have "db_step (s, w) FlushBuffer (s', w')"
    using assms(1,2) fl r by (intro db_step.flush) (auto simp: request_room_def)
  then show ?thesis using assms(1) post
    by (auto simp: request_events_def intro: steps.intros)
qed

lemma serve_merge:
  assumes "rq_path rq = ''/internal/force_merge''" and "request_room c s w rq"
    and "serve c s rq w = (resp, s', w')"
  shows "steps db_step (s, w) (request_events c rq) (s', w')"
proof (cases "rq_method rq = method_post")
  case False
  then show ?thesis using assms(1,3)
    by (auto simp: serve_def handleForceMerge_def method_post_def request_events_def request_batch_def ingest_events_def intro: steps.stop)
next
  case True
  then have post: "rq_method rq = ''POST''" by (simp add: method_post_def)
  obtain r s1 w1 where mg: "ForceMerge s w = (r, s1, w1)" by (metis prod_cases3)
  have "s1 = s'" "w1 = w'"
    using assms(1,3) True mg by (auto simp: serve_def handleForceMerge_def split: sum.splits)
  then have "db_step (s, w) MergeParts (s', w')"
    using assms(1,2) mg by (intro db_step.merge) (auto simp: request_room_def)
  then show ?thesis using assms(1) post
    by (auto simp: request_events_def intro: steps.intros)
qed

lemma serve_query:
  assumes path: "rq_path rq = ''/api/v1/query_range''" and "request_room c s w rq"
    and run: "serve c s rq w = (resp, s', w')"
  shows "steps db_step (s, w) (request_events c rq) (s', w')"
proof (cases "asked c rq")
  case None
  then show ?thesis using handleQueryRange_refused[OF None, of s w] run path
    by (auto simp: serve_def request_events_def intro: steps.stop)
next
  case (Some q)
  obtain ms startMs endMs where q: "q = (ms, startMs, endMs)" by (metis prod_cases3)
  obtain r w1 where qr: "QueryRange s ms startMs endMs w = (r, w1)" by fastforce
  have "s' = s" "w1 = w'"
    using run path qr handleQueryRange_asked[OF Some[unfolded q], of s w]
    by (auto simp: serve_def split: sum.splits prod.splits)
  moreover have "plain_ms startMs" "plain_ms endMs" using assms(2) path Some q by (auto simp: request_room_def)
  ultimately have "db_step (s, w) (Answer ms startMs endMs) (s', w')"
    using qr asked_matchers[OF Some[unfolded q]] by (auto intro: db_step.answer)
  then show ?thesis using Some q path by (auto simp: request_events_def intro: steps.intros)
qed

lemma serve_batch:
  assumes "rq_path rq \<noteq> ''/internal/force_flush''" "rq_path rq \<noteq> ''/internal/force_merge''"
    "rq_path rq \<noteq> ''/api/v1/query_range''" and "serve c s rq w = (resp, s', w')"
  shows "(s', w') = (append_all s (request_batch c rq), w)"
  using assms handleImport_state[of c s rq] handleRemoteWrite_state[of c s rq]
  by (auto simp: serve_def request_batch_def split: prod.splits if_splits)

lemma serve_steps:
  assumes "request_room c s w rq" and "serve c s rq w = (resp, s', w')"
    and "rq_path rq = ''/internal/force_flush'' \<longrightarrow> flush_answered resp"
  shows "steps db_step (s, w) (request_events c rq) (s', w')"
proof -
  have fits: "batch_fits s (request_batch c rq)" using assms(1) by (simp add: request_room_def)
  consider "rq_path rq = ''/internal/force_flush''" | "rq_path rq = ''/internal/force_merge''"
    | "rq_path rq = ''/api/v1/query_range''"
    | (batch) "rq_path rq \<noteq> ''/internal/force_flush''" "rq_path rq \<noteq> ''/internal/force_merge''"
      "rq_path rq \<noteq> ''/api/v1/query_range''"
    by blast
  then show ?thesis
  proof cases
    case 1
    with assms show ?thesis by (intro serve_flush) simp_all
  next
    case 2
    with assms show ?thesis by (intro serve_merge) simp_all
  next
    case 3
    with assms show ?thesis by (intro serve_query) simp_all
  next
    case batch
    then have "(s', w') = (append_all s (request_batch c rq), w)" by (rule serve_batch[OF _ _ _ assms(2)])
    then show ?thesis using steps_append_all[OF fits, of w] batch by (simp add: request_events_def)
  qed
qed

section \<open>No request breaks the invariant\<close>

lemma append_all_inv:
  "batch_fits s batch \<Longrightarrow> storage_inv fs s g \<Longrightarrow> \<exists>g'. storage_inv fs (append_all s batch) g'"
proof (induction batch arbitrary: s g)
  case Nil
  then show ?case by auto
next
  case (Cons b batch)
  obtain ls xs where b: "b = (ls, xs)" by fastforce
  note fits = batch_fits_step[OF Cons.prems(1)[unfolded b]]
  show ?case
  proof (cases "xs = []")
    case True
    then show ?thesis using Cons.IH[OF fits(2) ] Cons.prems(2) b by simp
  next
    case False
    obtain g' where "storage_inv fs (snd (Append s ls xs)) g'"
      by (rule Append_step[OF Cons.prems(2) fits(3,1) False prod.collapse[symmetric]])
    then show ?thesis using Cons.IH[OF fits(2)] b by simp
  qed
qed

lemma serve_invariant:
  assumes inv: "storage_inv (w_fs w) s g" and room: "request_room c s w rq" and run: "serve c s rq w = (resp, s', w')"
  shows "\<exists>g'. storage_inv (w_fs w') s' g'"
proof -
  have fits: "batch_fits s (request_batch c rq)" using room by (simp add: request_room_def)
  consider (flush) "rq_path rq = ''/internal/force_flush''" | (merge) "rq_path rq = ''/internal/force_merge''"
    | (query) "rq_path rq = ''/api/v1/query_range''"
    | (batch) "rq_path rq \<noteq> ''/internal/force_flush''" "rq_path rq \<noteq> ''/internal/force_merge''"
      "rq_path rq \<noteq> ''/api/v1/query_range''"
    by blast
  then show ?thesis
  proof cases
    case flush
    obtain r s1 w1 where fl: "Flush s w = (r, s1, w1)" by (metis prod_cases3)
    have "flush_room s g" using room flush inv by (simp add: request_room_def)
    from Flush_outcome[OF inv this fl] have "\<exists>g'. storage_inv (w_fs w1) s1 g'" by metis
    moreover have "(s', w') = (s1, w1) \<or> (s', w') = (s, w)"
      using run flush fl by (auto simp: serve_def handleForceFlush_def split: if_splits sum.splits)
    ultimately show ?thesis using inv by blast
  next
    case merge
    obtain r s1 w1 where mg: "ForceMerge s w = (r, s1, w1)" by (metis prod_cases3)
    have "merge_room s g" using room merge inv by (simp add: request_room_def)
    from ForceMerge_step[OF inv this mg] have "\<exists>g'. storage_inv (w_fs w1) s1 g'" by metis
    moreover have "(s', w') = (s1, w1) \<or> (s', w') = (s, w)"
      using run merge mg by (auto simp: serve_def handleForceMerge_def split: if_splits sum.splits)
    ultimately show ?thesis using inv by blast
  next
    case query
    show ?thesis
    proof (cases "asked c rq")
      case None
      then show ?thesis using handleQueryRange_refused[OF None, of s w] run query inv by (auto simp: serve_def)
    next
      case (Some q)
      obtain ms startMs endMs where q: "q = (ms, startMs, endMs)" by (metis prod_cases3)
      obtain r w1 where qr: "QueryRange s ms startMs endMs w = (r, w1)" by fastforce
      have "plain_ms startMs" "plain_ms endMs" using room query Some q by (auto simp: request_room_def)
      then have "w_fs w1 = w_fs w"
        by (rule QueryRange_correct(1)[OF inv asked_matchers[OF Some[unfolded q]] _ _ qr])
      moreover have "s' = s" "w1 = w'"
        using run query qr handleQueryRange_asked[OF Some[unfolded q], of s w]
        by (auto simp: serve_def split: sum.splits prod.splits)
      ultimately show ?thesis using inv by auto
    qed
  next
    case batch
    then have "(s', w') = (append_all s (request_batch c rq), w)" by (rule serve_batch[OF _ _ _ run])
    then show ?thesis using append_all_inv[OF fits inv] by simp
  qed
qed

section \<open>Runs of the server\<close>

text \<open>
  A run: requests, the ticks of the two loops, and restarts of the process. The steps are those
  in which flushes and retention passes succeed (merges and queries may fail), in which a retention
  pass finds no buffered sample of a day that it expires, and whose sizes, IDs and query windows
  are in bounds.
\<close>

datatype server_event =
    Serve request
  | FlushTick
  | RetentionTick int int64
  | Operator db_event

fun events_of :: "codecs \<Rightarrow> server_event \<Rightarrow> db_event list" where
  "events_of c (Serve rq) = request_events c rq"
| "events_of c FlushTick = [FlushBuffer]"
| "events_of c (RetentionTick days now) = [Expire days now]"
| "events_of c (Operator e) = [e]"

inductive server_step :: "codecs \<Rightarrow> storage \<times> disk \<Rightarrow> server_event \<Rightarrow> storage \<times> disk \<Rightarrow> bool" for c where
  request: "request_room c s w rq \<Longrightarrow> serve c s rq w = (resp, s', w') \<Longrightarrow>
     (rq_path rq = ''/internal/force_flush'' \<longrightarrow> flush_answered resp) \<Longrightarrow>
     server_step c (s, w) (Serve rq) (s', w')"
| flush: "(\<And>g. storage_inv (w_fs w) s g \<Longrightarrow> flush_room s g) \<Longrightarrow> fst (Flush s w) = Inr () \<Longrightarrow>
     server_step c (s, w) FlushTick (flush_tick (s, w))"
| retention: "(\<And>sid sm. sm \<in> set (gm_get (s_mem s) sid) \<Longrightarrow> \<not> expired days now (dayString (Timestamp sm))) \<Longrightarrow>
     s_retention s = days \<Longrightarrow> fst (ApplyRetention s days now w) = Inr () \<Longrightarrow>
     server_step c (s, w) (RetentionTick days now) (runRetentionPass now (s, w))"
| operator: "db_step (s, w) e (s', w') \<Longrightarrow> server_step c (s, w) (Operator e) (s', w')"

lemma server_step_steps: "server_step c st e st' \<Longrightarrow> steps db_step st (events_of c e) st'"
proof (induction rule: server_step.induct)
  case (request s w rq resp s' w')
  then show ?case by (simp add: serve_steps)
next
  case (flush w s)
  obtain r s' w' where "Flush s w = (r, s', w')" by (metis prod_cases3)
  then have "Flush s w = (Inr (), s', w')" "flush_tick (s, w) = (s', w')"
    using flush(2) by (simp_all add: flush_tick_def)
  then show ?case using flush(1) by (auto intro!: steps.intros db_step.flush)
next
  case (retention s days now w)
  obtain r s' w' where "ApplyRetention s days now w = (r, s', w')" by (metis prod_cases3)
  then have "ApplyRetention s days now w = (Inr (), s', w')" "runRetentionPass now (s, w) = (s', w')"
    using retention(2,3) by (simp_all add: runRetentionPass_def)
  then show ?case using retention(1) by (auto intro!: steps.intros db_step.expire)
next
  case (operator s w e s' w')
  then show ?case by (auto intro: steps.intros)
qed

text \<open>The server is a client of the database: its events simulate the runs they stand for.\<close>

interpretation srv: simulation implements "server_step c" "\<lambda>A e. foldl spec_step A (events_of c e)" for c
  by unfold_locales (rule db.simulates_run[OF server_step_steps])

lemma foldl_concat_map: "foldl f a (concat (map g xs)) = foldl (\<lambda>a x. foldl f a (g x)) a xs"
  by (induction xs arbitrary: a) simp_all

text \<open>The settings of \<open>main\<close> do not matter to what is stored.\<close>

lemma settings_irrelevant:
  "storage_inv fs (s\<lparr>s_threshold := n, s_retention := d\<rparr>) g = storage_inv fs s g"
  "contents (s\<lparr>s_threshold := n, s_retention := d\<rparr>) g = contents s g"
  "all_synced fs (s\<lparr>s_threshold := n, s_retention := d\<rparr>) = all_synced fs s"
  by (simp_all add: storage_inv_def core_inv_def contents_def disk_samples_def all_synced_def fun_eq_iff)

lemma startup_implements:
  assumes "fresh_dir (w_fs w0) path" and "startup path n period w0 = (Inr s, w)"
  shows "implements (s, w) (\<lambda>_. {#})"
proof -
  obtain s0 d where op: "Open path w0 = (Inr s0, w)" and s: "s = s0\<lparr>s_threshold := n, s_retention := d\<rparr>"
    using assms(2) by (auto simp: startup_def io_bind_def io_lift_def io_return_def split: prod.splits sum.splits)
  obtain g where g: "storage_inv (w_fs w) s0 g" "all_synced (w_fs w) s0" "\<forall>sid. contents s0 g sid = {#}"
    using Open_new[OF assms(1) op] by auto
  show ?thesis unfolding s
    by (rule implementsI[of w _ g])
      (simp_all add: settings_irrelevant g db_of_def fun_eq_iff split: option.splits)
qed

lemma server_run:
  assumes "fresh_dir (w_fs w0) path" and "startup path n period w0 = (Inr s, w)"
    and "steps (server_step c) (s, w) evs st'"
  shows "implements st' (foldl spec_step (\<lambda>_. {#}) (concat (map (events_of c) evs)))"
  unfolding foldl_concat_map by (rule srv.simulates_run[OF assms(3) startup_implements[OF assms(1,2)]])

section \<open>Answers\<close>

text \<open>
  The matrix entry of a result: every label under its name (the last one of a name), every sample
  as its time in seconds and its value in the shortest notation.
\<close>

definition shows_result :: "matrixEntry \<Rightarrow> SeriesResult \<Rightarrow> bool" where
  "shows_result e x \<longleftrightarrow>
     gm_wf (me_metric e) \<and>
     (\<forall>k v. map_of (me_metric e) k = Some v \<longleftrightarrow>
        (\<exists>i < length (sr_Labels x). sr_Labels x ! i = Label k v \<and>
           (\<forall>j < length (sr_Labels x). i < j \<longrightarrow> label_name (sr_Labels x ! j) \<noteq> k))) \<and>
     length (me_values e) = length (sr_Samples x) \<and>
     (\<forall>i < length (sr_Samples x). me_values e ! i =
        (div1000 (float_of_int64 (Timestamp (sr_Samples x ! i))), FormatFloat (Value (sr_Samples x ! i))))"

lemma metric_of_labels:
  "gm_wf (foldl (\<lambda>m l. AList.update (label_name l) (label_value l) m) [] ls) \<and>
   (map_of (foldl (\<lambda>m l. AList.update (label_name l) (label_value l) m) [] ls) k = Some v \<longleftrightarrow>
      (\<exists>i < length ls. ls ! i = Label k v \<and> (\<forall>j < length ls. i < j \<longrightarrow> label_name (ls ! j) \<noteq> k)))"
proof (induction ls rule: rev_induct)
  case (snoc l ls)
  let ?last = "\<lambda>ls i. i < length ls \<and> ls ! i = Label k v \<and> (\<forall>j < length ls. i < j \<longrightarrow> label_name (ls ! j) \<noteq> k)"
  have "?last (ls @ [l]) i \<longleftrightarrow>
      (if i = length ls then l = Label k v else label_name l \<noteq> k \<and> ?last ls i)" for i
    by (auto simp: nth_append less_Suc_eq)
  then have "(\<exists>i. ?last (ls @ [l]) i) \<longleftrightarrow> (if label_name l = k then l = Label k v else (\<exists>i. ?last ls i))"
    by (auto split: if_splits) (metis less_irrefl)+
  then show ?case using snoc by (cases l) (auto simp: distinct_update)
qed simp

lemma shows_matrix_entry: "shows_result (matrix_entry x) x"
  using metric_of_labels[of "sr_Labels x"] by (simp add: shows_result_def matrix_entry_def)

text \<open>A well-formed query is answered with the matrix of the results, or with an error of the disk.\<close>

lemma serve_answer:
  assumes im: "implements (s, w) A" and path: "rq_path rq = ''/api/v1/query_range''"
    and q: "asked c rq = Some (ms, startMs, endMs)" and plain: "plain_ms startMs" "plain_ms endMs"
    and run: "serve c s rq w = (resp, s', w')"
  shows "s' = s \<and>
    ((\<exists>results st entries. QueryRange s ms startMs endMs w = (Inr (results, st), w') \<and>
        resp = Response 200
          [(''X-Marchimetrics-Parts-Scanned'', itoa (PartsScanned st)),
           (''X-Marchimetrics-Blocks-Scanned'', itoa (BlocksScanned st)),
           (''X-Marchimetrics-Points-Scanned'', itoa (PointsScanned st)),
           (''X-Marchimetrics-Points-Returned'', itoa (PointsReturned st)),
           (''Content-Type'', ''application/json'')] (Matrix entries) \<and>
        list_all2 shows_result entries results \<and>
        (\<forall>x \<in> set results. (\<forall>m \<in> set ms. matcher_key m \<in> label_keys (sr_Labels x)) \<and> sr_Samples x \<noteq> [] \<and>
           sorted (map sample_time (sr_Samples x)) \<and>
           mset (sr_Samples x) = filter_mset (in_window startMs endMs) (A (sr_Labels x))) \<and>
        (\<forall>ls. filter_mset (in_window startMs endMs) (A ls) \<noteq> {#} \<longrightarrow>
           (\<exists>ls'. CanonicalKey ls' = CanonicalKey ls \<and>
              ((\<forall>m \<in> set ms. matcher_key m \<in> label_keys ls') \<longrightarrow> (\<exists>x \<in> set results. sr_Labels x = ls'))))) \<or>
     (resp = http_error 500 ''query failed'' \<and> \<not> healthy w))"
proof -
  obtain r w1 where qr: "QueryRange s ms startMs endMs w = (r, w1)" by fastforce
  have s': "s' = s" and w1: "w1 = w'"
    and resp: "resp = (case r of Inl e \<Rightarrow> storage_error ''query failed'' e
      | Inr (results, st) \<Rightarrow> Response 200 (stats_headers st @ [(''Content-Type'', ''application/json'')])
          (Matrix (map matrix_entry results)))"
    using run path qr handleQueryRange_asked[OF q, of s w]
    by (auto simp: serve_def split: sum.splits prod.splits)
  from query_database[OF im asked_matchers[OF q] plain qr] show ?thesis
  proof (elim disjE exE conjE)
    assume "r = Inl ErrIO" "\<not> healthy w"
    then show ?thesis using s' resp by (simp add: storage_error_def)
  next
    fix results st
    assume r: "r = Inr (results, st)"
      and out: "\<forall>x \<in> set results. (\<forall>m \<in> set ms. matcher_key m \<in> label_keys (sr_Labels x)) \<and> sr_Samples x \<noteq> [] \<and>
           sorted (map sample_time (sr_Samples x)) \<and>
           mset (sr_Samples x) = filter_mset (in_window startMs endMs) (A (sr_Labels x))"
      "\<forall>ls. filter_mset (in_window startMs endMs) (A ls) \<noteq> {#} \<longrightarrow>
           (\<exists>ls'. CanonicalKey ls' = CanonicalKey ls \<and>
              ((\<forall>m \<in> set ms. matcher_key m \<in> label_keys ls') \<longrightarrow> (\<exists>x \<in> set results. sr_Labels x = ls')))"
    have "list_all2 shows_result (map matrix_entry results) results"
      by (simp add: list_all2_conv_all_nth shows_matrix_entry)
    moreover have "resp = Response 200
          [(''X-Marchimetrics-Parts-Scanned'', itoa (PartsScanned st)),
           (''X-Marchimetrics-Blocks-Scanned'', itoa (BlocksScanned st)),
           (''X-Marchimetrics-Points-Scanned'', itoa (PointsScanned st)),
           (''X-Marchimetrics-Points-Returned'', itoa (PointsReturned st)),
           (''Content-Type'', ''application/json'')] (Matrix (map matrix_entry results))"
      using resp r by (simp add: stats_headers_def)
    moreover have "QueryRange s ms startMs endMs w = (Inr (results, st), w')" using qr r w1 by simp
    ultimately show ?thesis using s' out by blast
  qed
qed

section \<open>Labels the import lets through\<close>

text \<open>
  The import checks the metric name only. Separator bytes in a label value give two different
  label sets one key, so they become one series; a label called \<open>__name__\<close> is a second metric name.
\<close>

lemma import_keys_collide:
  "CanonicalKey (import_labels \<lparr>im_metric = ''up'', im_labels = [(''a'', ''x'' @ [labelPairSep] @ ''b'' @ [nameValueSep] @ ''y'')],
       im_samples = []\<rparr>) =
   CanonicalKey (import_labels \<lparr>im_metric = ''up'', im_labels = [(''a'', ''x''), (''b'', ''y'')], im_samples = []\<rparr>)"
  by code_simp

lemma import_two_names:
  "map label_value (filter (\<lambda>l. label_name l = MetricNameLabel)
     (import_labels \<lparr>im_metric = ''up'', im_labels = [(''__name__'', ''down'')], im_samples = []\<rparr>)) = [''up'', ''down'']"
  by code_simp

end
