(* ===== verification/TimeParams.thy ===== *)
theory TimeParams
  imports Http
begin

text \<open>
  The time parameters of a query: whole seconds are read exactly as long as their milliseconds
  fit the mantissa of a double.
\<close>

section \<open>Doubles that are exact\<close>

lemma bit_length_bounds:
  "0 < k \<Longrightarrow> 1 \<le> bit_length k \<and> 2 ^ nat (bit_length k - 1) \<le> k \<and> k < 2 ^ nat (bit_length k)"
proof (induction k rule: bit_length.induct)
  case (1 n)
  show ?case
  proof (cases "n = 1")
    case True
    then show ?thesis by (simp add: bit_length.simps[of 1] bit_length.simps[of 0])
  next
    case False
    then have h: "0 < n div 2" using 1(2) by simp
    let ?b = "bit_length (n div 2)"
    have b: "bit_length n = 1 + ?b" using 1(2) by (subst bit_length.simps) simp
    have ih: "1 \<le> ?b" "2 ^ nat (?b - 1) \<le> n div 2" "n div 2 < 2 ^ nat ?b"
      using 1(1)[OF _ h] 1(2) by simp_all
    have "nat ?b = Suc (nat (?b - 1))" using ih(1) by simp
    then have "2 ^ nat ?b \<le> n" using ih(2) by simp
    moreover have "n < 2 ^ nat (1 + ?b)"
    proof -
      have "nat (1 + ?b) = Suc (nat ?b)" using ih(1) by simp
      with ih(3) show ?thesis by simp
    qed
    ultimately show ?thesis using b ih(1) by simp
  qed
qed

lemma bit_length_le:
  assumes "0 < k" "k < 2 ^ n"
  shows "bit_length k \<le> int n"
proof (rule ccontr)
  assume "\<not> bit_length k \<le> int n"
  then have "n \<le> nat (bit_length k - 1)" by simp
  then have "(2 :: int) ^ n \<le> 2 ^ nat (bit_length k - 1)" by (rule power_increasing) simp
  then show False using bit_length_bounds[OF assms(1)] assms(2) by linarith
qed

definition exact_shift :: "int \<Rightarrow> nat" where
  "exact_shift k = nat (53 - bit_length k)"

lemma round_even_exact: "0 < d \<Longrightarrow> round_even (k * d) d = k"
  by (simp add: round_even_def Let_def)

lemma exact_mantissa:
  assumes "0 < k" "k < 2 ^ 53"
  shows "2 ^ 52 \<le> k * 2 ^ exact_shift k" and "k * 2 ^ exact_shift k < 2 ^ 53"
    and "int (exact_shift k) = 53 - bit_length k" and "exact_shift k \<le> 52"
proof -
  note b = bit_length_bounds[OF assms(1)] and le = bit_length_le[OF assms]
  show s: "int (exact_shift k) = 53 - bit_length k" using le by (simp add: exact_shift_def)
  show "exact_shift k \<le> 52" using s b by linarith
  have "52 = nat (bit_length k - 1) + exact_shift k" using s b by linarith
  then have "(2 :: int) ^ 52 = 2 ^ nat (bit_length k - 1) * 2 ^ exact_shift k" by (metis power_add)
  also have "\<dots> \<le> k * 2 ^ exact_shift k" using b by (intro mult_right_mono) simp_all
  finally show "2 ^ 52 \<le> k * 2 ^ exact_shift k" .
  have "53 = nat (bit_length k) + exact_shift k" using s b by linarith
  then have "(2 :: int) ^ 53 = 2 ^ nat (bit_length k) * 2 ^ exact_shift k" by (metis power_add)
  moreover have "k * 2 ^ exact_shift k < 2 ^ nat (bit_length k) * 2 ^ exact_shift k" using b by simp
  ultimately show "k * 2 ^ exact_shift k < 2 ^ 53" by (simp only:)
qed

lemma round_ratio_exact:
  assumes k: "0 < k" "k < 2 ^ 53" and q: "0 < q"
  shows "round_ratio False (k * q) q = of_int ((1127 - int (exact_shift k) - 53) * 2 ^ 52 + k * 2 ^ exact_shift k)"
proof -
  note m = exact_mantissa[OF k]
  have "q \<le> k * q" using k q by simp
  then have e: "mant_exp (k * q) q = - int (exact_shift k)"
    using m(3,4) q by (simp add: mant_exp_def ratio_exp_def)
  have r: "round_even (k * q * 2 ^ exact_shift k) q = k * 2 ^ exact_shift k"
    using round_even_exact[OF q, of "k * 2 ^ exact_shift k"] by (simp add: ac_simps)
  define s where "s = exact_shift k"
  have small: "\<not> 2047 * 2 ^ 52 \<le> (- int s + 1074) * 2 ^ 52 + k * 2 ^ s"
  proof -
    have "(- int s + 1074) * 2 ^ 52 \<le> (1074 :: int) * 2 ^ 52" by (intro mult_right_mono) simp_all
    then show ?thesis using m(2) unfolding s_def by simp
  qed
  have ne: "k * q \<noteq> 0" using k q by simp
  have "round_ratio False (k * q) q = of_int ((- int s + 1074) * 2 ^ 52 + k * 2 ^ s)"
    unfolding round_ratio_def Let_def e using ne small r by (simp add: s_def)
  then show ?thesis by (simp add: s_def)
qed

lemma uint_of_int_u64: "0 \<le> z \<Longrightarrow> z < 2 ^ 64 \<Longrightarrow> uint (word_of_int z :: uint64) = z"
  by (simp add: uint_word_of_int)

lemma exact_fields:
  assumes k: "0 < k" "k < 2 ^ 53" and q: "0 < q"
  defines "f \<equiv> round_ratio False (k * q) q"
  shows "float_finite f" and "\<not> float_neg f" and "float_mant f = k * 2 ^ exact_shift k"
    and "float_exp f = - int (exact_shift k)"
proof -
  note m = exact_mantissa[OF k]
  define x where "x = (1074 - int (exact_shift k))"
  define y where "y = k * 2 ^ exact_shift k - 2 ^ 52"
  have x: "1022 \<le> x" "x \<le> 1074" using m(4) by (simp_all add: x_def)
  have y: "0 \<le> y" "y < 2 ^ 52" using m(1,2) by (simp_all add: y_def)
  have f: "f = of_int ((x + 1) * 2 ^ 52 + y)"
    unfolding f_def round_ratio_exact[OF k q] by (simp add: x_def y_def algebra_simps)
  have lt: "(x + 1) * 2 ^ 52 + y < 2 ^ 63"
  proof -
    have "(x + 1) * 2 ^ 52 \<le> 1075 * 2 ^ 52" using x by (intro mult_right_mono) simp_all
    with y show ?thesis by simp
  qed
  have ge: "0 \<le> (x + 1) * 2 ^ 52 + y" using x y by simp
  have u: "uint f = (x + 1) * 2 ^ 52 + y"
    unfolding f by (rule uint_of_int_u64) (use lt ge in simp_all)
  have d: "((x + 1) * 2 ^ 52 + y) div 2 ^ 52 = x + 1" using y by simp
  have r: "((x + 1) * 2 ^ 52 + y) mod 2 ^ 52 = y"
    unfolding mod_mult_self3 using y by (rule mod_pos_pos_trivial)
  have field: "float_field f = x + 1"
    unfolding float_field_def u using lt ge d by simp
  then show "float_finite f" using x by (simp add: float_finite_def)
  show "\<not> float_neg f" using lt by (simp add: float_neg_def u)
  show "float_mant f = k * 2 ^ exact_shift k"
    unfolding float_mant_def field u r using x by (simp add: y_def)
  show "float_exp f = - int (exact_shift k)"
    unfolding float_exp_def field using x by (simp add: x_def)
qed

lemma mul1000_exact:
  assumes "0 < k" "1000 * k < 2 ^ 53" "0 < q"
  shows "int64_of_float other (mul1000 (round_ratio False (k * q) q)) = of_int (1000 * k)"
proof -
  have k: "0 < k" "k < 2 ^ 53" using assms by simp_all
  note a = exact_fields[OF k assms(3)]
  let ?j = "exact_shift k"
  have "mul1000 (round_ratio False (k * q) q) = round_ratio False ((1000 * k) * 2 ^ ?j) (2 ^ ?j)"
    using a by (simp add: mul1000_def ac_simps)
  moreover have k': "0 < 1000 * k" using k by simp
  note b = exact_fields[OF k' assms(2), of "2 ^ ?j"]
  have "float_trunc (round_ratio False ((1000 * k) * 2 ^ ?j) (2 ^ ?j)) = 1000 * k"
    using b by (simp add: float_trunc_def)
  ultimately show ?thesis using b(1) assms(1,2) by (simp add: int64_of_float_def)
qed

section \<open>Whole seconds\<close>

lemma digit_val_range: "digit_val c = Some d \<Longrightarrow> ord c = 48 + d \<and> d < 10"
  by (auto simp: digit_val_def Let_def split: if_splits)

lemma digit_plain:
  assumes "digit_val c = Some d"
  shows "c \<noteq> CHR ''-''" "c \<noteq> CHR ''+''" "c \<noteq> CHR ''_''" "c \<noteq> CHR ''.''" "lower c = c"
    "c \<noteq> CHR ''i''" "c \<noteq> CHR ''n''" "c \<noteq> CHR ''x''"
  using digit_val_range[OF assms] by (auto simp: lower_def)

lemma read_mant_digits:
  "is_digits s \<Longrightarrow> foldl digits_step (Some m) s = Some v \<Longrightarrow>
   read_mant False (int m) None saw us s = (int v, None, saw \<or> s \<noteq> [], us, [])"
proof (induction s arbitrary: m saw)
  case Nil
  then show ?case by simp
next
  case (Cons c s)
  then obtain d where d: "digit_val c = Some d" by (auto simp: is_digits_def)
  note p = digit_plain[OF d]
  have "foldl digits_step (Some (10 * m + d)) s = Some v" using Cons.prems(2) d by (simp add: digits_step_Some)
  moreover have "is_digits s" using Cons.prems(1) by (simp add: is_digits_def)
  ultimately have "read_mant False (int (10 * m + d)) None True us s = (int v, None, True, us, [])"
    using Cons.IH[of "10 * m + d" True] by simp
  then show ?case using p d by (simp add: digit_in_def)
qed

lemma ParseFloat_digits:
  assumes "is_digits s" and "s \<noteq> []" and "foldl digits_step (Some 0) s = Some n" and "n < 2 ^ 53"
  shows "ParseFloat s = Some (round_ratio False (int n) 1)"
proof -
  obtain c t where s: "s = c # t" using assms(2) by (cases s) auto
  then obtain d where d: "digit_val c = Some d" using assms(1) by (auto simp: is_digits_def)
  note p = digit_plain[OF d]
  have sign: "strip_sign s = (False, s)" using p s by (simp add: strip_sign_def)
  have special: "special s = None" using p sign by (simp add: special_def Let_def s)
  have "lower (s ! 1) \<noteq> CHR ''x''" if "1 < length s"
  proof -
    have "s ! 1 \<in> set s" using that by simp
    then obtain d where "digit_val (s ! 1) = Some d" using assms(1) by (auto simp: is_digits_def)
    then show ?thesis using digit_plain(5,8) by metis
  qed
  then have hex: "\<not> has_hex_prefix s" by (auto simp: has_hex_prefix_def)
  have "read_mant False 0 None False False s = (int n, None, True, False, [])"
    using read_mant_digits[OF assms(1,3), of False False] assms(2) by simp
  then have num: "parse_number s = Some (round_ratio False (int n) 1)"
    using hex by (simp add: parse_number_def sign scaled_def Let_def)
  have "float_finite (round_ratio False (int n) 1)"
  proof (cases "n = 0")
    case True
    then show ?thesis by (simp add: round_ratio_def float_finite_def float_field_def)
  next
    case False
    have "int n < 2 ^ 53" using assms(4) by simp
    then show ?thesis using exact_fields(1)[of "int n" 1] False by simp
  qed
  then show ?thesis by (simp add: ParseFloat_def special num)
qed

lemma ParseRFC3339_digits: "is_digits s \<Longrightarrow> ParseRFC3339 s = None"
proof -
  assume s: "is_digits s"
  have "expect CHR ''-'' t = None" if "parse_year s = Some (y, t)" for y t
  proof -
    have "t = drop 4 s" using that by (auto simp: parse_year_def split: if_splits option.splits)
    then have "is_digits t" using s by (auto simp: is_digits_def dest: in_set_dropD)
    then show ?thesis using digit_plain(1) by (cases t) (auto simp: expect_def is_digits_def)
  qed
  then have "parse_date s = None" by (cases "parse_year s") (auto simp: parse_date_def)
  then show ?thesis by (simp add: ParseRFC3339_def)
qed

lemma parseTimeParam_seconds:
  assumes "1000 * n < 2 ^ 53"
  shows "parseTimeParam other (dec_string n) = Inr (of_nat (1000 * n))"
proof -
  have n: "n < 2 ^ 53" using assms by simp
  have "int64_of_float other (mul1000 (round_ratio False (int n) 1)) = of_nat (1000 * n)"
  proof (cases "n = 0")
    case True
    then show ?thesis
      by (simp add: round_ratio_def mul1000_def float_finite_def float_field_def float_mant_def
          int64_of_float_def float_trunc_def)
  next
    case False
    have "1000 * int n < 2 ^ 53" using assms by simp
    then show ?thesis using mul1000_exact[of "int n" 1 other] False by simp
  qed
  then show ?thesis
    using ParseFloat_digits[OF is_digits_dec_string dec_string_nonempty foldl_dec_string n]
      ParseRFC3339_digits[OF is_digits_dec_string] by (simp add: parseTimeParam_def)
qed

text \<open>A fraction may lose its last millisecond: 1.001 seconds are 1000 milliseconds.\<close>

lemma parseTimeParam_fraction: "parseTimeParam other ''1.001'' = Inr 1000"
  by code_simp

end
