(* ===== verification/GoFlag.thy ===== *)
theory GoFlag
  imports FloatFormat
begin

text \<open>
  Command lines: \<open>FlagSet.Parse\<close> of the \<open>flag\<close> package, which stops at the first argument that
  is no flag, with \<open>strconv.ParseBool\<close> and the base-0 forms of \<open>strconv.ParseUint\<close> and
  \<open>strconv.ParseInt\<close> that read the values of flags.
\<close>

section \<open>Values\<close>

definition ParseBool :: "string \<Rightarrow> bool option" where
  "ParseBool s =
     (if s \<in> {''1'', ''t'', ''T'', ''TRUE'', ''true'', ''True''} then Some True
      else if s \<in> {''0'', ''f'', ''F'', ''FALSE'', ''false'', ''False''} then Some False
      else None)"

definition digit_any :: "char \<Rightarrow> nat option" where
  "digit_any c =
     (case digit_val c of Some d \<Rightarrow> Some d
      | None \<Rightarrow>
          if 97 \<le> ord (lower c) \<and> ord (lower c) \<le> 122 then Some (ord (lower c) - 87) else None)"

text \<open>Base 0: the prefix gives the base; \<open>0\<close> alone, or before other digits, is octal.\<close>

definition split_base :: "string \<Rightarrow> nat \<times> string" where
  "split_base s =
     (case s of [] \<Rightarrow> (10, [])
      | c # t \<Rightarrow>
          if c \<noteq> CHR ''0'' then (10, s)
          else
            (case t of
               d # e # u \<Rightarrow>
                 if lower d = CHR ''b'' then (2, e # u)
                 else if lower d = CHR ''o'' then (8, e # u)
                 else if lower d = CHR ''x'' then (16, e # u)
                 else (8, t)
             | _ \<Rightarrow> (8, t)))"

fun read_uint :: "nat \<Rightarrow> int \<Rightarrow> string \<Rightarrow> int option" where
  "read_uint base n [] = Some n"
| "read_uint base n (c # s) =
     (if c = CHR ''_'' then read_uint base n s
      else
        (case digit_any c of None \<Rightarrow> None
         | Some d \<Rightarrow> if base \<le> d then None else read_uint base (n * int base + int d) s))"

definition ParseUint0 :: "string \<Rightarrow> int option" where
  "ParseUint0 s =
     (if s = [] then None
      else
        (case split_base s of (base, t) \<Rightarrow>
         (case read_uint base 0 t of None \<Rightarrow> None
          | Some n \<Rightarrow>
              if 2 ^ 64 \<le> n \<or> CHR ''_'' \<in> set t \<and> \<not> underscoreOK s then None else Some n)))"

definition ParseInt0 :: "string \<Rightarrow> int option" where
  "ParseInt0 s =
     (case strip_sign s of (neg, t) \<Rightarrow>
      (case ParseUint0 t of None \<Rightarrow> None
       | Some n \<Rightarrow>
           if \<not> neg \<and> 2 ^ 63 \<le> n \<or> neg \<and> 2 ^ 63 < n then None else Some (if neg then - n else n)))"

section \<open>Flags\<close>

text \<open>What setting a flag does to the variables; a boolean flag needs no value.\<close>

datatype 'v flag =
    BoolFlag "bool \<Rightarrow> 'v \<Rightarrow> 'v"
  | ValueFlag "string \<Rightarrow> 'v \<Rightarrow> 'v option"

text \<open>\<open>name=value\<close> is cut at the first \<open>=\<close> that is not the first character.\<close>

definition split_flag :: "string \<Rightarrow> string \<times> string option" where
  "split_flag nm =
     (case IndexByte (tl nm) CHR ''='' of None \<Rightarrow> (nm, None)
      | Some i \<Rightarrow> (take (i + 1) nm, Some (drop (i + 2) nm)))"

text \<open>The start of \<open>parseOne\<close>: what the next argument is.\<close>

datatype flag_word =
    NotFlag
  | Terminator
  | BadSyntax
  | FlagWord string "string option"

definition flag_word :: "string \<Rightarrow> flag_word" where
  "flag_word s =
     (case s of
        c # d # t \<Rightarrow>
          if c \<noteq> CHR ''-'' then NotFlag
          else if s = ''--'' then Terminator
          else
            (let nm = (if d = CHR ''-'' then t else d # t) in
             if nm = [] \<or> hd nm = CHR ''-'' \<or> hd nm = CHR ''='' then BadSyntax
             else (case split_flag nm of (name, val) \<Rightarrow> FlagWord name val))
      | _ \<Rightarrow> NotFlag)"

fun ParseFlags :: "(string \<Rightarrow> 'v flag option) \<Rightarrow> 'v \<Rightarrow> string list \<Rightarrow> ('v \<times> string list) res" where
  "ParseFlags formal v [] = Inr (v, [])"
| "ParseFlags formal v (s # args) =
     (case flag_word s of
        NotFlag \<Rightarrow> Inr (v, s # args)
      | Terminator \<Rightarrow> Inr (v, args)
      | BadSyntax \<Rightarrow> Inl (ErrMsg ''bad flag syntax'')
      | FlagWord name val \<Rightarrow>
          (case formal name of
             None \<Rightarrow>
               Inl (ErrMsg (if name = ''help'' \<or> name = ''h'' then ''flag: help requested''
                            else ''flag provided but not defined''))
           | Some (BoolFlag set_to) \<Rightarrow>
               (case ParseBool (case val of None \<Rightarrow> ''true'' | Some x \<Rightarrow> x) of
                  None \<Rightarrow> Inl (ErrMsg ''invalid boolean value'')
                | Some b \<Rightarrow> ParseFlags formal (set_to b v) args)
           | Some (ValueFlag set_to) \<Rightarrow>
               (case val of
                  Some x \<Rightarrow>
                    (case set_to x v of None \<Rightarrow> Inl (ErrMsg ''invalid value'')
                     | Some v \<Rightarrow> ParseFlags formal v args)
                | None \<Rightarrow>
                    (case args of [] \<Rightarrow> Inl (ErrMsg ''flag needs an argument'')
                     | x # args \<Rightarrow>
                         (case set_to x v of None \<Rightarrow> Inl (ErrMsg ''invalid value'')
                          | Some v \<Rightarrow> ParseFlags formal v args)))))"

section \<open>Numbers read back\<close>

lemma digit_any_digit [simp]: "d < 10 \<Longrightarrow> digit_any (digit_char d) = Some d"
  by (simp add: digit_any_def)

lemma digit_char_plain: "d < 10 \<Longrightarrow> digit_char d \<noteq> CHR ''_'' \<and> digit_char d \<noteq> CHR ''-'' \<and> digit_char d \<noteq> CHR ''+''"
  using of_char_digit_char[of d] by auto

lemma digit_char_zero: "d < 10 \<Longrightarrow> digit_char d = CHR ''0'' \<longleftrightarrow> d = 0"
  using of_char_digit_char[of d] by (auto simp: digit_char_0)

lemma read_uint_append:
  "read_uint b n (s @ t) = (case read_uint b n s of None \<Rightarrow> None | Some m \<Rightarrow> read_uint b m t)"
  by (induction s arbitrary: n) (auto split: option.splits)

lemma read_uint_dec_string: "read_uint 10 0 (dec_string n) = Some (int n)"
proof (induction n rule: dec_string.induct)
  case (1 n)
  have split: "int (n div 10) * 10 + int (n mod 10) = int n" by (simp add: zdiv_int zmod_int)
  have "n mod 10 < 10" by simp
  then show ?case
    by (subst dec_string.simps) (use 1 digit_char_plain split in \<open>simp add: read_uint_append\<close>)
qed

lemma no_underscore_dec_string: "CHR ''_'' \<notin> set (dec_string n)"
  using is_digits_dec_string[of n] by (auto simp: is_digits_def digit_val_def)

lemma hd_dec_string_zero: "0 < n \<Longrightarrow> hd (dec_string n) \<noteq> CHR ''0''"
proof (induction n rule: dec_string.induct)
  case (1 n)
  show ?case
    by (subst dec_string.simps) (use 1 digit_char_zero in \<open>auto simp: hd_append\<close>)
qed

lemma split_base_dec_string:
  "split_base (dec_string n) = (if n = 0 then (8, []) else (10, dec_string n))"
proof (cases "n = 0")
  case True
  have "dec_string 0 = ''0''" by code_simp
  then show ?thesis using True by (simp add: split_base_def)
next
  case False
  then have "hd (dec_string n) \<noteq> CHR ''0''" by (simp add: hd_dec_string_zero)
  then show ?thesis using False by (cases "dec_string n") (simp_all add: split_base_def)
qed

lemma ParseUint0_dec_string [simp]: "n < 2 ^ 64 \<Longrightarrow> ParseUint0 (dec_string n) = Some (int n)"
  by (simp add: ParseUint0_def split_base_dec_string read_uint_dec_string no_underscore_dec_string)

lemma ParseInt0_dec_string: "n < 2 ^ 63 \<Longrightarrow> ParseInt0 (dec_string n) = Some (int n)"
proof -
  assume n: "n < 2 ^ 63"
  have "hd (dec_string n) \<in> set (dec_string n)" by simp
  then have d: "digit_val (hd (dec_string n)) \<noteq> None"
    using is_digits_dec_string[of n] unfolding is_digits_def by blast
  have "digit_val CHR ''-'' = None" and "digit_val CHR ''+'' = None" by (simp_all add: digit_val_def)
  then have "hd (dec_string n) \<noteq> CHR ''-''" "hd (dec_string n) \<noteq> CHR ''+''" using d by fastforce+
  then have "strip_sign (dec_string n) = (False, dec_string n)"
    by (cases "dec_string n") (simp_all add: strip_sign_def)
  then show ?thesis using n by (simp add: ParseInt0_def)
qed

lemma ParseInt0_negative: "n \<le> 2 ^ 63 \<Longrightarrow> ParseInt0 (CHR ''-'' # dec_string n) = Some (- int n)"
  by (simp add: ParseInt0_def strip_sign_def)

lemma ParseInt0_itoa: "ParseInt0 (itoa x) = Some (sint x)"
proof (cases "sint x < 0")
  case True
  have "- (2 ^ 63) \<le> sint x" using sint_ge[of x] by simp
  then have "nat (- sint x) \<le> 2 ^ 63" by simp
  from ParseInt0_negative[OF this] show ?thesis using True by (simp add: itoa_def int_string_eq)
next
  case False
  have "sint x < 2 ^ 63" using sint_lt[of x] by simp
  then have "nat (sint x) < 2 ^ 63" using False by (simp add: nat_less_iff)
  from ParseInt0_dec_string[OF this] show ?thesis using False by (simp add: itoa_def int_string_eq)
qed

section \<open>Flags read back\<close>

lemma flag_word_value:
  assumes "nm \<noteq> []" and "CHR ''='' \<notin> set nm" and "hd nm \<noteq> CHR ''-''"
  shows "flag_word (CHR ''-'' # nm @ CHR ''='' # val) = FlagWord nm (Some val)"
proof -
  obtain d t where nm: "nm = d # t" using assms(1) by (cases nm) auto
  have "IndexByte (t @ CHR ''='' # val) CHR ''='' = Some (length t)"
    using assms(2) nm by simp
  then have "split_flag (nm @ CHR ''='' # val) = (nm, Some val)"
    by (simp add: split_flag_def nm)
  then show ?thesis using assms nm by (auto simp: flag_word_def Let_def)
qed

text \<open>Whatever follows an argument that is no flag is an argument, flag or not.\<close>

lemma ParseFlags_stop: "flag_word s = NotFlag \<Longrightarrow> ParseFlags formal v (s # args) = Inr (v, s # args)"
  by simp

end
