(* ===== verification/Mmctl.thy ===== *)
theory Mmctl
  imports Http GoFlag
begin

text \<open>
  The inspection tool, \<open>cmd/mmctl/main.go\<close>: \<open>inspect\<close> decodes one part and prints it. A run
  takes the arguments of the command and yields its exit code and what it writes to standard
  output; the usage texts and errors on standard error are left out.
\<close>

section \<open>Label sets in Prometheus notation\<close>

definition format_label :: "(nat \<Rightarrow> bool) \<Rightarrow> string \<times> string list \<Rightarrow> Label \<Rightarrow> string \<times> string list" where
  "format_label printable = (\<lambda>(name, rest) l.
     if label_name l = MetricNameLabel then (label_value l, rest)
     else (name, rest @ [label_text printable (label_name l) (label_value l)]))"

definition formatLabels :: "(nat \<Rightarrow> bool) \<Rightarrow> Label list \<Rightarrow> string" where
  "formatLabels printable labels =
     (case foldl (format_label printable) ([], []) labels of
        (name, rest) \<Rightarrow> if rest = [] then name else name @ ''{'' @ Join rest '', '' @ ''}'')"

section \<open>The report\<close>

record inspect_options =
  op_dataPath :: string  \<comment> \<open>\<open>-storageDataPath\<close>\<close>
  op_series :: uint64  \<comment> \<open>\<open>-series\<close>; 0 is all of them\<close>
  op_samples :: bool  \<comment> \<open>\<open>-samples\<close>\<close>
  op_limit :: int64  \<comment> \<open>\<open>-limit\<close>\<close>

definition inspect_defaults :: inspect_options where
  "inspect_defaults = \<lparr>op_dataPath = [], op_series = 0, op_samples = False, op_limit = 20\<rparr>"

definition inspect_flag :: "string \<Rightarrow> inspect_options flag option" where
  "inspect_flag nm =
     (if nm = ''storageDataPath'' then Some (ValueFlag (\<lambda>x opt. Some (opt\<lparr>op_dataPath := x\<rparr>)))
      else if nm = ''series'' then
        Some (ValueFlag (\<lambda>x opt. map_option (\<lambda>n. opt\<lparr>op_series := of_int n\<rparr>) (ParseUint0 x)))
      else if nm = ''samples'' then Some (BoolFlag (\<lambda>b opt. opt\<lparr>op_samples := b\<rparr>))
      else if nm = ''limit'' then
        Some (ValueFlag (\<lambda>x opt. map_option (\<lambda>n. opt\<lparr>op_limit := of_int n\<rparr>) (ParseInt0 x)))
      else None)"

text \<open>
  Paths are cleaned by \<open>filepath.Join\<close> before they reach a system call; relative ones start at
  the working directory \<open>cwd\<close>. There are no symbolic links.
\<close>

definition resolve :: "path \<Rightarrow> string \<Rightarrow> path" where
  "resolve cwd s = clean_path (if s \<noteq> [] \<and> hd s = CHR ''/'' then [] else cwd) s"

text \<open>The part directory is four levels below the data root.\<close>

definition data_root :: "path \<Rightarrow> inspect_options \<Rightarrow> string \<Rightarrow> path" where
  "data_root cwd opt partDir =
     (if op_dataPath opt = [] then foldl clean_step (resolve cwd partDir) [''..'', ''..'', ''..'', ''..'']
      else resolve cwd (op_dataPath opt))"

definition inspect_header :: "string \<Rightarrow> PartMeta \<Rightarrow> string" where
  "inspect_header dir meta =
     ''part: '' @ dir @ [CHR 0x0A] @
     ''tier: '' @ Tier meta @ ''  encoding: '' @ (if Encoding meta = [] then encodingRaw else Encoding meta) @ [CHR 0x0A] @
     ''time range: '' @ FormatRFC3339 (MinTime meta) @ '' .. '' @ FormatRFC3339 (MaxTime meta) @ [CHR 0x0A] @
     ''series: '' @ itoa (SeriesCount meta) @ ''  samples: '' @ itoa (SamplesCount meta) @ [CHR 0x0A]"

definition series_title :: "(nat \<Rightarrow> bool) \<Rightarrow> Registry \<Rightarrow> uint64 \<Rightarrow> string" where
  "series_title printable reg sid =
     (case Labels reg sid of
        Some labels \<Rightarrow> formatLabels printable labels
      | None \<Rightarrow> ''SeriesID '' @ int_string (uint sid))"

definition sample_line :: "Sample \<Rightarrow> string" where
  "sample_line sm = ''  '' @ FormatRFC3339 (Timestamp sm) @ ''  '' @ FormatFloat (Value sm) @ [CHR 0x0A]"

definition summary_lines :: "Sample list \<Rightarrow> string" where
  "summary_lines samples =
     (if samples = [] then []
      else ''  first: '' @ FormatRFC3339 (Timestamp (hd samples)) @ '' = '' @ FormatFloat (Value (hd samples)) @ [CHR 0x0A] @
           ''  last:  '' @ FormatRFC3339 (Timestamp (last samples)) @ '' = '' @ FormatFloat (Value (last samples)) @ [CHR 0x0A])"

text \<open>With \<open>-samples\<close>, at most \<open>-limit\<close> of them when it is positive.\<close>

definition shown :: "int64 \<Rightarrow> nat \<Rightarrow> nat" where
  "shown limit n = (if 0 < sint limit \<and> sint limit < int n then nat (sint limit) else n)"

definition sample_lines :: "int64 \<Rightarrow> Sample list \<Rightarrow> string" where
  "sample_lines limit samples =
     (let n = shown limit (length samples) in
      concat (map sample_line (take n samples)) @
      (if n < length samples
       then ''  ... ('' @ int_string (int (length samples - n)) @ '' more)'' @ [CHR 0x0A] else []))"

definition series_report ::
  "(nat \<Rightarrow> bool) \<Rightarrow> inspect_options \<Rightarrow> Registry \<Rightarrow> series_data \<Rightarrow> uint64 \<Rightarrow> string" where
  "series_report printable opt reg data sid =
     (if op_series opt \<noteq> 0 \<and> sid \<noteq> op_series opt then []
      else
        (let samples = gm_get data sid in
         [CHR 0x0A] @ series_title printable reg sid @ ''  ('' @ int_string (int (length samples)) @ '' samples)'' @ [CHR 0x0A] @
         (if op_samples opt then sample_lines (op_limit opt) samples else summary_lines samples)))"

definition inspect_text ::
  "(nat \<Rightarrow> bool) \<Rightarrow> inspect_options \<Rightarrow> string \<Rightarrow> Registry \<Rightarrow> PartMeta \<Rightarrow> series_data \<Rightarrow> string" where
  "inspect_text printable opt partDir reg meta data =
     inspect_header partDir meta @
     concat (map (series_report printable opt reg data) (sort (map fst data)))"

section \<open>Runs\<close>

text \<open>Nothing is written before the registry and the part have been read.\<close>

definition inspect_part :: "(nat \<Rightarrow> bool) \<Rightarrow> path \<Rightarrow> inspect_options \<Rightarrow> string \<Rightarrow> string diskio" where
  "inspect_part printable cwd opt partDir =
     io_bind (LoadRegistry (data_root cwd opt partDir)) (\<lambda>reg.
     io_bind (InspectPart (resolve cwd partDir)) (\<lambda>(meta, data).
     io_return (inspect_text printable opt partDir reg meta data)))"

definition runInspect :: "(nat \<Rightarrow> bool) \<Rightarrow> path \<Rightarrow> string list \<Rightarrow> string diskio" where
  "runInspect printable cwd args =
     io_bind (io_lift (ParseFlags inspect_flag inspect_defaults args)) (\<lambda>(opt, operands).
       case operands of
         [partDir] \<Rightarrow> inspect_part printable cwd opt partDir
       | _ \<Rightarrow> io_fail (ErrMsg ''inspect needs exactly one part dir''))"

text \<open>\<open>main\<close> on the arguments after the program's name; a panic exits with 2.\<close>

definition mmctl :: "(nat \<Rightarrow> bool) \<Rightarrow> path \<Rightarrow> string list \<Rightarrow> disk \<Rightarrow> nat \<times> string \<times> disk" where
  "mmctl printable cwd args w =
     (case args of [] \<Rightarrow> (2, [], w)
      | cmd # args \<Rightarrow>
          if cmd = ''inspect'' then
            (case runInspect printable cwd args w of
               (Inl e, w) \<Rightarrow> (if is_panic e then 2 else 1, [], w)
             | (Inr text, w) \<Rightarrow> (0, text, w))
          else (2, [], w))"

section \<open>Printed label sets are selectors\<close>

definition label_matcher :: "Label \<Rightarrow> Matcher" where
  "label_matcher l = \<lparr>m_name = label_name l, m_value = label_value l\<rparr>"

text \<open>
  A label set a selector can name: valid label names, at most one metric name, a valid one, and
  not only an empty metric name.
\<close>

definition nameable :: "Label list \<Rightarrow> bool" where
  "nameable ls \<longleftrightarrow>
     (\<forall>l \<in> set ls. metricNameRE (label_name l)) \<and> ls \<noteq> [] \<and>
     length (filter (\<lambda>l. label_name l = MetricNameLabel) ls) \<le> 1 \<and>
     (\<forall>l \<in> set ls. label_name l = MetricNameLabel \<longrightarrow> metricNameRE (label_value l))"

lemma format_fold:
  "foldl (format_label printable) (n, rest) ls =
     (if filter (\<lambda>l. label_name l = MetricNameLabel) ls = [] then n
      else label_value (last (filter (\<lambda>l. label_name l = MetricNameLabel) ls)),
      rest @ map (\<lambda>l. label_text printable (label_name l) (label_value l))
        (filter (\<lambda>l. label_name l \<noteq> MetricNameLabel) ls))"
proof (induction ls arbitrary: n rest)
  case Nil
  then show ?case by simp
next
  case (Cons l ls)
  have "format_label printable (n, rest) l =
    (if label_name l = MetricNameLabel then (label_value l, rest)
     else (n, rest @ [label_text printable (label_name l) (label_value l)]))"
    by (simp add: format_label_def)
  then show ?case by (cases "label_name l = MetricNameLabel") (simp_all add: Cons)
qed

abbreviation is_name :: "Label \<Rightarrow> bool" where
  "is_name l \<equiv> label_name l = MetricNameLabel"

lemma formatLabels_text:
  "formatLabels printable ls = selector_text printable
     (if filter is_name ls = [] then [] else label_value (last (filter is_name ls)))
     (map label_matcher (filter (\<lambda>l. \<not> is_name l) ls))"
  unfolding formatLabels_def format_fold selector_text_def
  by (simp add: label_matcher_def comp_def)

lemma one_name:
  assumes "nameable ls" and "filter is_name ls \<noteq> []"
  obtains l where "filter is_name ls = [l]" and "is_name l" and "metricNameRE (label_value l)"
    and "set ls = insert l {l \<in> set ls. \<not> is_name l}"
proof -
  obtain l where l: "filter is_name ls = [l]"
    using assms by (cases "filter is_name ls") (auto simp: nameable_def)
  then have "{x \<in> set ls. is_name x} = {l}" by (metis list.set(1,2) set_filter)
  then have "l \<in> set ls" "is_name l" "set ls = insert l {l \<in> set ls. \<not> is_name l}" by blast+
  with l assms(1) show thesis by (intro that) (simp_all add: nameable_def)
qed

lemma ParseSelector_formatLabels:
  assumes "nameable ls"
  shows "\<exists>ms. ParseSelector (formatLabels printable ls) = Inr ms \<and> set ms = label_matcher ` set ls"
proof -
  define ms where "ms = map label_matcher (filter (\<lambda>l. \<not> is_name l) ls)"
  have names: "\<forall>m \<in> set ms. metricNameRE (m_name m)"
    using assms by (simp add: ms_def nameable_def label_matcher_def)
  have rest: "set ms = label_matcher ` {l \<in> set ls. \<not> is_name l}" by (simp add: ms_def)
  show ?thesis
  proof (cases "filter is_name ls = []")
    case True
    then have none: "{l \<in> set ls. \<not> is_name l} = set ls" by (auto simp: filter_empty_conv)
    have "ms \<noteq> []" using rest none assms by (auto simp: nameable_def)
    then have "ParseSelector (formatLabels printable ls) = Inr ms"
      unfolding formatLabels_text ms_def[symmetric] using ParseSelector_text[OF names, of "[]" printable] True
      by simp
    then show ?thesis using rest none by simp
  next
    case False
    then obtain l where l: "filter is_name ls = [l]" "is_name l" "metricNameRE (label_value l)"
      "set ls = insert l {l \<in> set ls. \<not> is_name l}" by (rule one_name[OF assms])
    have p: "ParseSelector (formatLabels printable ls) = Inr (label_matcher l # ms)"
      unfolding formatLabels_text ms_def[symmetric]
      using ParseSelector_text[OF names, of "label_value l" printable] metricNameRE_chars(1)[OF l(3)] l(1-3)
      by (simp add: label_matcher_def)
    have "set (label_matcher l # ms) = label_matcher ` insert l {l \<in> set ls. \<not> is_name l}"
      using rest by simp
    then have "set (label_matcher l # ms) = label_matcher ` set ls" by (simp only: l(4)[symmetric])
    with p show ?thesis by blast
  qed
qed

lemma printed_labels_select:
  assumes "nameable ls"
  shows "\<exists>ms. ParseSelector (formatLabels printable ls) = Inr ms \<and>
    (\<forall>ls'. (\<forall>m \<in> set ms. matcher_key m \<in> label_keys ls') \<longleftrightarrow> label_keys ls \<subseteq> label_keys ls')"
proof -
  obtain ms where ms: "ParseSelector (formatLabels printable ls) = Inr ms" "set ms = label_matcher ` set ls"
    using ParseSelector_formatLabels[OF assms] by blast
  have "matcher_key ` set ms = label_keys ls"
    unfolding ms(2) by (simp add: label_keys_def matcher_key_def label_matcher_def image_image)
  then have "(\<forall>m \<in> set ms. matcher_key m \<in> label_keys ls') \<longleftrightarrow> label_keys ls \<subseteq> label_keys ls'" for ls'
    by (metis image_subset_iff)
  then show ?thesis using ms(1) by blast
qed

text \<open>
  A metric name is not quoted: one that the import accepts, but no selector, prints as a text that
  the parser refuses.
\<close>

lemma unnameable_refused:
  "ParseSelector (formatLabels printable [Label ''__name__'' ''cpu.load'']) = Inl (ErrMsg ''invalid metric name'')"
proof -
  have "formatLabels printable [Label ''__name__'' ''cpu.load''] = ''cpu.load''"
    by (simp add: formatLabels_def format_label_def MetricNameLabel_def)
  moreover have "ParseSelector ''cpu.load'' = Inl (ErrMsg ''invalid metric name'')"
    by code_simp
  ultimately show ?thesis by simp
qed

section \<open>What is printed\<close>

text \<open>
  The report of a part whose metadata are \<open>meta\<close> and whose series \<open>M\<close> gives, line by line: the
  selected series in ascending order of their IDs, each with its samples, or the first and the last.
\<close>

definition sample_report :: "inspect_options \<Rightarrow> Sample list \<Rightarrow> string list" where
  "sample_report opt xs =
     (let line = (\<lambda>before between sm. before @ FormatRFC3339 (Timestamp sm) @ between @ FormatFloat (Value sm));
          most = (if 0 < sint (op_limit opt) then nat (sint (op_limit opt)) else length xs)
      in if op_samples opt then
           map (line ''  '' ''  '') (take most xs) @
           (if most < length xs then [''  ... ('' @ int_string (int (length xs) - int most) @ '' more)''] else [])
         else if xs = [] then []
         else [line ''  first: '' '' = '' (hd xs), line ''  last:  '' '' = '' (last xs)])"

definition series_lines ::
  "(nat \<Rightarrow> bool) \<Rightarrow> inspect_options \<Rightarrow> Label list option \<Rightarrow> uint64 \<Rightarrow> Sample list \<Rightarrow> string list" where
  "series_lines printable opt ls sid xs =
     [[], (case ls of None \<Rightarrow> ''SeriesID '' @ int_string (uint sid) | Some ls \<Rightarrow> formatLabels printable ls) @
          ''  ('' @ int_string (int (length xs)) @ '' samples)''] @ sample_report opt xs"

definition report_lines ::
  "(nat \<Rightarrow> bool) \<Rightarrow> inspect_options \<Rightarrow> string \<Rightarrow> (uint64 \<rightharpoonup> Label list) \<Rightarrow> PartMeta \<Rightarrow> (uint64 \<rightharpoonup> Sample list) \<Rightarrow> string list" where
  "report_lines printable opt partDir N meta M =
     [''part: '' @ partDir,
      ''tier: '' @ Tier meta @ ''  encoding: '' @ (if Encoding meta = [] then ''raw'' else Encoding meta),
      ''time range: '' @ FormatRFC3339 (MinTime meta) @ '' .. '' @ FormatRFC3339 (MaxTime meta),
      ''series: '' @ itoa (SeriesCount meta) @ ''  samples: '' @ itoa (SamplesCount meta)] @
     concat (map (\<lambda>sid. series_lines printable opt (N sid) sid (the (M sid)))
       (sorted_list_of_set {sid \<in> dom M. op_series opt = 0 \<or> sid = op_series opt}))"

definition unlines :: "string list \<Rightarrow> string" where
  "unlines ls = concat (map (\<lambda>l. l @ [CHR 0x0A]) ls)"

lemma unlines_simps [simp]:
  "unlines [] = []" "unlines (l # ls) = l @ CHR 0x0A # unlines ls" "unlines (ls @ ls') = unlines ls @ unlines ls'"
  by (simp_all add: unlines_def)

lemma unlines_concat: "unlines (concat (map f xs)) = concat (map (\<lambda>x. unlines (f x)) xs)"
  by (induction xs) simp_all

lemma concat_selected: "concat (map (\<lambda>x. if P x then f x else []) xs) = concat (map f (filter P xs))"
  by (induction xs) simp_all

lemma unlines_samples:
  "unlines (map (\<lambda>sm. ''  '' @ FormatRFC3339 (Timestamp sm) @ ''  '' @ FormatFloat (Value sm)) xs) = concat (map sample_line xs)"
  by (induction xs) (simp_all add: sample_line_def)

lemma sample_report_text:
  "unlines (sample_report opt xs) = (if op_samples opt then sample_lines (op_limit opt) xs else summary_lines xs)"
proof (cases "op_samples opt")
  case True
  show ?thesis
  proof (cases "0 < sint (op_limit opt) \<and> sint (op_limit opt) < int (length xs)")
    case limited: True
    then have "nat (sint (op_limit opt)) < length xs" by (simp add: nat_less_iff)
    then show ?thesis using True limited unlines_samples
      by (simp add: sample_report_def sample_lines_def shown_def Let_def of_nat_diff)
  next
    case False
    then have "take (if 0 < sint (op_limit opt) then nat (sint (op_limit opt)) else length xs) xs = xs" by auto
    moreover have "\<not> (if 0 < sint (op_limit opt) then nat (sint (op_limit opt)) else length xs) < length xs"
      using False by auto
    ultimately show ?thesis using True False unlines_samples
      by (simp only: sample_report_def sample_lines_def shown_def Let_def) simp
  qed
next
  case False
  then show ?thesis by (simp add: sample_report_def summary_lines_def)
qed

lemma series_report_lines:
  "series_report printable opt reg data sid =
    (if op_series opt = 0 \<or> sid = op_series opt
     then unlines (series_lines printable opt (map_of (names reg) sid) sid (gm_get data sid)) else [])"
  by (cases "map_of (names reg) sid")
    (auto simp: series_report_def series_lines_def series_title_def sample_report_text Labels_def Let_def)

lemma selected_series:
  assumes "distinct (map fst data)"
  shows "filter P (sort (map fst data)) = sorted_list_of_set {sid \<in> dom (map_of data). P sid}"
proof -
  have "set (filter P (sort (map fst data))) = {sid \<in> dom (map_of data). P sid}"
    by (auto simp: dom_map_of_conv_image_fst)
  moreover have "sorted (filter P (sort (map fst data)))"
    by (rule sorted_wrt_filter) simp
  moreover have "distinct (filter P (sort (map fst data)))"
    using assms by simp
  ultimately show ?thesis by (metis sorted_list_of_set.idem_if_sorted_distinct)
qed

lemma inspect_header_lines:
  "inspect_header partDir meta = unlines
     [''part: '' @ partDir,
      ''tier: '' @ Tier meta @ ''  encoding: '' @ (if Encoding meta = [] then ''raw'' else Encoding meta),
      ''time range: '' @ FormatRFC3339 (MinTime meta) @ '' .. '' @ FormatRFC3339 (MaxTime meta),
      ''series: '' @ itoa (SeriesCount meta) @ ''  samples: '' @ itoa (SamplesCount meta)]"
  by (simp add: inspect_header_def encodingRaw_def)

lemma inspect_text_lines:
  assumes wf: "gm_wf data" and eq: "map_of data = M"
  shows "inspect_text printable opt partDir reg meta data =
    unlines (report_lines printable opt partDir (map_of (names reg)) meta M)"
proof -
  let ?sel = "\<lambda>sid. op_series opt = 0 \<or> sid = op_series opt"
  let ?keys = "sorted_list_of_set {sid \<in> dom M. ?sel sid}"
  let ?lines = "\<lambda>sid. series_lines printable opt (map_of (names reg) sid) sid (the (M sid))"
  have keys: "filter ?sel (sort (map fst data)) = ?keys"
    using selected_series[of data ?sel] wf eq by simp
  have get: "gm_get data sid = the (M sid)" if "sid \<in> set ?keys" for sid
  proof -
    have "sid \<in> set (map fst data)" using that unfolding keys[symmetric] by simp
    then show ?thesis unfolding eq[symmetric]
      by (cases "map_of data sid") (simp_all add: gm_get_def map_of_eq_None_iff)
  qed
  have "concat (map (series_report printable opt reg data) (sort (map fst data))) =
      concat (map (\<lambda>sid. unlines (series_lines printable opt (map_of (names reg) sid) sid (gm_get data sid))) ?keys)"
    unfolding series_report_lines concat_selected keys ..
  also have "\<dots> = concat (map (\<lambda>sid. unlines (?lines sid)) ?keys)"
    using get by (intro arg_cong[where f = concat] map_cong) simp_all
  finally show ?thesis
    unfolding inspect_text_def inspect_header_lines report_lines_def unlines_concat[symmetric]
    by (simp only: unlines_simps(3))
qed

lemma inspect_part_report:
  assumes reg: "LoadRegistry (data_root cwd opt partDir) w = (Inr reg, w1)"
    and part: "stored_part (w_fs w1) (resolve cwd partDir) meta data"
    and run: "inspect_part printable cwd opt partDir w = (r, w')"
  shows "w_fs w' = w_fs w1 \<and>
    (r = Inr (unlines (report_lines printable opt partDir (map_of (names reg)) meta (map_of data))) \<or>
     (r = Inl ErrIO \<and> \<not> healthy w1))"
proof -
  let ?text = "inspect_text printable opt partDir reg" and ?dir = "resolve cwd partDir"
    and ?out = "unlines (report_lines printable opt partDir (map_of (names reg)) meta (map_of data))"
  have "yields (w_fs w1) (InspectPart ?dir) (\<lambda>r. \<exists>d. r = Inr (meta, d) \<and> gm_wf d \<and> map_of d = map_of data)"
    unfolding InspectPart_def
  proof (rule yields_bind_eq[OF yields_readPartMeta[OF part]])
    show "yields (w_fs w1) (io_bind (readPartAll ?dir) (\<lambda>data. io_return (meta, data)))
      (\<lambda>r. \<exists>d. r = Inr (meta, d) \<and> gm_wf d \<and> map_of d = map_of data)"
      by (rule yields_bind[OF yields_readPartAll[OF part]]) (auto intro: yields_return)
  qed
  then have "yields (w_fs w1) (io_bind (InspectPart ?dir) (\<lambda>(meta, data). io_return (?text meta data)))
      (\<lambda>r. r = Inr ?out)"
    by (rule yields_bind) (auto intro!: yields_return inspect_text_lines)
  moreover have "io_bind (InspectPart ?dir) (\<lambda>(meta, data). io_return (?text meta data)) w1 = (r, w')"
    using run reg by (simp add: inspect_part_def io_bind_def)
  ultimately show ?thesis using yieldsD by blast
qed

section \<open>Printed times\<close>

text \<open>A printed time denotes the second its instant lies in.\<close>

definition reads_as :: "(float64 \<Rightarrow> int64) \<Rightarrow> string \<Rightarrow> int64 \<Rightarrow> bool" where
  "reads_as other t ms \<longleftrightarrow> parseTimeParam other t = Inr (ms - of_int (sint ms mod 1000))"

lemma FormatRFC3339_reads:
  assumes "plain_ms ms"
  shows "reads_as other (FormatRFC3339 ms) ms"
proof -
  obtain y yday where y: "year_yday (day_number ms) = (y, yday)" by fastforce
  then have "0 \<le> y" "y \<le> 9999" using plain_ms_year[OF assms] by (simp_all add: year_ok_def)
  from ParseRFC3339_Format[OF y this] show ?thesis
    by (auto simp: reads_as_def parseTimeParam_def FormatRFC3339_def)
qed

lemma sample_line_time:
  assumes "plain_ms (Timestamp sm)"
  shows "\<exists>t. sample_line sm = ''  '' @ t @ ''  '' @ FormatFloat (Value sm) @ [CHR 0x0A] \<and> reads_as other t (Timestamp sm)"
  using FormatRFC3339_reads[OF assms] by (auto simp: sample_line_def)

lemma summary_lines_times:
  assumes "xs \<noteq> []" and "\<forall>sm \<in> set xs. plain_ms (Timestamp sm)"
  shows "\<exists>t1 t2. summary_lines xs =
      ''  first: '' @ t1 @ '' = '' @ FormatFloat (Value (hd xs)) @ [CHR 0x0A] @
      ''  last:  '' @ t2 @ '' = '' @ FormatFloat (Value (last xs)) @ [CHR 0x0A] \<and>
    reads_as other t1 (Timestamp (hd xs)) \<and> reads_as other t2 (Timestamp (last xs))"
  using assms FormatRFC3339_reads[of "Timestamp (hd xs)" other] FormatRFC3339_reads[of "Timestamp (last xs)" other]
  by (intro exI[of _ "FormatRFC3339 (Timestamp (hd xs))"] exI[of _ "FormatRFC3339 (Timestamp (last xs))"])
    (simp add: summary_lines_def)

lemma header_times:
  assumes "plain_ms (MinTime meta)" and "plain_ms (MaxTime meta)"
  shows "\<exists>t1 t2. inspect_header partDir meta = unlines
      [''part: '' @ partDir,
       ''tier: '' @ Tier meta @ ''  encoding: '' @ (if Encoding meta = [] then ''raw'' else Encoding meta),
       ''time range: '' @ t1 @ '' .. '' @ t2,
       ''series: '' @ itoa (SeriesCount meta) @ ''  samples: '' @ itoa (SamplesCount meta)] \<and>
    reads_as other t1 (MinTime meta) \<and> reads_as other t2 (MaxTime meta)"
  using FormatRFC3339_reads[OF assms(1)] FormatRFC3339_reads[OF assms(2)] inspect_header_lines by blast

section \<open>Command lines\<close>

text \<open>Options written as flags, in the one form that works for all of them.\<close>

definition flag_args :: "inspect_options \<Rightarrow> string list" where
  "flag_args opt =
     [''-storageDataPath='' @ op_dataPath opt, ''-series='' @ dec_string (unat (op_series opt)),
      ''-samples='' @ (if op_samples opt then ''true'' else ''false''), ''-limit='' @ itoa (op_limit opt)]"

lemma ParseFlags_inspect:
  "ParseFlags inspect_flag v ((''-storageDataPath='' @ x) # args) = ParseFlags inspect_flag (v\<lparr>op_dataPath := x\<rparr>) args"
  "ParseFlags inspect_flag v ((''-series='' @ dec_string (unat sid)) # args) = ParseFlags inspect_flag (v\<lparr>op_series := sid\<rparr>) args"
  "ParseFlags inspect_flag v ((''-samples='' @ (if b then ''true'' else ''false'')) # args) =
     ParseFlags inspect_flag (v\<lparr>op_samples := b\<rparr>) args"
  "ParseFlags inspect_flag v ((''-limit='' @ itoa n) # args) = ParseFlags inspect_flag (v\<lparr>op_limit := n\<rparr>) args"
proof -
  show "ParseFlags inspect_flag v ((''-storageDataPath='' @ x) # args) = ParseFlags inspect_flag (v\<lparr>op_dataPath := x\<rparr>) args"
    using flag_word_value[of "''storageDataPath''" x] by (simp add: inspect_flag_def)
  have "ParseUint0 (dec_string (unat sid)) = Some (int (unat sid))"
    using unsigned_less[of sid] by (intro ParseUint0_dec_string) simp
  moreover have "word_of_int (int (unat sid)) = sid" by simp
  ultimately show "ParseFlags inspect_flag v ((''-series='' @ dec_string (unat sid)) # args) = ParseFlags inspect_flag (v\<lparr>op_series := sid\<rparr>) args"
    using flag_word_value[of "''series''" "dec_string (unat sid)"] by (simp only: inspect_flag_def ParseFlags.simps) simp
  show "ParseFlags inspect_flag v ((''-samples='' @ (if b then ''true'' else ''false'')) # args) =
     ParseFlags inspect_flag (v\<lparr>op_samples := b\<rparr>) args"
    using flag_word_value[of "''samples''" "if b then ''true'' else ''false''"] by (simp add: inspect_flag_def ParseBool_def)
  show "ParseFlags inspect_flag v ((''-limit='' @ itoa n) # args) = ParseFlags inspect_flag (v\<lparr>op_limit := n\<rparr>) args"
    using flag_word_value[of "''limit''" "itoa n"] by (simp add: inspect_flag_def ParseInt0_itoa)
qed

lemma ParseFlags_args:
  assumes "flag_word partDir = NotFlag"
  shows "ParseFlags inspect_flag inspect_defaults (flag_args opt @ [partDir]) = Inr (opt, [partDir])"
proof -
  have args: "flag_args opt @ [partDir] =
    (''-storageDataPath='' @ op_dataPath opt) # (''-series='' @ dec_string (unat (op_series opt))) #
    (''-samples='' @ (if op_samples opt then ''true'' else ''false'')) # (''-limit='' @ itoa (op_limit opt)) # [partDir]"
    by (simp add: flag_args_def)
  show ?thesis
    unfolding args ParseFlags_inspect using assms by (cases opt) (simp add: inspect_defaults_def)
qed

lemma mmctl_inspect:
  assumes "flag_word partDir = NotFlag"
  shows "mmctl printable cwd (''inspect'' # flag_args opt @ [partDir]) w =
    (case inspect_part printable cwd opt partDir w of
       (Inl e, w) \<Rightarrow> (if is_panic e then 2 else 1, [], w)
     | (Inr text, w) \<Rightarrow> (0, text, w))"
  by (simp add: mmctl_def runInspect_def ParseFlags_args[OF assms] io_bind_def io_lift_def)

lemma mmctl_late_flags:
  assumes "flag_word partDir = NotFlag" and "args \<noteq> []"
  shows "mmctl printable cwd (''inspect'' # partDir # args) w = (1, [], w)"
  using assms by (cases args) (simp_all add: mmctl_def runInspect_def io_bind_def io_lift_def io_fail_def)

section \<open>The registry the tool loads\<close>

text \<open>Without index files the registry is a new one, and nothing is written.\<close>

lemma LoadRegistry_missing:
  assumes ok: "healthy w"
    and "lookup (w_fs w) (indexdb_dir path) = None" and "missing_err (w_fs w) (indexdb_dir path) = ErrNotExist"
    and "lookup (w_fs w) (path @ [seriesDir, invertedDir]) = None"
    and "missing_err (w_fs w) (path @ [seriesDir, invertedDir]) = ErrNotExist"
  shows "\<exists>w1. LoadRegistry path w = (Inr NewRegistry, w1) \<and> w_fs w1 = w_fs w \<and> env_same w w1"
proof -
  have quiet: "w_clock w \<le> n \<Longrightarrow> w_fault w n = NoFault" for n using ok by (simp add: healthy_def)
  show ?thesis
    using assms(2-5) quiet
    by (auto simp: LoadRegistry_def loadRegistry_def replay_segments_def listIndexSegments_def loadInverted_def
        readDir_def sys_run io_bind_def io_return_def env_same_def)
qed

text \<open>
  Loading the registry is not read-only: it removes the temporary segments it finds, as a server
  does when it starts. Another process may be about to publish them.
\<close>

lemma LoadRegistry_removes_tmp:
  "let tmp = indexdb_dir [''data''] @ [''000001.seg.tmp''];
       w = quiet_world [([''data''], Dir), ([''data'', seriesDir], Dir), (indexdb_dir [''data''], Dir), (tmp, File (Bytes []))]
   in lookup (w_fs w) tmp = Some (File (Bytes [])) \<and>
      lookup (w_fs (snd (LoadRegistry [''data''] w))) tmp = None \<and>
      fst (rename tmp (indexdb_dir [''data''] @ [''000001.seg'']) (snd (LoadRegistry [''data''] w))) = Inl ErrNotExist"
  by code_simp

end
