(* ===== verification/ServerMain.thy ===== *)
theory ServerMain
  imports Daemon GoFlag Mmctl
begin

text \<open>
  The command line of the server: \<open>main\<close> of \<open>cmd/marchimetrics/main.go\<close> from its flags to the
  point where it serves, with \<open>time.ParseDuration\<close>, which reads the flush interval.
\<close>

section \<open>Durations\<close>

text \<open>Nanoseconds in the units \<open>ParseDuration\<close> knows; both micro signs are two bytes.\<close>

definition unit_ns :: "string \<Rightarrow> int option" where
  "unit_ns u =
     (if u = ''ns'' then Some 1
      else if u = ''us'' \<or> u = [CHR 0xC2, CHR 0xB5, CHR ''s''] \<or> u = [CHR 0xCE, CHR 0xBC, CHR ''s''] then Some 1000
      else if u = ''ms'' then Some 1000000
      else if u = ''s'' then Some 1000000000
      else if u = ''m'' then Some 60000000000
      else if u = ''h'' then Some 3600000000000
      else None)"

fun leadingInt :: "int \<Rightarrow> string \<Rightarrow> (int \<times> string) option" where
  "leadingInt x [] = Some (x, [])"
| "leadingInt x (c # s) =
     (case digit_val c of None \<Rightarrow> Some (x, c # s)
      | Some d \<Rightarrow>
          if 2 ^ 63 div 10 < x \<or> 2 ^ 63 < x * 10 + int d then None else leadingInt (x * 10 + int d) s)"

text \<open>Digits after the point, as numerator and scale, until they overflow; the rest is skipped.\<close>

fun leadingFraction :: "int \<Rightarrow> int \<Rightarrow> bool \<Rightarrow> string \<Rightarrow> int \<times> int \<times> string" where
  "leadingFraction x scale ovf [] = (x, scale, [])"
| "leadingFraction x scale ovf (c # s) =
     (case digit_val c of None \<Rightarrow> (x, scale, c # s)
      | Some d \<Rightarrow>
          if ovf \<or> (2 ^ 63 - 1) div 10 < x \<or> 2 ^ 63 < x * 10 + int d then leadingFraction x scale True s
          else leadingFraction (x * 10 + int d) (scale * 10) False s)"

text \<open>\<open>uint64(float64(f) * (float64(unit) / scale))\<close>\<close>

definition float_mul :: "float64 \<Rightarrow> float64 \<Rightarrow> float64" where
  "float_mul a b =
     (let e = float_exp a + float_exp b in
      round_ratio (float_neg a \<noteq> float_neg b) (float_mant a * float_mant b * 2 ^ nat e) (2 ^ nat (- e)))"

definition fraction_ns :: "int \<Rightarrow> int \<Rightarrow> int \<Rightarrow> int" where
  "fraction_ns f scale u = float_trunc (float_mul (round_ratio False f 1) (round_ratio False u scale))"

definition unit_char :: "char \<Rightarrow> bool" where
  "unit_char c \<longleftrightarrow> c \<noteq> CHR ''.'' \<and> digit_val c = None"

text \<open>One round of the loop: the nanoseconds of a number with its unit, and the rest.\<close>

definition duration_term :: "string \<Rightarrow> (int \<times> string) option" where
  "duration_term s =
     (case leadingInt 0 s of None \<Rightarrow> None
      | Some (v, s1) \<Rightarrow>
          (let pre = (s1 \<noteq> s);
               dot = (s1 \<noteq> [] \<and> hd s1 = CHR ''.'');
               (f, scale, s2) = (if dot then leadingFraction 0 1 False (tl s1) else (0, 1, s1));
               post = (dot \<and> s2 \<noteq> tl s1);
               u = takeWhile unit_char s2; s3 = dropWhile unit_char s2
           in if \<not> pre \<and> \<not> post \<or> u = [] then None
              else
                (case unit_ns u of None \<Rightarrow> None
                 | Some ns \<Rightarrow>
                     if 2 ^ 63 div ns < v then None
                     else
                       (let v = v * ns + (if 0 < f then fraction_ns f scale ns else 0) in
                        if 2 ^ 63 < v then None else Some (v, s3)))))"

text \<open>A round that succeeds uses up at least the unit.\<close>

lemma leadingInt_length: "leadingInt x s = Some (v, s1) \<Longrightarrow> length s1 \<le> length s"
proof (induction s arbitrary: x)
  case (Cons c s)
  then show ?case by (fastforce split: option.splits if_splits)
qed simp

lemma leadingFraction_length: "leadingFraction x k ovf s = (f, scale, s1) \<Longrightarrow> length s1 \<le> length s"
proof (induction s arbitrary: x k ovf)
  case (Cons c s)
  then show ?case by (fastforce split: option.splits if_splits)
qed simp

lemma duration_term_length: "duration_term s = Some (v, t) \<Longrightarrow> length t < length s"
proof -
  assume t: "duration_term s = Some (v, t)"
  obtain v1 s1 where s1: "leadingInt 0 s = Some (v1, s1)"
    using t by (auto simp: duration_term_def split: option.splits)
  let ?dot = "s1 \<noteq> [] \<and> hd s1 = CHR ''.''"
  obtain f scale s2 where s2: "(if ?dot then leadingFraction 0 1 False (tl s1) else (0, 1, s1)) = (f, scale, s2)"
    by (metis prod_cases3)
  have "length s2 \<le> length s1"
    using s2 leadingFraction_length[of 0 1 False "tl s1" f scale s2] by (auto split: if_splits)
  moreover have "t = dropWhile unit_char s2" and "takeWhile unit_char s2 \<noteq> []"
    using t s1 s2 by (auto simp: duration_term_def Let_def split: option.splits if_splits)
  moreover have "length (dropWhile unit_char s2) < length s2" if "takeWhile unit_char s2 \<noteq> []"
    using that takeWhile_dropWhile_id[of unit_char s2] by (metis length_append length_greater_0_conv less_add_same_cancel2)
  ultimately show ?thesis using leadingInt_length[OF s1] by simp
qed

function duration_sum :: "int \<Rightarrow> string \<Rightarrow> int option" where
  "duration_sum d s =
     (if s = [] then Some d
      else
        (case duration_term s of None \<Rightarrow> None
         | Some (v, t) \<Rightarrow> if 2 ^ 63 < d + v then None else duration_sum (d + v) t))"
  by auto
termination
  by (relation "measure (\<lambda>(d, s). length s)") (auto dest: duration_term_length)

declare duration_sum.simps [simp del]

definition ParseDuration :: "string \<Rightarrow> int option" where
  "ParseDuration s0 =
     (case strip_sign s0 of (neg, s) \<Rightarrow>
        if s = ''0'' then Some 0
        else if s = [] then None
        else
          (case duration_sum 0 s of None \<Rightarrow> None
           | Some d \<Rightarrow> if neg then Some (- d) else if 2 ^ 63 - 1 < d then None else Some d))"

text \<open>Whole seconds are read exactly, as long as their nanoseconds fit an \<open>int64\<close>.\<close>

lemma leadingInt_append:
  assumes "leadingInt x s = Some (v, [])" and "t \<noteq> []" and "digit_val (hd t) = None"
  shows "leadingInt x (s @ t) = Some (v, t)"
  using assms
proof (induction s arbitrary: x)
  case Nil
  then show ?case by (cases t) simp_all
next
  case (Cons c s)
  then show ?case by (auto split: option.splits if_splits)
qed

lemma leadingInt_snoc:
  assumes "leadingInt x s = Some (v, [])" and "digit_val c = Some d" and "v * 10 + int d \<le> 2 ^ 63" and "v \<le> 2 ^ 63 div 10"
  shows "leadingInt x (s @ [c]) = Some (v * 10 + int d, [])"
  using assms
proof (induction s arbitrary: x)
  case (Cons c' s)
  then show ?case by (auto split: option.splits if_splits)
qed simp

lemma leadingInt_dec_string: "int n < 2 ^ 63 \<Longrightarrow> leadingInt 0 (dec_string n) = Some (int n, [])"
proof (induction n rule: dec_string.induct)
  case (1 n)
  show ?case
  proof (cases "n < 10")
    case True
    then show ?thesis by (subst dec_string.simps) simp
  next
    case False
    have eq: "int (n div 10) * 10 + int (n mod 10) = int n" by (simp add: zdiv_int zmod_int)
    have "int (n div 10) \<le> int n" by simp
    with 1 False have ih: "leadingInt 0 (dec_string (n div 10)) = Some (int (n div 10), [])" by simp
    have "int (n div 10) \<le> 2 ^ 63 div 10" using "1.prems" by (simp add: zdiv_int)
    from leadingInt_snoc[OF ih digit_val_digit_char _ this, of "n mod 10"] show ?thesis
      using False "1.prems" eq by (subst dec_string.simps) simp
  qed
qed

lemma ParseDuration_seconds:
  assumes "int n * 1000000000 < 2 ^ 63"
  shows "ParseDuration (dec_string n @ ''s'') = Some (int n * 1000000000)"
proof -
  have d: "digit_val CHR ''s'' = None" by (simp add: digit_val_def)
  have lead: "leadingInt 0 (dec_string n @ ''s'') = Some (int n, ''s'')"
    using leadingInt_append[OF leadingInt_dec_string, of n "''s''"] assms d by simp
  have ns: "unit_ns ''s'' = Some 1000000000" by (simp add: unit_ns_def)
  have "dec_string n @ ''s'' \<noteq> ''s''" by simp
  then have step: "duration_term (dec_string n @ ''s'') = Some (int n * 1000000000, [])"
    using lead ns assms by (simp add: duration_term_def unit_char_def d)
  have stop: "duration_sum k [] = Some k" for k by (subst duration_sum.simps) simp
  have whole: "duration_sum 0 (dec_string n @ ''s'') = Some (int n * 1000000000)"
    using step assms by (subst duration_sum.simps) (simp add: stop)
  have "digit_val (hd (dec_string n)) \<noteq> None"
    using is_digits_dec_string[of n] by (simp add: is_digits_def)
  moreover have "digit_val CHR ''-'' = None" "digit_val CHR ''+'' = None" by (simp_all add: digit_val_def)
  ultimately have "strip_sign (dec_string n @ ''s'') = (False, dec_string n @ ''s'')"
    by (cases "dec_string n") (auto simp: strip_sign_def)
  moreover have "dec_string n @ ''s'' \<noteq> ''0''" using append_eq_Cons_conv by fastforce
  ultimately show ?thesis using whole assms by (simp add: ParseDuration_def)
qed

section \<open>Flags\<close>

record server_options =
  so_listen :: string  \<comment> \<open>\<open>-httpListenAddr\<close>\<close>
  so_dataPath :: string  \<comment> \<open>\<open>-storageDataPath\<close>\<close>
  so_flushInterval :: int  \<comment> \<open>\<open>-inmemoryDataFlushInterval\<close>, nanoseconds\<close>
  so_mergeThreshold :: int  \<comment> \<open>\<open>-smallPartsMergeThreshold\<close>\<close>
  so_retentionPeriod :: string  \<comment> \<open>\<open>-retentionPeriod\<close>\<close>

definition server_defaults :: server_options where
  "server_defaults =
     \<lparr>so_listen = '':8428'', so_dataPath = ''marchimetrics-data'', so_flushInterval = 5 * 1000000000,
      so_mergeThreshold = 3, so_retentionPeriod = ''0''\<rparr>"

definition server_flag :: "string \<Rightarrow> server_options flag option" where
  "server_flag nm =
     (if nm = ''httpListenAddr'' then Some (ValueFlag (\<lambda>x opt. Some (opt\<lparr>so_listen := x\<rparr>)))
      else if nm = ''storageDataPath'' then Some (ValueFlag (\<lambda>x opt. Some (opt\<lparr>so_dataPath := x\<rparr>)))
      else if nm = ''inmemoryDataFlushInterval'' then
        Some (ValueFlag (\<lambda>x opt. map_option (\<lambda>n. opt\<lparr>so_flushInterval := n\<rparr>) (ParseDuration x)))
      else if nm = ''smallPartsMergeThreshold'' then
        Some (ValueFlag (\<lambda>x opt. map_option (\<lambda>n. opt\<lparr>so_mergeThreshold := n\<rparr>) (ParseInt0 x)))
      else if nm = ''retentionPeriod'' then Some (ValueFlag (\<lambda>x opt. Some (opt\<lparr>so_retentionPeriod := x\<rparr>)))
      else None)"

section \<open>Start\<close>

text \<open>
  How \<open>main\<close> begins: it exits with a code, or it serves from a handle; in between,
  \<open>time.NewTicker\<close> of the flush loop panics on an interval that is not positive, and the panic of
  a goroutine ends the process.
\<close>

datatype server_start =
    Exits nat
  | Crashes
  | Serves storage

definition server_main :: "path \<Rightarrow> string list \<Rightarrow> disk \<Rightarrow> server_start \<times> disk" where
  "server_main cwd args w =
     (case ParseFlags server_flag server_defaults args of
        Inl e \<Rightarrow> (Exits (if e = ErrMsg ''flag: help requested'' then 0 else 2), w)
      | Inr (opt, _) \<Rightarrow>
          (case startup (resolve cwd (so_dataPath opt)) (so_mergeThreshold opt) (so_retentionPeriod opt) w of
             (Inl e, w) \<Rightarrow> (Exits (if is_panic e then 2 else 1), w)
           | (Inr s, w) \<Rightarrow> (if so_flushInterval opt \<le> 0 then Crashes else Serves s, w)))"

lemma startup_path:
  assumes "startup path threshold period w = (Inr s, w')"
  shows "s_path s = path"
proof -
  have "s_path st = path" if "Open path v = (Inr st, v')" for v st v'
    using that by (auto simp: Open_def new_storage_def io_bind_def io_return_def split: prod.splits sum.splits)
  then show ?thesis
    using assms by (auto simp: startup_def io_bind_def io_lift_def io_return_def split: prod.splits sum.splits)
qed

lemma server_main_startup:
  assumes "server_main cwd args w = (Serves s, w')"
  shows "\<exists>threshold period. startup (s_path s) threshold period w = (Inr s, w')"
proof -
  obtain path threshold period where "startup path threshold period w = (Inr s, w')"
    using assms by (auto simp: server_main_def split: sum.splits prod.splits if_splits)
  with startup_path[OF this] show ?thesis by blast
qed

lemma server_main_default:
  "server_main cwd [] w =
    (case startup (resolve cwd ''marchimetrics-data'') 3 ''0'' w of
       (Inl e, w) \<Rightarrow> (Exits (if is_panic e then 2 else 1), w) | (Inr s, w) \<Rightarrow> (Serves s, w))"
  by (simp add: server_main_def server_defaults_def split: sum.splits prod.splits)

text \<open>An interval of zero, which reads like a way to switch the flush loop off, ends the process.\<close>

lemma zero_interval_crashes:
  assumes "startup (resolve cwd ''marchimetrics-data'') 3 ''0'' w = (Inr s, w')"
  shows "server_main cwd [''-inmemoryDataFlushInterval=0''] w = (Crashes, w')"
proof -
  have "flag_word ''-inmemoryDataFlushInterval=0'' = FlagWord ''inmemoryDataFlushInterval'' (Some ''0'')"
    using flag_word_value[of "''inmemoryDataFlushInterval''" "''0''"] by simp
  moreover have "ParseDuration ''0'' = Some 0" by (simp add: ParseDuration_def strip_sign_def)
  ultimately show ?thesis using assms by (simp add: server_main_def server_flag_def server_defaults_def)
qed

end
