(* ===== verification/Spec2Isabelle.thy ===== *)
theory Spec2Isabelle
  imports TimestampCodec ValueCodec IndexDB Progress HttpSpec TimeParams Mmctl ServerMain
begin

text \<open>
  Marchimetrics, a small time-series database: a storage engine (\<open>src/storage\<close>), the server that
  puts it behind HTTP (\<open>src/cmd/marchimetrics\<close>) and an inspection tool (\<open>src/cmd/mmctl\<close>).

  The program. A series is a set of labels; the registry gives every label set one ID, by its
  canonical key, and indexes the IDs by label and day. \<open>Append\<close> puts samples into a buffer.
  \<open>Flush\<close> writes the new series as a segment of the forward index, then for every day of the
  buffer a segment of that day's inverted index and one immutable part into the day's
  partition; a part is four files, the blocks of its series compressed one by one. A manifest
  names the live parts of a partition. Once a partition has enough small parts they are merged into
  a big one. \<open>QueryRange\<close> selects series by the index and merges parts and buffer. \<open>Open\<close>
  rebuilds the handle from the files. Retention drops whole days. The server decodes requests,
  calls these operations and runs flush and retention on timers.

  The theories, in the order of the code they model:

  \<^item> \<open>Prelude\<close>: machine integers (\<open>uint64\<close> and \<open>int64\<close> are 64-bit words, \<open>int\<close> is an integer
    wrapped by \<open>goint\<close>), errors as values of a sum with panics among them, Go maps as association
    lists. \<open>Codec\<close>: the contracts of self-delimiting readers and of block codecs, as locales.
    \<open>Decimal\<close>, \<open>Calendar\<close>: \<open>strconv\<close> for integers, the proleptic Gregorian calendar of \<open>time\<close>.
  \<^item> \<open>Varint\<close>, \<open>TimestampCodec\<close>, \<open>BitStream\<close>, \<open>ValueCodec\<close>: \<open>encode.go\<close>. The bit writer and
    reader implement lists of bits (locales \<open>bit_sink\<close>, \<open>bit_source\<close>), the value encoder
    implements the Gorilla scheme on those lists, and both blocks are block codecs. A \<open>float64\<close>
    is its bit pattern throughout.
  \<^item> \<open>Series\<close>: \<open>series.go\<close>, keys and registry. \<open>IndexDB\<close>: the bytes of a segment of
    \<open>indexdb.go\<close>, built from interpretations of the codec contract, and the numbering of segments.
  \<^item> \<open>FileSystem\<close>, \<open>FileLogic\<close>: the \<open>os\<close> calls the engine makes, over a tree of files, and the
    rules to reason about them. \<open>IndexFiles\<close>: the file operations of \<open>indexdb.go\<close>.
  \<^item> \<open>Part\<close>, \<open>PartStore\<close>, \<open>PartWrite\<close>: \<open>part.go\<close>; both encodings satisfy one contract
    (locale \<open>series_encoding\<close>). \<open>Partition\<close>: \<open>partition.go\<close> and \<open>manifest.go\<close>. \<open>Compaction\<close>:
    \<open>compaction.go\<close>.
  \<^item> \<open>Storage\<close>: the handle and all operations of \<open>storage.go\<close>. \<open>Query\<close>: \<open>QueryRange\<close> of
    \<open>query.go\<close> and \<open>retention.go\<close>. Proved about them: \<open>StorageInv\<close> states the invariant of
    handle and disk, with ghost data for what lies in the files; \<open>FlushProof\<close>, \<open>FlushSteps\<close>,
    \<open>FlushTop\<close> and \<open>FlushOutcome\<close> follow a flush through every failure; \<open>StorageOps\<close>,
    \<open>QuerySpec\<close>, \<open>RetentionSpec\<close> and \<open>Recovery\<close> do so for appending, merging, querying,
    expiring and opening; \<open>Refinement\<close> puts them together as a simulation (locale \<open>simulation\<close>)
    of the plain map from label sets to multisets of samples; \<open>Progress\<close> counts the parts a
    compaction leaves, and shows what a failed flush leaves.
  \<^item> \<open>GoStrings\<close>, \<open>Quote\<close>, \<open>Selector\<close>: the query language of \<open>query.go\<close>, on bytes, with
    the parts of \<open>strings\<close>, \<open>unicode/utf8\<close> and \<open>strconv\<close> it uses. \<open>GoTime\<close>, \<open>GoFloat\<close>,
    \<open>FloatFormat\<close>: RFC 3339, \<open>ParseFloat\<close> with its exact rounding, the shortest \<open>%g\<close>.
  \<^item> \<open>Http\<close>: the handlers and routes of \<open>http.go\<close> and \<open>remote_write.go\<close>, with what \<open>ServeMux\<close>
    answers for unclean and unknown paths and the headers \<open>http.Error\<close> sets; \<open>TimeParams\<close> is about
    time parameters. \<open>Daemon\<close>, \<open>ServerMain\<close>: \<open>main.go\<close> from its flags up to the loops, and the loops. \<open>HttpSpec\<close>: the
    server as a client of the engine, so that its runs are runs of \<open>Refinement\<close>, and what a request
    carries (\<open>request_batch\<close>) and an answer shows (\<open>shows_result\<close>), stated without the handlers.
    \<open>Mmctl\<close>: \<open>mmctl inspect\<close> from its command line (\<open>GoFlag\<close> has the \<open>flag\<close> package) to its output,
    with that output as a list of lines (\<open>report_lines\<close>).
  \<^item> This theory: the properties C1 to C40 and their instances on concrete inputs.

  Failures. Every system call draws its fate from \<open>w_fault\<close>, an arbitrary function of the time:
  it may fail, tear a write after any byte, or leave any part of a tree that is to be removed.
  The order of \<open>range\<close> over a map and of equal elements in an unstable sort comes from \<open>w_perm\<close>,
  arbitrary as well (\<open>shuffle\<close>). So what is proved of a run holds whatever fails and whatever
  order the runtime picks. \<open>healthy\<close> worlds do not fail.

  Bounds. Slices are allocated up to \<open>2 ^ 48\<close> bytes, beyond which Go panics (\<open>makeslice_ok\<close>);
  the hypotheses \<open>part_fits\<close>, \<open>flush_room\<close>, \<open>merge_room\<close> and \<open>request_room\<close> ask that buffer and
  partitions stay below it, and part numbers below \<open>2 ^ 62\<close> and segment numbers below \<open>10 ^ 6\<close>.
  Windows and day names are compared as strings by the code, which agrees with time for the
  years 0 to 9999 (\<open>plain_ms\<close>). The runs of \<open>Refinement\<close> and \<open>HttpSpec\<close> have retention passes only
  when the buffer holds no sample of an expired day, since the code loses sight of such samples
  (\<open>RetentionSpec\<close>). No function takes fuel: each loop is a fold, a structural
  recursion or a recursion with a measure.

  Parameters, for code that is not part of the repository: the decoders of request bodies
  (\<open>json\<close>, snappy and protobuf, in the record \<open>codecs\<close>), the table of printable runes
  (\<open>strconv.IsPrint\<close>), and what \<open>int64\<close> makes of a \<open>float64\<close> that does not fit. A JSON file
  of the engine holds the marshalled value itself.

  Not modelled. Concurrency: every method, or critical section under the locks it takes, is one
  step; a query that runs while a flush is between its critical sections is outside the model.
  Goroutines and tickers appear as the sequence of ticks they deliver. The server's
  listener, signals and logging, and what \<open>mmctl\<close> writes to standard error, are input and
  output around the modelled calls; the JSON text of a response is the value handed to the encoder, and an error keeps its
  kind and fixed text but not the values printed into it. \<open>fsync\<close> has no effect of its own: a
  crash leaves what the calls before it have written. The getters \<open>Path\<close> and \<open>Registry\<close> return
  a field.
\<close>


section \<open>The database\<close>

text \<open>A new directory on a healthy disk, and a handle with two samples of two days in its buffer.\<close>

definition demo_disk :: disk where
  "demo_disk = quiet_world []"

definition demo_root :: disk where
  "demo_root = quiet_world [([''db''], Dir), ([''db'', ''partitions''], Dir), ([''db'', ''series''], Dir)]"

definition demo_labels :: "Label list" where
  "demo_labels = [Label ''__name__'' ''up'', Label ''job'' ''api'']"

definition demo_samples :: "Sample list" where
  "demo_samples = [\<lparr>Timestamp = 86400000, Value = 7\<rparr>, \<lparr>Timestamp = 1000, Value = 5\<rparr>]"

definition demo_filled :: storage where
  "demo_filled = snd (Append (new_storage [''db'']) demo_labels demo_samples)"

lemma demo_fresh: "fresh_dir (w_fs demo_disk) [''db'']"
  by (simp add: fresh_dir_def demo_disk_def lookup_def prefix_Cons)

lemma demo_healthy: "healthy demo_disk"
  by (simp add: demo_disk_def)

lemma demo_open: "\<exists>w. Open [''db''] demo_disk = (Inr (new_storage [''db'']), w)"
proof -
  have "fst (Open [''db''] (quiet_world [])) = Inr (new_storage [''db''])" by code_simp
  then show ?thesis by (metis demo_disk_def prod.collapse)
qed

lemma demo_append:
  "Append (new_storage [''db'']) demo_labels demo_samples = (fst (Append (new_storage [''db'']) demo_labels demo_samples), demo_filled)"
  by (simp add: demo_filled_def)

lemma demo_labels_fit: "labels_fit demo_labels"
  by (simp add: labels_fit_def demo_labels_def label_ok_def string_ok_def)

lemma demo_root_fresh: "fresh_dir (w_fs demo_root) [''db'']"
proof -
  have "lookup (w_fs demo_root) ([''db''] @ q) = None" if "1 < length q" for q
    using that by (auto simp: demo_root_def lookup_def)
  then show ?thesis by (auto simp: fresh_dir_def demo_root_def lookup_def prefix_Cons)
qed

lemma demo_root_dirs: "dirs_to (w_fs demo_root) [''db'', partitionsDir]" "dirs_to (w_fs demo_root) [''db'', seriesDir]"
  by (auto simp: dirs_to_def demo_root_def lookup_def prefix_Cons partitionsDir_def seriesDir_def)

lemma demo_new: "storage_inv (w_fs demo_root) (new_storage [''db'']) no_ghost"
  using new_storage_inv(1)[OF demo_root_fresh] demo_root_dirs by simp

lemma demo_mem: "\<exists>sid. s_mem demo_filled = [(sid, demo_samples)] \<and> s_partitions demo_filled = []"
  by (simp add: demo_filled_def Append_def Let_def new_storage_def demo_samples_def gm_get_def split: prod.splits)

lemma demo_filled_inv:
  obtains g where "storage_inv (w_fs demo_root) demo_filled g" and "flush_room demo_filled g" and "merge_room demo_filled g"
    and "\<forall>sid. disk_samples demo_filled g sid = {#}"
proof -
  have ne: "demo_samples \<noteq> []" by (simp add: demo_samples_def)
  have room: "nextID (s_registry (new_storage [''db''])) + 1 \<noteq> 0" by (simp add: new_storage_def NewRegistry_def)
  obtain g where g: "storage_inv (w_fs demo_root) demo_filled g"
    and ds: "\<forall>i. disk_samples demo_filled g i = disk_samples (new_storage [''db'']) no_ghost i"
    and gh: "g_fwd g = g_fwd no_ghost" "g_inv g = g_inv no_ghost"
    by (rule Append_step[OF demo_new demo_labels_fit room ne demo_append])
  obtain sid where mem: "s_mem demo_filled = [(sid, demo_samples)]" "s_partitions demo_filled = []" using demo_mem by blast
  have "data_room (s_mem demo_filled) \<le> 2 ^ 48" by (simp add: mem data_room_def block_room_def demo_samples_def)
  then have "flush_room demo_filled g" using gh by (simp add: flush_room_def seg_room_def mem no_ghost_def)
  moreover have "merge_room demo_filled g" by (simp add: merge_room_def mem)
  ultimately show thesis using that[OF g] ds by (simp add: disk_samples_def new_storage_def)
qed

text \<open>
  C1: Buffer, day partitions, parts, manifests and index segments implement the plain map from label
  sets to multisets of samples: after any run of operations that starts in a new directory, the handle and
  its files hold for every label set what the same run gives on the map, where only \<open>Ingest\<close> and
  \<open>Expire\<close> change anything. The runs are those of \<open>db_step\<close>: flushes, restarts and retention
  passes succeed (merges and queries may fail); when a retention pass runs, the buffer holds no
  sample of a day that it expires (without this the samples are hidden, C26); label sets and sizes
  fit (\<open>labels_fit\<close>, \<open>flush_room\<close>, \<open>merge_room\<close>, \<open>reopenable\<close>), and the windows of queries lie
  in the years 0 to 9999.
\<close>

theorem database_refinement:
  assumes "fresh_dir (w_fs w0) path" and "Open path w0 = (Inr s, w)" and "steps db_step (s, w) es c"
  shows "implements c (foldl spec_step (\<lambda>_. {#}) es)"
  by (rule db_run[OF assms])

theorem database_refinement_witness:
  "\<exists>w. Open [''db''] demo_disk = (Inr (new_storage [''db'']), w) \<and>
     implements (demo_filled, w) (foldl spec_step (\<lambda>_. {#}) [Ingest demo_labels demo_samples, MergeParts])"
proof -
  obtain w where op: "Open [''db''] demo_disk = (Inr (new_storage [''db'']), w)" using demo_open by blast
  have parts: "s_partitions demo_filled = []" using demo_mem by blast
  have fm: "ForceMerge demo_filled w = (Inr (), demo_filled, w)" unfolding ForceMerge_def parts shuffle_empty by simp
  have "db_step (demo_filled, w) MergeParts (demo_filled, w)"
    by (rule db_step.merge[OF _ fm]) (simp add: merge_room_def parts)
  moreover have "db_step (new_storage [''db''], w) (Ingest demo_labels demo_samples) (demo_filled, w)"
  proof (rule db_step.ingest[OF _ demo_labels_fit _ demo_append])
    show "demo_samples \<noteq> []" by (simp add: demo_samples_def)
    show "nextID (s_registry (new_storage [''db''])) + 1 \<noteq> 0" by (simp add: new_storage_def NewRegistry_def)
  qed
  ultimately have run: "steps db_step (new_storage [''db''], w) [Ingest demo_labels demo_samples, MergeParts] (demo_filled, w)"
    by (meson steps.intros)
  show ?thesis by (intro exI conjI, rule op, rule database_refinement[OF demo_fresh op run])
qed





text \<open>
  C4: What a flush has written, \<open>Open\<close> reads back: the new handle knows the same series by the same
  IDs and holds exactly the samples of the partitions of the old one; leftovers of earlier failures
  (staging directories, orphaned parts, temporary segments) do not matter. Only a failing system
  call can keep it from opening.
\<close>

theorem reopen_recovers:
  assumes "storage_inv (w_fs w) s g" and "all_synced (w_fs w) s" and "reopenable s g"
    and "pending (s_registry s) = []" and "Open (s_path s) w = (r, w')"
  shows "(\<exists>s' g'. r = Inr s' \<and> storage_inv (w_fs w') s' g' \<and> all_synced (w_fs w') s' \<and> s_mem s' = [] \<and>
      map_of (names (s_registry s')) = map_of (names (s_registry s)) \<and>
      (\<forall>sid. contents s' g' sid = disk_samples s g sid)) \<or> (r = Inl ErrIO \<and> \<not> healthy w)"
  by (rule Open_after_Flush[OF assms])

theorem reopen_recovers_witness:
  "\<exists>s' w'. Open [''db''] demo_root = (Inr s', w') \<and> s_mem s' = []"
proof -
  obtain r w' where run: "Open [''db''] demo_root = (r, w')" by fastforce
  have path: "s_path (new_storage [''db'']) = [''db'']" by (simp add: new_storage_def)
  have "all_synced (w_fs demo_root) (new_storage [''db''])" "reopenable (new_storage [''db'']) no_ghost"
    "pending (s_registry (new_storage [''db''])) = []"
    by (simp_all add: all_synced_def reopenable_def new_storage_def NewRegistry_def)
  from reopen_recovers[OF demo_new this, unfolded path, OF run] show ?thesis using run by (auto simp: demo_root_def)
qed

text \<open>
  C5: On a healthy disk \<open>Open\<close> returns a handle for every directory whose files have the format,
  whether it is new, was closed, or was left behind by a crash: the handle holds the parts that the
  manifests list and the series that the forward segments hold.
\<close>

theorem open_succeeds:
  assumes "disk_image (w_fs w) path g P" and "recoverable g P N" and "healthy w"
  shows "\<exists>s. fst (Open path w) = Inr s \<and> recovered (w_fs (snd (Open path w))) path g P N s"
  using Open_recovers[OF assms(1,2), of "fst (Open path w)" "snd (Open path w)"] assms(3) by simp

theorem open_succeeds_witness:
  "\<exists>s. fst (Open [''db''] demo_disk) = Inr s"
  using open_succeeds[OF fresh_image[OF demo_fresh] fresh_recoverable demo_healthy] by blast

text \<open>
  C6: A retention pass drops exactly the day partitions that have expired: what is left of every series
  are its samples of the other days, every series keeps its identity, and the files stay
  consistent. A day has expired when it is more than \<open>days\<close> days before today; the last conjunct
  says so in integers, for times of the years 0 to 9999. The buffer must hold no sample of an
  expired day: C26 shows what happens to such samples.
\<close>

theorem retention_exact:
  assumes "storage_inv (w_fs w) s g"
    and "\<forall>sid. \<forall>sm \<in> set (gm_get (s_mem s) sid). \<not> expired days nowMs (dayString (Timestamp sm))"
    and "ApplyRetention s days nowMs w = (r, s', w')"
  shows "(r = Inr () \<and> (\<exists>g'. storage_inv (w_fs w') s' g' \<and> env_same w w' \<and>
      (all_synced (w_fs w) s \<longrightarrow> all_synced (w_fs w') s') \<and>
      names (s_registry s') = names (s_registry s) \<and>
      (\<forall>day. map_of (s_partitions s') day = (if expired days nowMs day then None else map_of (s_partitions s) day)) \<and>
      (\<forall>sid. contents s' g' sid = current_samples days nowMs (contents s g sid)) \<and>
      (\<forall>sid. \<forall>sm \<in># contents s g sid. 0 < days \<and> plain_ms (Timestamp sm) \<and>
         - 62167219200000 \<le> sint nowMs - days * 86400000 \<and> sint nowMs - days * 86400000 < 253402300800000 \<longrightarrow>
         (sm \<in># contents s' g' sid \<longleftrightarrow> sint nowMs div 86400000 - days \<le> sint (Timestamp sm) div 86400000)))) \<or>
    (r = Inl ErrIO \<and> \<not> healthy w)"
  using ApplyRetention_correct[OF assms] expired_iff[of nowMs days]
  by (fastforce simp: current_samples_def not_less)

theorem retention_exact_witness:
  "\<exists>s' w'. ApplyRetention demo_filled 1 0 demo_root = (Inr (), s', w')"
proof -
  obtain r s' w' where run: "ApplyRetention demo_filled 1 0 demo_root = (r, s', w')" by (metis prod_cases3)
  obtain g where g: "storage_inv (w_fs demo_root) demo_filled g" using demo_filled_inv by blast
  obtain sid0 where mem: "s_mem demo_filled = [(sid0, demo_samples)]" using demo_mem by blast
  have "dayString 86400000 = ''19700102''" "dayString 1000 = ''19700101''" "dayString (- 86400000) = ''19691231''" by code_simp+
  then have "\<forall>sid. \<forall>sm \<in> set (gm_get (s_mem demo_filled) sid). \<not> expired 1 0 (dayString (Timestamp sm))"
    by (simp add: mem gm_get_def demo_samples_def expired_def)
  from retention_exact[OF g this run] show ?thesis using run by (auto simp: demo_root_def)
qed

text \<open>The same buffer, its series saved before, on a disk where every call fails.\<close>

definition demo_saved :: storage where
  "demo_saved = (new_storage [''db''])\<lparr>
     s_registry := NewRegistry\<lparr>nextID := 2, byKey := [(CanonicalKey demo_labels, 1)], names := [(1, demo_labels)]\<rparr>,
     s_mem := [(1, demo_samples)]\<rparr>"

definition demo_broken :: disk where
  "demo_broken = demo_root\<lparr>w_fault := \<lambda>_. Fail\<rparr>"

lemma demo_groups:
  "shuffle demo_broken 1 (group_by_day (shuffle demo_broken 0 (s_mem demo_saved))) =
     (''19700102'', [(1, [\<lparr>Timestamp = 86400000, Value = 7\<rparr>])]) # [(''19700101'', [(1, [\<lparr>Timestamp = 1000, Value = 5\<rparr>])])]"
proof -
  have sh: "shuffle demo_broken k xs = xs" for k and xs :: "'a list"
    by (simp add: shuffle_def demo_broken_def demo_root_def quiet_world_def Let_def map_nth)
  have "dayString 86400000 = ''19700102''" "dayString 1000 = ''19700101''" by code_simp+
  then show ?thesis unfolding sh by (simp add: demo_saved_def demo_samples_def group_by_day_def group_sample_def gm_get_def Let_def)
qed

lemma demo_index_fails:
  "\<exists>s1 w1. persistDayIndex (demo_saved\<lparr>s_mem := [], s_registry := (s_registry demo_saved)\<lparr>pending := []\<rparr>\<rparr>) ''19700102''
     [(1, [\<lparr>Timestamp = 86400000, Value = 7\<rparr>])] demo_broken = (Inl ErrIO, s1, w1)"
  by (simp add: persistDayIndex_def UnindexedIDs_def demo_saved_def NewRegistry_def gm_get_def Labels_def Let_def
      appendIndexSegment_def io_bind_def mkdirAll_def sys_def demo_broken_def demo_root_def quiet_world_def)

text \<open>
  C7: When the index of the first day cannot be written, \<open>Flush\<close> returns the error and puts only the
  samples of this day back into the buffer: those of all other days are dropped, although nothing of
  them has been written.
\<close>

theorem flush_error_keeps_one_day:
  assumes "pending (s_registry s) = []" and "gm_wf (s_mem s)"
    and "shuffle w 1 (group_by_day (shuffle w 0 (s_mem s))) = (day, data) # rest"
    and "persistDayIndex (s\<lparr>s_mem := [], s_registry := (s_registry s)\<lparr>pending := []\<rparr>\<rparr>) day data w = (Inl e, s1, w1)"
    and "\<not> is_panic e" and "Flush s w = (r, s', w')"
  shows "r = Inl e \<and> (\<forall>sid. gm_get (s_mem s') sid = filter (of_day day) (gm_get (s_mem s) sid))"
  using flush_first_failed[OF assms] by blast

theorem flush_error_keeps_one_day_witness:
  "\<exists>s'. Flush demo_saved demo_broken = (Inl ErrIO, s', snd (snd (Flush demo_saved demo_broken))) \<and>
     gm_get (s_mem demo_saved) 1 = demo_samples \<and>
     gm_get (s_mem s') 1 = [\<lparr>Timestamp = 86400000, Value = 7\<rparr>]"
proof -
  let ?s = "demo_saved\<lparr>s_mem := [], s_registry := (s_registry demo_saved)\<lparr>pending := []\<rparr>\<rparr>"
  let ?data = "[(1, [\<lparr>Timestamp = 86400000, Value = 7\<rparr>])] :: series_data"
  obtain s1 w1 where p: "persistDayIndex ?s ''19700102'' ?data demo_broken = (Inl ErrIO, s1, w1)" using demo_index_fails by blast
  obtain s' w' r where f: "Flush demo_saved demo_broken = (r, s', w')" by (metis prod_cases3)
  have m: "s_mem demo_saved = [(1, demo_samples)]" "pending (s_registry demo_saved) = []" by (simp_all add: demo_saved_def NewRegistry_def)
  have "\<not> is_panic ErrIO" by simp
  from flush_error_keeps_one_day[OF m(2) _ demo_groups p this f]
  have e: "r = Inl ErrIO" "\<forall>sid. gm_get (s_mem s') sid = filter (of_day ''19700102'') (gm_get (s_mem demo_saved) sid)"
    by (simp_all add: m)
  have "dayString 86400000 = ''19700102''" "dayString 1000 = ''19700101''" by code_simp+
  then have "gm_get (s_mem s') 1 = [\<lparr>Timestamp = 86400000, Value = 7\<rparr>]"
    using e(2) by (simp add: m gm_get_def demo_samples_def of_day_def)
  then show ?thesis using f e(1) by (simp add: m gm_get_def)
qed

text \<open>A late sample in the buffer, and the partition of its day, which is empty.\<close>

definition demo_buffered :: storage where
  "demo_buffered = snd (Append (new_storage [''db'']) demo_labels [\<lparr>Timestamp = 1000, Value = 5\<rparr>])"

definition demo_late :: "storage \<times> disk" where
  "demo_late = snd (getPartition demo_buffered ''19700101'' demo_root)"

lemma demo_late_inv: "\<exists>g. storage_inv (w_fs (snd demo_late)) (fst demo_late) g"
proof -
  have room: "nextID (s_registry (new_storage [''db''])) + 1 \<noteq> 0" by (simp add: new_storage_def NewRegistry_def)
  obtain sid where ap: "Append (new_storage [''db'']) demo_labels [\<lparr>Timestamp = 1000, Value = 5\<rparr>] = (sid, demo_buffered)"
    unfolding demo_buffered_def by (metis prod.collapse)
  obtain g where g: "storage_inv (w_fs demo_root) demo_buffered g"
    by (rule Append_step[OF demo_new demo_labels_fit room _ ap]) simp
  obtain r s w where run: "getPartition demo_buffered ''19700101'' demo_root = (r, s, w)" by (metis prod_cases3)
  have "pending (s_registry s) = pending (s_registry demo_buffered)"
    using getPartition_step(5)[OF g[unfolded storage_inv_def] run] by (auto simp: put_partition_def)
  then have "storage_inv (w_fs w) s g"
    using getPartition_step(1)[OF g[unfolded storage_inv_def] run] by (simp add: storage_inv_def)
  then show ?thesis using run by (auto simp: demo_late_def)
qed

lemma demo_late_expires:
  "\<exists>s1 w1. ApplyRetention (fst demo_late) 1 864000000 (snd demo_late) = (Inr (), s1, w1) \<and>
     QueryRange s1 [\<lparr>m_name = ''job'', m_value = ''api''\<rparr>] 0 2000 w1 = (Inr ([], no_stats), w1)"
proof -
  have "fst (ApplyRetention (fst demo_late) 1 864000000 (snd demo_late)) = Inr ()"
    "Match (s_registry (fst (snd (ApplyRetention (fst demo_late) 1 864000000 (snd demo_late)))))
       [\<lparr>m_name = ''job'', m_value = ''api''\<rparr>] = []"
    by code_simp+
  then show ?thesis
    by (cases "ApplyRetention (fst demo_late) 1 864000000 (snd demo_late)") (simp add: QueryRange_def io_return_def)
qed

lemma demo_late_mem:
  "gm_get (s_mem (fst demo_late)) 1 = [\<lparr>Timestamp = 1000, Value = 5\<rparr>]"
  "Match (s_registry (fst demo_late)) [\<lparr>m_name = ''job'', m_value = ''api''\<rparr>] = [1]"
  by code_simp+

lemma demo_late_day:
  assumes "sid \<in> set (inv_ids (s_registry (fst demo_late)) d k)"
  shows "expired 1 864000000 d \<and> map_of (s_partitions (fst demo_late)) d \<noteq> None"
proof -
  have "map fst (invertedByDay (s_registry (fst demo_late))) = [''19700101'']"
    "map fst (s_partitions (fst demo_late)) = [''19700101'']" "expired 1 864000000 ''19700101''"
    by code_simp+
  moreover have "d \<in> set (map fst (invertedByDay (s_registry (fst demo_late))))"
    using assms by (cases "map_of (invertedByDay (s_registry (fst demo_late))) d") (auto simp: inv_ids_def dest: map_of_SomeD intro: rev_image_eqI)
  ultimately show ?thesis by (auto simp: map_of_eq_None_iff)
qed

text \<open>
  C26: Late samples of an expired day whose partition exists are accepted by \<open>Append\<close>. If a retention
  pass comes before the flush, it leaves them in the buffer but drops the day's index: when the
  series is indexed for no other day, no selector matches it any more, so no query returns its
  samples, neither before the next flush nor after it, though that flush writes them to disk.
\<close>

theorem retention_hides_buffered:
  assumes "storage_inv (w_fs w) s g" and "0 < days" and "ApplyRetention s days nowMs w = (Inr (), s1, w1)"
    and "\<forall>d k. sid \<in> set (inv_ids (s_registry s) d k) \<longrightarrow> expired days nowMs d \<and> map_of (s_partitions s) d \<noteq> None"
    and "Flush s1 w1 = (r, s2, w2)" and "t = s1 \<or> t = s2"
    and "QueryRange t ms startMs endMs v = (Inr (results, st), v')"
  shows "s_mem s1 = s_mem s \<and> sid \<notin> set (Match (s_registry t) ms) \<and> sid \<notin> sr_ID ` set results"
proof -
  have gone: "s_mem s1 = s_mem s" "sid \<notin> set (Match (s_registry s1) ms)" "sid \<notin> set (Match (s_registry s2) ms)"
    by (rule retention_hides[OF assms(1,3) _ assms(2,5)], use assms(4) in blast)+
  have "sid \<notin> set (Match (s_registry t) ms)" using assms(6) gone(2,3) by blast
  then show ?thesis using gone(1) QueryRange_matched[OF assms(7)] by blast
qed

theorem retention_hides_buffered_witness:
  "\<exists>s1 w1. ApplyRetention (fst demo_late) 1 864000000 (snd demo_late) = (Inr (), s1, w1) \<and>
     gm_get (s_mem s1) 1 = [\<lparr>Timestamp = 1000, Value = 5\<rparr>] \<and>
     Match (s_registry (fst demo_late)) [\<lparr>m_name = ''job'', m_value = ''api''\<rparr>] = [1] \<and>
     1 \<notin> set (Match (s_registry s1) [\<lparr>m_name = ''job'', m_value = ''api''\<rparr>])"
proof -
  let ?m = "[\<lparr>m_name = ''job'', m_value = ''api''\<rparr>] :: Matcher list"
  obtain s1 w1 where run: "ApplyRetention (fst demo_late) 1 864000000 (snd demo_late) = (Inr (), s1, w1)"
    and q: "QueryRange s1 ?m 0 2000 w1 = (Inr ([], no_stats), w1)"
    using demo_late_expires by blast
  obtain r s2 w2 where fl: "Flush s1 w1 = (r, s2, w2)" by (metis prod_cases3)
  obtain g where inv: "storage_inv (w_fs (snd demo_late)) (fst demo_late) g" using demo_late_inv by blast
  have "\<forall>d k. 1 \<in> set (inv_ids (s_registry (fst demo_late)) d k) \<longrightarrow>
      expired 1 864000000 d \<and> map_of (s_partitions (fst demo_late)) d \<noteq> None"
    using demo_late_day by blast
  from retention_hides_buffered[OF inv _ run this fl disjI1[OF refl] q] show ?thesis
    using run demo_late_mem by auto
qed

section \<open>Partitions\<close>

text \<open>A partition without parts in an otherwise empty tree, and two samples of one series.\<close>

definition demo_partition :: partition where
  "demo_partition = \<lparr>p_day = ''20240101'', p_dir = [''d''], p_parts = [], p_nextID = 1, p_dropped = False\<rparr>"

definition demo_world :: disk where
  "demo_world = quiet_world [([''d''], Dir), ([''d'', ''parts''], Dir)]"

definition demo_data :: "(uint64, Sample list) gomap" where
  "demo_data = [(1, [\<lparr>Timestamp = 2000, Value = 7\<rparr>, \<lparr>Timestamp = 1000, Value = 5\<rparr>])]"

lemma demo_partition_inv: "partition_inv (w_fs demo_world) demo_partition (\<lambda>_. [])"
  by (auto simp: partition_inv_def demo_partition_def demo_world_def dirs_to_def parts_dir_def
      lookup_def manifest_of_def manifest_path_def prefix_Cons)

lemma demo_room: "p_nextID demo_partition < 2 ^ 63 - 1"
  by (simp add: demo_partition_def)

lemma demo_wf: "gm_wf demo_data"
  by (simp add: demo_data_def)

lemma demo_fits: "part_fits demo_data"
  by (simp add: demo_data_def part_fits_def block_room_def)

lemma addPart_outcome:
  assumes "partition_inv (w_fs w) p D"
    and "partition_inv (w_fs w') p' D'"
    and "(p_parts p' = p_parts p \<and> D' = D \<and> r \<noteq> Inr () \<and>
          manifest_of (w_fs w') (p_dir p) = manifest_of (w_fs w) (p_dir p)) \<or>
        (\<exists>blocks. sorted_version data blocks \<and> p_parts p' = p_parts p @ [sprintf06d (p_nextID p)] \<and>
          D' = D(sprintf06d (p_nextID p) := blocks) \<and>
          (synced (w_fs w') p' \<or>
           r \<noteq> Inr () \<and> manifest_of (w_fs w') (p_dir p) = manifest_of (w_fs w) (p_dir p)))"
  shows "\<exists>D'. partition_inv (w_fs w') p' D' \<and> (\<forall>nm \<in> set (p_parts p). D' nm = D nm) \<and>
    (manifest_of (w_fs w') (p_dir p) = manifest_of (w_fs w) (p_dir p) \<or> synced (w_fs w') p') \<and>
    (r = Inr () \<longrightarrow> synced (w_fs w') p' \<and>
       (\<forall>sid. samples_in D' (p_parts p') sid = samples_in D (p_parts p) sid + mset (gm_get data sid)))"
  using assms(3)
proof (elim disjE exE conjE)
  fix blocks
  let ?nm = "sprintf06d (p_nextID p)"
  assume b: "sorted_version data blocks" "p_parts p' = p_parts p @ [?nm]" "D' = D(?nm := blocks)"
    and s: "synced (w_fs w') p'"
  have new: "?nm \<notin> set (p_parts p)"
    using assms(1) numbered_new[of "p_nextID p"] by (auto simp: partition_inv_def)
  then have "samples_in D' (p_parts p) sid = samples_in D (p_parts p) sid" for sid
    unfolding b(3) by (intro samples_in_cong) auto
  then show ?thesis using assms(2) s b new by (intro exI[of _ D']) (auto simp: sorted_version_def)
next
  fix blocks
  let ?nm = "sprintf06d (p_nextID p)"
  assume b: "p_parts p' = p_parts p @ [?nm]" "D' = D(?nm := blocks)" and r: "r \<noteq> Inr ()"
    and m: "manifest_of (w_fs w') (p_dir p) = manifest_of (w_fs w) (p_dir p)"
  have "?nm \<notin> set (p_parts p)"
    using assms(1) numbered_new[of "p_nextID p"] by (auto simp: partition_inv_def)
  then show ?thesis using assms(2) r m b by (intro exI[of _ D']) auto
qed (use assms(2) in auto)

text \<open>
  C8: Whatever system calls fail (so also wherever the process is killed), \<open>addPart\<close> leaves every
  live part as it was and a manifest that is either the old one or the list in memory; when it
  returns nil the new part is in both and the partition holds exactly the added samples more.
\<close>

theorem addPart_crash_safe:
  assumes "partition_inv (w_fs w) p D" and "p_nextID p < 2 ^ 63 - 1" and "gm_wf data" and "part_fits data"
    and "addPart p data w = (r, p', w')"
  shows "\<exists>D'. partition_inv (w_fs w') p' D' \<and> (\<forall>nm \<in> set (p_parts p). D' nm = D nm) \<and>
    (manifest_of (w_fs w') (p_dir p) = manifest_of (w_fs w) (p_dir p) \<or> synced (w_fs w') p') \<and>
    (r = Inr () \<longrightarrow> synced (w_fs w') p' \<and>
       (\<forall>sid. samples_in D' (p_parts p') sid = samples_in D (p_parts p) sid + mset (gm_get data sid)))"
  by (rule addPart_preserves[OF assms]) (rule addPart_outcome[OF assms(1)])

theorem addPart_crash_safe_witness:
  "\<exists>D'. partition_inv (w_fs (snd (snd (addPart demo_partition demo_data demo_world)))) 
     (fst (snd (addPart demo_partition demo_data demo_world))) D'"
  using addPart_crash_safe[OF demo_partition_inv demo_room demo_wf demo_fits, of _ _ _]
  by (metis prod.collapse)

text \<open>
  C9: Whatever system calls fail, compaction leaves a consistent partition that holds for every series
  exactly the same samples, none lost and none doubled; the parts it has merged go only after the new
  manifest is on disk.
\<close>

theorem merge_keeps_samples:
  assumes "partition_inv (w_fs w) p D" and "p_nextID p < 2 ^ 63 - 1" and "merge_fits D (p_parts p)"
    and "compactPartition p minParts w = (r, p', w')"
  shows "\<exists>D'. partition_inv (w_fs w') p' D' \<and>
    (\<forall>sid. samples_in D' (p_parts p') sid = samples_in D (p_parts p) sid) \<and>
    (r = Inr () \<longrightarrow> p_parts p' = p_parts p \<or> synced (w_fs w') p')"
  by (rule compactPartition_preserves[OF assms]) blast

theorem merge_keeps_samples_witness:
  "\<exists>D'. partition_inv (w_fs (snd (snd (compactPartition demo_partition 2 demo_world))))
     (fst (snd (compactPartition demo_partition 2 demo_world))) D'"
proof -
  have "merge_fits (\<lambda>_. []) (p_parts demo_partition)" by (simp add: merge_fits_def demo_partition_def)
  from merge_keeps_samples[OF demo_partition_inv demo_room this, of 2] show ?thesis by (metis prod.collapse)
qed

text \<open>
  C10: A compaction that succeeds changes nothing when the partition has fewer small parts than the
  threshold, and otherwise replaces all \<open>k\<close> of them by one part. With a threshold of at least 2 (the
  default of the flag is 3, \<open>ForceMerge\<close> uses 2) it so changes nothing or leaves strictly fewer
  parts than before: merging again and again comes to an end after at most as many rounds as there
  are parts. With the thresholds 0 and 1, which the flag accepts as well, the number need not fall.
\<close>

theorem merge_terminates:
  assumes "partition_inv (w_fs w) p D" and "compactPartition p minParts w = (Inr (), p', w')"
    and "k = length (filter (is_small_part (w_fs w) p) (p_parts p))"
  shows "((int k < minParts \<and> p' = p) \<or> (minParts \<le> int k \<and> length (p_parts p') + k = length (p_parts p) + 1)) \<and>
    (2 \<le> minParts \<longrightarrow> p' = p \<or> length (p_parts p') < length (p_parts p))"
  using compactPartition_counts[OF assms] by auto

theorem merge_terminates_witness:
  "fst (snd (compactPartition demo_partition 2 demo_world)) = demo_partition"
proof -
  have run: "compactPartition demo_partition 2 demo_world = (Inr (), demo_partition, demo_world)"
    by (simp add: compactPartition_def smallParts_def demo_partition_def io_return_def)
  from merge_terminates[OF demo_partition_inv run refl] show ?thesis by (simp add: run)
qed

text \<open>
  C21: For timestamps of the years 0 to 9999 the day partition names are eight digits and compare as
  strings exactly like the UTC days they stand for, which the range and retention tests rest on.
\<close>

theorem day_names_sort_as_days:
  assumes "plain_ms a" and "plain_ms b"
  shows "(dayString a < dayString b \<longleftrightarrow> sint a div 86400000 < sint b div 86400000) \<and>
    (dayString a = dayString b \<longleftrightarrow> sint a div 86400000 = sint b div 86400000) \<and>
    is_digits (dayString a) \<and> length (dayString a) = 8"
  using dayString_less_iff[OF assms] dayString_eq_iff[OF assms] dayString_digits[OF assms(1)]
  by (simp add: day_number_def)

theorem day_names_sort_as_days_witness:
  "dayString 0 < dayString 86400000 \<and> length (dayString 0) = 8"
  using day_names_sort_as_days[of 0 86400000] by (simp add: plain_ms_def)

section \<open>Parts\<close>

lemma demo_write: "\<exists>meta w'. writePartEncoded [''d'', ''x''] demo_data tierSmall encodingGorilla demo_world = (Inr meta, w')"
proof -
  have "\<not> isl (fst (writePartEncoded [''d'', ''x''] demo_data tierSmall encodingGorilla demo_world))" by code_simp
  then show ?thesis by (metis prod.collapse sum.collapse(2))
qed

lemma demo_write_healthy: "healthy (snd (writePartEncoded [''d'', ''x''] demo_data tierSmall encodingGorilla demo_world))"
proof -
  have "healthy demo_world" by (simp add: demo_world_def)
  moreover have "env_same demo_world (snd (writePartEncoded [''d'', ''x''] demo_data tierSmall encodingGorilla demo_world))"
    using confined_env[OF confined_writePart[of "[''d'']" "''x''"] prod.collapse[symmetric]] by simp
  ultimately show ?thesis by (rule healthy_env)
qed

text \<open>
  C11: A part that was written without error reads back, from its four files, as the samples that were
  given: per series the same samples, sorted by time, whichever encoding the part has.
\<close>

theorem part_roundtrip:
  assumes "writePartEncoded dir data tier encoding w = (Inr meta, w')" and "known_encoding encoding"
    and "gm_wf data" and "part_fits data" and "readPartAll dir w' = (r, w'')"
  shows "(\<exists>out. r = Inr out \<and> gm_wf out \<and>
      (\<forall>sid. mset (gm_get out sid) = mset (gm_get data sid) \<and> sorted (map sample_time (gm_get out sid)))) \<or>
    (r = Inl ErrIO \<and> \<not> healthy w')"
proof -
  obtain blocks where b: "sorted_version data blocks" "stored_part (w_fs w') dir meta blocks"
    using writePartEncoded_Inr[OF assms(1-4)] by blast
  note y = yieldsD[OF yields_readPartAll[OF b(2)] assms(5)]
  have out: "mset (gm_get out sid) = mset (gm_get data sid) \<and> sorted (map sample_time (gm_get out sid))"
    if "map_of out = map_of blocks" for out sid
    using b(1) that by (simp add: sorted_version_def gm_get_def)
  from y(3) show ?thesis
  proof (elim disjE exE conjE)
    fix d assume "r = Inr d" "gm_wf d" "map_of d = map_of blocks"
    then show ?thesis using out by blast
  next
    assume "r = Inl ErrIO"
    then show ?thesis using y(4) by auto
  qed
qed

theorem part_roundtrip_witness:
  "\<exists>out. fst (readPartAll [''d'', ''x''] (snd (writePartEncoded [''d'', ''x''] demo_data tierSmall encodingGorilla demo_world))) = Inr out \<and>
     mset (gm_get out 1) = {#\<lparr>Timestamp = 1000, Value = 5\<rparr>, \<lparr>Timestamp = 2000, Value = 7\<rparr>#} \<and>
     sorted (map sample_time (gm_get out 1))"
proof -
  obtain meta w' where run: "writePartEncoded [''d'', ''x''] demo_data tierSmall encodingGorilla demo_world = (Inr meta, w')"
    using demo_write by blast
  have env: "healthy w'" using demo_write_healthy run by auto
  obtain r w'' where rd: "readPartAll [''d'', ''x''] w' = (r, w'')" by fastforce
  have "known_encoding encodingGorilla" by (simp add: known_encoding_def)
  from part_roundtrip[OF run this demo_wf demo_fits rd] obtain out where out: "r = Inr out"
    "\<And>sid. mset (gm_get out sid) = mset (gm_get demo_data sid) \<and> sorted (map sample_time (gm_get out sid))"
    using env by blast
  have "mset (gm_get demo_data 1) = {#\<lparr>Timestamp = 1000, Value = 5\<rparr>, \<lparr>Timestamp = 2000, Value = 7\<rparr>#}"
    by (simp add: demo_data_def gm_get_def)
  then show ?thesis using out rd run by (intro exI[of _ out]) simp
qed

text \<open>
  C12: \<open>readPart\<close> returns for each wanted series exactly its samples in the window; it counts one part,
  one block per wanted series and all their points, and nothing when the part's metadata shows that
  it lies outside the window; then no sample is missed.
\<close>

theorem part_window_and_stats:
  assumes "stored_part (w_fs w) dir meta data" and "readPart dir want startMs endMs st w = (r, w')"
  shows "w_fs w' = w_fs w \<and> ((\<exists>out. r = Inr (out, read_stats meta want startMs endMs data st) \<and> gm_wf out \<and>
      gm_get out = window_of want startMs endMs data) \<or> (r = Inl ErrIO \<and> \<not> healthy w))"
  using yieldsD[OF yields_readPart[OF assms(1)] assms(2)] by blast

theorem part_window_and_stats_witness:
  "\<exists>out st. fst (readPart [''d'', ''x''] [1] 0 1500 no_stats
       (snd (writePartEncoded [''d'', ''x''] demo_data tierSmall encodingGorilla demo_world))) = Inr (out, st) \<and>
     gm_get out 1 = [\<lparr>Timestamp = 1000, Value = 5\<rparr>]"
proof -
  obtain meta w' where run: "writePartEncoded [''d'', ''x''] demo_data tierSmall encodingGorilla demo_world = (Inr meta, w')"
    using demo_write by blast
  have env: "healthy w'" using demo_write_healthy run by auto
  have "known_encoding encodingGorilla" by (simp add: known_encoding_def)
  then obtain blocks where b: "sorted_version demo_data blocks" "stored_part (w_fs w') [''d'', ''x''] meta blocks"
    using writePartEncoded_Inr[OF run _ demo_wf demo_fits] by blast
  obtain r w'' where rd: "readPart [''d'', ''x''] [1] 0 1500 no_stats w' = (r, w'')" by fastforce
  have "mset (filter (in_window 0 1500) (gm_get blocks 1)) = {#\<lparr>Timestamp = 1000, Value = 5\<rparr>#}"
    using b(1) by (simp add: sorted_version_def mset_filter demo_data_def gm_get_def in_window_def)
  then have "filter (in_window 0 1500) (gm_get blocks 1) = [\<lparr>Timestamp = 1000, Value = 5\<rparr>]" by (metis mset_single_iff)
  then have "window_of [1] 0 1500 blocks 1 = [\<lparr>Timestamp = 1000, Value = 5\<rparr>]" by (simp add: window_of_def)
  with part_window_and_stats[OF b(2) rd] env show ?thesis
    using rd run by auto
qed

section \<open>Series registry\<close>

text \<open>
  C13: Two label lists have the same canonical key exactly when they hold the same labels, whatever
  the order; the labels must not contain the separator bytes, which \<open>series.go\<close> accepts as a limit.
\<close>

theorem canonical_key_identity:
  assumes "\<forall>l \<in> set a \<union> set b. label_sep_free l"
  shows "CanonicalKey a = CanonicalKey b \<longleftrightarrow> mset a = mset b"
  by (rule CanonicalKey_eq_iff[OF assms])

theorem canonical_key_identity_witness:
  "CanonicalKey [Label ''job'' ''api'', Label ''a'' ''b''] = CanonicalKey [Label ''a'' ''b'', Label ''job'' ''api'']"
  by (rule canonical_key_identity[THEN iffD2])
    (auto simp: label_sep_free_def nameValueSep_def labelPairSep_def)

lemma resolve_all_identity:
  assumes "registry_ok r" and "unat (nextID r) + length lss < 2 ^ 64" and "resolve_all r lss = (ids, r')"
  shows "registry_ok r' \<and> length ids = length lss \<and>
    (\<forall>m < length lss. \<forall>n < length lss.
       ids ! m = ids ! n \<longleftrightarrow> CanonicalKey (lss ! m) = CanonicalKey (lss ! n)) \<and>
    (\<forall>n < length lss. \<exists>ls. Labels r' (ids ! n) = Some ls \<and> CanonicalKey ls = CanonicalKey (lss ! n))"
proof -
  note all = resolve_all_ok[OF assms]
  have ok: "registry_ok r'" and key: "\<And>n. n < length lss \<Longrightarrow> map_of (byKey r') (CanonicalKey (lss ! n)) = Some (ids ! n)"
    using all by blast+
  have name: "\<exists>ls. Labels r' (ids ! n) = Some ls \<and> CanonicalKey ls = CanonicalKey (lss ! n)"
    if "n < length lss" for n
    using ok key[OF that] unfolding registry_ok_def Labels_def by blast
  have "ids ! m = ids ! n \<longleftrightarrow> CanonicalKey (lss ! m) = CanonicalKey (lss ! n)"
    if "m < length lss" "n < length lss" for m n
    using name[OF that(1)] name[OF that(2)] key[OF that(1)] key[OF that(2)] by auto
  with all name show ?thesis by blast
qed

text \<open>
  C14: Over any run of \<open>Resolve\<close> calls two label sets get the same ID exactly when their
  canonical keys are equal, the ID leads back to a label set of that key, and the registry's
  invariant holds at the end. There must be room for the new IDs below \<open>2 ^ 64\<close>.
\<close>

theorem resolve_identity:
  assumes "registry_ok r" and "unat (nextID r) + length lss < 2 ^ 64" and "resolve_all r lss = (ids, r')"
  shows "registry_ok r' \<and> length ids = length lss \<and>
    (\<forall>m < length lss. \<forall>n < length lss.
       ids ! m = ids ! n \<longleftrightarrow> CanonicalKey (lss ! m) = CanonicalKey (lss ! n)) \<and>
    (\<forall>n < length lss. \<exists>ls. Labels r' (ids ! n) = Some ls \<and> CanonicalKey ls = CanonicalKey (lss ! n))"
  by (rule resolve_all_identity[OF assms])

theorem resolve_identity_witness:
  "length (fst (resolve_all NewRegistry [[Label ''a'' ''1''], [Label ''b'' ''2''], [Label ''a'' ''1'']])) = 3"
proof -
  obtain ids r' where run: "resolve_all NewRegistry [[Label ''a'' ''1''], [Label ''b'' ''2''], [Label ''a'' ''1'']] = (ids, r')"
    by fastforce
  from resolve_identity[OF registry_ok_New _ run] show ?thesis
    using run by (simp add: NewRegistry_def)
qed

text \<open>
  C15: Replaying forward records with \<open>LoadEntries\<close> gives a registry that depends only on the set
  of records: order and repetition do not matter. \<open>N\<close> is the naming the records come from.
\<close>

theorem replay_converges:
  assumes "naming_ok N" and "\<And>i. N i \<noteq> None \<Longrightarrow> i + 1 \<noteq> 0"
    and "\<forall>(i, ls) \<in> set recs \<union> set recs'. N i = Some ls" and "set recs = set recs'"
  shows "map_of (names (replay_forward NewRegistry recs)) = map_of (names (replay_forward NewRegistry recs')) \<and>
    map_of (byKey (replay_forward NewRegistry recs)) = map_of (byKey (replay_forward NewRegistry recs')) \<and>
    registry_ok (replay_forward NewRegistry recs)"
proof -
  have e: "map_of (names NewRegistry) \<subseteq>\<^sub>m N" by (simp add: NewRegistry_def)
  note a = replay_forward_ok[OF assms(1,2) registry_ok_New e, of recs]
    and b = replay_forward_ok[OF assms(1,2) registry_ok_New e, of recs']
  have ok: "registry_ok (replay_forward NewRegistry recs)" "registry_ok (replay_forward NewRegistry recs')"
    using a b assms(3) by auto
  have "map_of (names (replay_forward NewRegistry recs)) = map_of (names (replay_forward NewRegistry recs'))"
    using a b assms(3,4) by (auto simp: fun_eq_iff)
  then show ?thesis using registry_ext[OF ok(2,1)] ok by simp
qed

theorem replay_converges_witness:
  "map_of (names (replay_forward NewRegistry [(1, [Label ''a'' ''1'']), (1, [Label ''a'' ''1''])]))
     = map_of (names (replay_forward NewRegistry [(1, [Label ''a'' ''1''])]))"
proof -
  let ?N = "[1 \<mapsto> [Label ''a'' ''1'']] :: uint64 \<rightharpoonup> Label list"
  have "naming_ok ?N" unfolding naming_ok_def by auto
  moreover have "i + 1 \<noteq> 0" if "?N i \<noteq> None" for i
    using that by (cases "i = 1") simp_all
  ultimately show ?thesis
    using replay_converges[of ?N "[(1, [Label ''a'' ''1'']), (1, [Label ''a'' ''1''])]"
        "[(1, [Label ''a'' ''1''])]"] by auto
qed

text \<open>
  C16: \<open>Match\<close> returns, in ascending order and without repetition, exactly the series that are
  indexed in some live day and carry every matcher's label. \<open>X\<close> is the set of (day, series)
  pairs the index reflects; names do not contain the separator byte.
\<close>

theorem match_is_conjunction:
  assumes "index_reflects r X" and "ms \<noteq> []"
    and "\<forall>(i, ls) \<in> set (names r). \<forall>l \<in> set ls. nameValueSep \<notin> set (label_name l)"
    and "\<forall>m \<in> set ms. nameValueSep \<notin> set (m_name m)"
  shows "sorted (Match r ms) \<and> distinct (Match r ms) \<and>
    set (Match r ms) = {i. (\<exists>day. (day, i) \<in> X) \<and>
      (\<exists>ls. Labels r i = Some ls \<and> (\<forall>m \<in> set ms. Label (m_name m) (m_value m) \<in> set ls))}"
proof -
  have key: "matcher_key m \<in> label_keys ls \<longleftrightarrow> Label (m_name m) (m_value m) \<in> set ls"
    if "map_of (names r) i = Some ls" "m \<in> set ms" for i ls m
  proof (rule matcher_key_in_labels)
    have "(i, ls) \<in> set (names r)" using that(1) by (rule map_of_SomeD)
    then show "\<forall>l \<in> set ls. nameValueSep \<notin> set (label_name l)" using assms(3) by blast
    show "nameValueSep \<notin> set (m_name m)" using assms(4) that(2) by blast
  qed
  have eq: "map_of (names r) i = Some ls \<and> (\<forall>m \<in> set ms. matcher_key m \<in> label_keys ls) \<longleftrightarrow>
      Labels r i = Some ls \<and> (\<forall>m \<in> set ms. Label (m_name m) (m_value m) \<in> set ls)" for i ls
    using key[of i ls] by (cases "map_of (names r) i = Some ls") (simp_all add: Labels_def)
  show ?thesis using Match_spec[OF assms(1,2)] unfolding eq .
qed

theorem match_is_conjunction_witness:
  "Match NewRegistry [\<lparr>m_name = ''job'', m_value = ''api''\<rparr>] = []"
  using match_is_conjunction[OF index_reflects_New, of "[\<lparr>m_name = ''job'', m_value = ''api''\<rparr>]"]
  by (simp add: NewRegistry_def nameValueSep_def)

text \<open>
  C17: A segment file replays to exactly the entries that were written, in ascending order of their
  IDs. \<open>record_ok\<close> bounds the label count and lengths by what a slice can hold.
\<close>

theorem segment_roundtrip:
  assumes "gm_wf es" and "list_all record_ok (sorted_entries es)"
  shows "\<exists>recs. decode_segment (segment_bytes es) = Inr recs \<and> set recs = set es \<and> sorted (map fst recs)"
  using decode_segment_bytes[OF assms(2)] assms(1) by (simp add: set_sorted_entries)

theorem segment_roundtrip_witness:
  "\<exists>recs. decode_segment (segment_bytes [(7, [Label ''a'' ''1'']), (2, [])]) = Inr recs \<and>
     set recs = {(7, [Label ''a'' ''1'']), (2, [])} \<and> sorted (map fst recs)"
  using segment_roundtrip[of "[(7, [Label ''a'' ''1'']), (2, [])]"]
  by (simp add: sorted_entries_def gm_get_def record_ok_def label_ok_def string_ok_def)

text \<open>
  C18: Replaying a segment that was cut anywhere after its magic yields, without an error, exactly the
  records that are whole in the remaining bytes.
\<close>

theorem torn_segment_prefix:
  assumes "list_all record_ok (sorted_entries es)" and "prefix p (segment_bytes es)"
    and "length indexdbSegMagic \<le> length p"
  shows "\<exists>k \<le> length es. decode_segment p = Inr (take k (sorted_entries es)) \<and>
    prefix (indexdbSegMagic @ encode_records True 0 (take k (sorted_entries es))) p \<and>
    (k < length es \<longrightarrow>
      \<not> prefix (indexdbSegMagic @ encode_records True 0 (take (Suc k) (sorted_entries es))) p)"
proof -
  obtain q where p: "p = indexdbSegMagic @ q" and q: "prefix q (encode_records True 0 (sorted_entries es))"
  proof -
    have "prefix indexdbSegMagic (segment_bytes es)" by (simp add: segment_bytes_def)
    from prefix_length_prefix[OF this assms(2,3)] obtain q where "p = indexdbSegMagic @ q"
      by (auto simp: prefix_def)
    with assms(2) show ?thesis by (intro that[of q]) (simp_all add: segment_bytes_def)
  qed
  have "length (sorted_entries es) = length es" by (simp add: sorted_entries_def)
  then show ?thesis
    using decode_records_torn[OF _ assms(1) q] p by (simp add: decode_segment_def)
qed

theorem torn_segment_prefix_witness:
  "\<exists>k \<le> 2. decode_segment (indexdbSegMagic @ [2, 0, 5]) = Inr (take k [(2, []), (7, [Label ''a'' ''1''])])"
proof -
  let ?es = "[(7, [Label ''a'' ''1'']), (2, [])] :: (uint64, Label list) gomap"
  have s: "sorted_entries ?es = [(2, []), (7, [Label ''a'' ''1''])]"
    by (simp add: sorted_entries_def gm_get_def)
  have b: "segment_bytes ?es = indexdbSegMagic @ [2, 0, 5, 1, 1, 97, 1, 49]"
    unfolding segment_bytes_def s by code_simp
  have "list_all record_ok (sorted_entries ?es)"
    unfolding s by (simp add: record_ok_def label_ok_def string_ok_def)
  from torn_segment_prefix[OF this, of "indexdbSegMagic @ [2, 0, 5]"] obtain k
    where "k \<le> length ?es" "decode_segment (indexdbSegMagic @ [2, 0, 5]) = Inr (take k (sorted_entries ?es))"
    unfolding b by auto
  then show ?thesis unfolding s by (intro exI[of _ k]) simp
qed

lemma digit_char_3: "digit_char 3 = CHR ''3''"
  by code_simp

text \<open>
  C19: While all segment numbers have at most six digits, the next one is one past the highest that
  exists, so that no segment is overwritten and name order is replay order.
\<close>

theorem segment_numbers_increase:
  assumes "set (segment_names entries) = indexSegmentName ` S" and "S \<noteq> {}" and "finite S"
    and "\<And>n. n \<in> S \<Longrightarrow> 0 < n \<and> n < 10 ^ 6"
  shows "seq_after (segment_names entries) = Inr (Max S + 1)"
  by (rule seq_after_Max[OF _ assms]) (simp add: segment_names_def)

theorem segment_numbers_increase_witness:
  "seq_after (segment_names [(indexSegmentName 3, False)]) = Inr (Max {3} + 1)"
proof (rule segment_numbers_increase)
  have e: "Ext (indexSegmentName 3) = ''.seg''"
    by (simp add: Ext_def indexSegmentName_def sprintf06d_def fmt06d_def dec_string.simps zpad_def
        digit_char_3)
  show "set (segment_names [(indexSegmentName 3, False)]) = indexSegmentName ` {3}"
    by (simp add: segment_names_def e)
qed auto

text \<open>
  C20: The numbering breaks after segment 1000000: names sort as strings, so the number handed out next
  is that of an existing segment, which the rename then replaces.
\<close>

theorem segment_number_collision:
  assumes "set (segment_names entries) = indexSegmentName ` S" and "S \<subseteq> {1..1000000}" and "999999 \<in> S"
    and "1000000 \<in> S"
  shows "\<exists>n. seq_after (segment_names entries) = Inr n \<and> indexSegmentName n \<in> set (segment_names entries)"
  using seq_after_million[OF _ assms(1-3)] assms(1,4) by (auto simp: segment_names_def)

theorem segment_number_collision_witness:
  "\<exists>n. seq_after (segment_names [(indexSegmentName 999999, False), (indexSegmentName 1000000, False)]) = Inr n \<and>
     indexSegmentName n \<in> set (segment_names [(indexSegmentName 999999, False), (indexSegmentName 1000000, False)])"
proof (rule segment_number_collision)
  have "Ext (indexSegmentName 999999) = ''.seg''" "Ext (indexSegmentName 1000000) = ''.seg''"
    by (simp_all add: Ext_def indexSegmentName_def sprintf06d_def fmt06d_million)
  then show "set (segment_names [(indexSegmentName 999999, False), (indexSegmentName 1000000, False)])
      = indexSegmentName ` {999999, 1000000}"
    by (auto simp: segment_names_def)
qed auto

section \<open>Block encodings\<close>

text \<open>
  C22: Every list of timestamps survives \<open>encodeTimestamps\<close> and \<open>decodeTimestamps\<close>, sorted or not
  and even when the 64-bit differences wrap. \<open>fits_slice\<close>: the slice can be allocated.
\<close>

theorem timestamp_block_roundtrip:
  assumes "fits_slice ts"
  shows "decodeTimestamps (encodeTimestamps ts) = Inr ts"
  by (rule tsb.decb_encb[OF assms])

theorem timestamp_block_roundtrip_witness:
  "decodeTimestamps (encodeTimestamps [1000, 16000, 31000, 5, 2 ^ 63]) = Inr [1000, 16000, 31000, 5, 2 ^ 63]"
  by (rule timestamp_block_roundtrip) (simp add: fits_slice_def)

text \<open>
  C23: Every list of values survives \<open>encodeValues\<close> and \<open>decodeValues\<close> bit for bit, NaN payloads and
  infinities included.
\<close>

theorem value_block_roundtrip:
  assumes "fits_slice vs"
  shows "decodeValues (encodeValues vs) = Inr vs"
  by (rule vsb.decb_encb[OF assms])

theorem value_block_roundtrip_witness:
  "decodeValues (encodeValues [0x3FF0000000000000, 0x3FF0000000000000, 0x7FF8000000000001, 1])
     = Inr [0x3FF0000000000000, 0x3FF0000000000000, 0x7FF8000000000001, 1]"
  by (rule value_block_roundtrip) (simp add: fits_slice_def)

lemma strict_prefix_butlast: "xs \<noteq> [] \<Longrightarrow> strict_prefix (butlast xs) xs"
  by (metis append_butlast_last_id strict_prefixI')

text \<open>
  C24: A timestamp or value block that lost any number of its last bytes is reported as
  \<open>ErrUnexpectedEOF\<close>, never decoded to fewer or to other points.
\<close>

theorem torn_blocks_detected:
  assumes "fits_slice ts" and "fits_slice vs"
    and "strict_prefix p (encodeTimestamps ts)" and "strict_prefix q (encodeValues vs)"
  shows "decodeTimestamps p = Inl ErrUnexpectedEOF \<and> decodeValues q = Inl ErrUnexpectedEOF"
  using tsb.decb_torn[OF assms(1,3)] vsb.decb_torn[OF assms(2,4)] by simp

theorem torn_blocks_detected_witness:
  "decodeTimestamps (butlast (encodeTimestamps [1000, 2000])) = Inl ErrUnexpectedEOF \<and>
   decodeValues (butlast (encodeValues [5, 6])) = Inl ErrUnexpectedEOF"
  by (rule torn_blocks_detected[of "[1000, 2000]" "[5, 6]"])
    (simp_all add: fits_slice_def strict_prefix_butlast encodeTimestamps_simps encodeValues_simps)

text \<open>
  C25: The byte-by-byte writer implements the bit stream of the paper: after count and first value the
  block holds the control bits, windows and significant bits of every XOR, and less than one byte
  of padding.
\<close>

theorem value_block_is_gorilla:
  "\<exists>body pad. length pad < 8 \<and>
     encodeValues (v # vs) = append_uvarint (of_nat (length (v # vs))) @ put_uint64 v @ body \<and>
     bytes_bits body = gorilla_bits v 0 0 vs @ pad"
  using encoded_stream_bits[of v vs] by (metis encodeValues_simps(2))

text \<open>
  C27: A series scraped at a regular interval costs one zero byte for every timestamp from the third
  on, as the comment on block encodings claims.
\<close>

theorem regular_scrape_size:
  "encodeTimestamps (t0 # map (\<lambda>i. t0 + of_nat (Suc i) * d) [0..<Suc n])
     = append_uvarint (of_nat (n + 2)) @ put_uint64 t0 @ append_varint d @ replicate n 0"
  by (rule encodeTimestamps_regular)

text \<open>
  C28: A corrupt value block can crash the reader: a new window with 31 leading zeros and 63
  significant bits makes the shift amount negative, which Go answers with a panic, not an error.
\<close>

theorem corrupt_block_panics:
  "decodeValues (append_uvarint 2 @ put_uint64 v @ replicate 10 0xFF) = Inl (Panic ''negative shift amount'')"
  by (rule decodeValues_panic)

section \<open>The server\<close>

text \<open>Decoders that know one import, and the requests that go with them.\<close>

definition demo_codecs :: codecs where
  "demo_codecs = \<lparr>json_array = (\<lambda>_. None),
     json_object = (\<lambda>_. Some \<lparr>im_metric = ''up'', im_labels = [(''job'', ''api'')], im_samples = demo_samples\<rparr>),
     snappy_decode = Some,
     unmarshal_write = (\<lambda>_. Some [\<lparr>ts_labels = demo_labels, ts_samples = demo_samples\<rparr>, \<lparr>ts_labels = [], ts_samples = demo_samples\<rparr>]),
     float_oob = (\<lambda>_. 0)\<rparr>"

definition demo_import :: request where
  "demo_import = \<lparr>rq_method = ''POST'', rq_path = ''/api/v1/import'', rq_query = (\<lambda>_. []), rq_body = ''{}'', rq_broken = False\<rparr>"


lemma demo_import_path: "rq_path demo_import = ''/api/v1/import''"
  by (simp add: demo_import_def)

lemma demo_batch: "request_batch demo_codecs demo_import = [(demo_labels, demo_samples)]"
proof -
  have "TrimSpace ''{}'' = ''{}''" by (rule TrimSpace_solid) (simp_all add: solid_def IsSpace_def)
  then show ?thesis
    by (simp add: request_batch_def imported_def demo_import_def demo_codecs_def posted_def
        import_batch_def demo_labels_def)
qed

lemma demo_events: "request_events demo_codecs demo_import = [Ingest demo_labels demo_samples]"
  unfolding request_events_def demo_import_path demo_batch by (simp add: ingest_events_def demo_samples_def)

definition demo_args :: "string list" where
  "demo_args = [''-storageDataPath=/db'', ''-retentionPeriod'', ''7d'']"

lemma demo_flags:
  "ParseFlags server_flag server_defaults demo_args =
     Inr (server_defaults\<lparr>so_dataPath := ''/db'', so_retentionPeriod := ''7d''\<rparr>, [])"
  by code_simp

lemma demo_period: "parseRetentionDays ''7d'' = Inr 7"
  by code_simp


text \<open>
  C29: The whole process: started with any flags on a new directory, it serves requests in any order, with ticks of the
  flush and retention loops and restarts between them. The runs are those of \<open>server_step\<close>: flushes,
  restarts and retention passes succeed (merges and queries may fail); when a retention tick falls,
  the buffer holds no sample of a day that it expires (without this samples are hidden, C26); label
  sets and sizes fit (\<open>request_room\<close>, \<open>flush_room\<close>), and windows lie in the years 0 to 9999. After
  every such run handle and files hold for every label set exactly the samples that the bodies of
  the import and remote-write requests carried for it (\<open>request_batch\<close>), less the days dropped;
  queries, merges, malformed requests and unknown paths leave no trace. The decoders of the bodies (JSON, snappy,
  protobuf) are any functions.
\<close>

theorem server_refinement:
  assumes "server_main cwd args w0 = (Serves s, w)" and "fresh_dir (w_fs w0) (s_path s)"
    and "steps (server_step c) (s, w) evs st'"
  shows "implements st' (foldl spec_step (\<lambda>_. {#}) (concat (map (events_of c) evs)))"
proof -
  obtain threshold period where "startup (s_path s) threshold period w0 = (Inr s, w)"
    using server_main_startup[OF assms(1)] by blast
  from server_run[OF assms(2) this assms(3)] show ?thesis .
qed

theorem server_refinement_witness:
  "\<exists>s w. server_main [] demo_args demo_disk = (Serves s, w) \<and>
     implements (snd (serve demo_codecs s demo_import w)) (foldl spec_step (\<lambda>_. {#}) [Ingest demo_labels demo_samples])"
proof -
  obtain w where op: "Open [''db''] demo_disk = (Inr (new_storage [''db'']), w)" using demo_open by blast
  let ?s = "(new_storage [''db''])\<lparr>s_threshold := 3, s_retention := 7\<rparr>"
  have su: "startup [''db''] 3 ''7d'' demo_disk = (Inr ?s, w)"
    using op demo_period by (simp add: startup_def io_bind_def io_lift_def io_return_def)
  have dir: "resolve [] ''/db'' = [''db'']" by code_simp
  have main: "server_main [] demo_args demo_disk = (Serves ?s, w)"
    unfolding server_main_def demo_flags by (simp add: server_defaults_def dir su)
  have path: "s_path ?s = [''db'']" by (simp add: new_storage_def)
  obtain resp s' w' where sv: "serve demo_codecs ?s demo_import w = (resp, s', w')" by (metis prod_cases3)
  have "request_room demo_codecs ?s w demo_import"
    by (simp add: request_room_def demo_batch batch_fits_def demo_labels_fit demo_import_path
        new_storage_def NewRegistry_def)
  then have "server_step demo_codecs (?s, w) (Serve demo_import) (s', w')"
    using sv by (rule server_step.request) (simp add: demo_import_path)
  then have "steps (server_step demo_codecs) (?s, w) [Serve demo_import] (s', w')" by (meson steps.intros)
  from server_refinement[OF main _ this] show ?thesis
    using main sv path demo_fresh by (auto simp: demo_events)
qed

text \<open>
  C30: Whatever a request asks for, whatever its body decodes to and whichever system calls fail while it
  is served (a flush or merge that fails half-way included), the handle and its files still satisfy
  the invariant that ties registry, index segments, partitions, manifests and parts together.
\<close>

theorem request_keeps_invariant:
  assumes "storage_inv (w_fs w) s g" and "request_room c s w rq" and "serve c s rq w = (resp, s', w')"
  shows "\<exists>g'. storage_inv (w_fs w') s' g'"
  by (rule serve_invariant[OF assms])

theorem request_keeps_invariant_witness:
  "\<exists>g'. storage_inv (w_fs (snd (snd (serve demo_codecs (new_storage [''db'']) demo_import demo_root))))
     (fst (snd (serve demo_codecs (new_storage [''db'']) demo_import demo_root))) g'"
proof -
  obtain resp s' w' where sv: "serve demo_codecs (new_storage [''db'']) demo_import demo_root = (resp, s', w')"
    by (metis prod_cases3)
  have "request_room demo_codecs (new_storage [''db'']) demo_root demo_import"
    by (simp add: request_room_def demo_batch batch_fits_def demo_labels_fit demo_import_path
        new_storage_def NewRegistry_def)
  from request_keeps_invariant[OF demo_new this sv] show ?thesis by (simp add: sv)
qed



text \<open>
  C32: A query whose selector or times do not parse, or that ends before it starts, gets status 400; a
  request to a writing endpoint that is no POST gets 405; a body that cannot be read or is larger
  than 64 MiB gets 400. In all these cases storage and disk are untouched.
\<close>

theorem malformed_requests_refused:
  assumes "(rq_path rq = ''/api/v1/query_range'' \<and>
       ((\<exists>e. ParseSelector (rq_query rq ''query'') = Inl e) \<or> (\<exists>e. parseTimeParam (float_oob c) (rq_query rq ''start'') = Inl e) \<or>
        (\<exists>e. parseTimeParam (float_oob c) (rq_query rq ''end'') = Inl e) \<or>
        (\<exists>a b. parseTimeParam (float_oob c) (rq_query rq ''start'') = Inr a \<and>
           parseTimeParam (float_oob c) (rq_query rq ''end'') = Inr b \<and> sint b < sint a)) \<and> code = 400) \<or>
     (rq_path rq \<in> {''/api/v1/import'', ''/api/v1/write'', ''/internal/force_flush'', ''/internal/force_merge''} \<and>
        rq_method rq \<noteq> ''POST'' \<and> code = 405) \<or>
     (rq_path rq \<in> {''/api/v1/import'', ''/api/v1/write''} \<and> rq_method rq = ''POST'' \<and>
        (rq_broken rq \<or> 64 * 1024 * 1024 < length (rq_body rq)) \<and> code = 400)"
  shows "\<exists>msg. serve c s rq w = (Response code
    [(''Content-Type'', ''text/plain; charset=utf-8''), (''X-Content-Type-Options'', ''nosniff'')] (Text msg), s, w)"
  using assms
proof (elim disjE)
  assume q: "rq_path rq = ''/api/v1/query_range'' \<and>
       ((\<exists>e. ParseSelector (rq_query rq ''query'') = Inl e) \<or> (\<exists>e. parseTimeParam (float_oob c) (rq_query rq ''start'') = Inl e) \<or>
        (\<exists>e. parseTimeParam (float_oob c) (rq_query rq ''end'') = Inl e) \<or>
        (\<exists>a b. parseTimeParam (float_oob c) (rq_query rq ''start'') = Inr a \<and>
           parseTimeParam (float_oob c) (rq_query rq ''end'') = Inr b \<and> sint b < sint a)) \<and> code = 400"
  then have "asked c rq = None" by (auto simp: asked_def split: sum.splits)
  from handleQueryRange_refused[OF this, of s w] q show ?thesis by (auto simp: serve_def http_error_def)
qed (auto simp: serve_def handleImport_def handleRemoteWrite_def handleForceFlush_def handleForceMerge_def
    method_post_def http_error_def read_body_def)

theorem malformed_requests_refused_witness:
  "\<exists>msg. serve demo_codecs (new_storage [''db'']) (demo_import\<lparr>rq_method := ''GET''\<rparr>) demo_root =
     (Response 405 [(''Content-Type'', ''text/plain; charset=utf-8''), (''X-Content-Type-Options'', ''nosniff'')]
       (Text msg), new_storage [''db''], demo_root)"
  by (rule malformed_requests_refused) (simp add: demo_import_def)

text \<open>
  C33: The entries of an import are ingested one by one: when one without a metric name is met, the
  answer is 400 and exactly the entries before it are in the buffer, the later ones are not. A client
  that repairs and repeats a refused import ingests those samples twice.
\<close>

theorem import_stops_at_nameless:
  assumes "rq_method rq = ''POST''" and "read_body rq = Some raw" and "TrimSpace raw = CHR ''['' # rest"
    and "unmarshal_array (TrimSpace raw) = Some (good @ bad # later)"
    and "\<forall>r \<in> set good. im_metric r \<noteq> []" and "im_metric bad = []"
  shows "handleImport unmarshal_array unmarshal_object s rq =
    (http_error 400 ''every entry needs a metric name'', append_all s (map (\<lambda>r. (Label ''__name__'' (im_metric r) # map (\<lambda>(k, v). Label k v) (im_labels r), im_samples r)) good))"
proof -
  have "takeWhile (\<lambda>r. im_metric r \<noteq> []) (good @ bad # later) = good" using assms(5,6) by (simp add: takeWhile_append)
  then show ?thesis using assms by (auto simp: handleImport_def method_post_def import_entries_batch import_batch_def)
qed

theorem import_stops_at_nameless_witness:
  "handleImport (\<lambda>_. Some ([\<lparr>im_metric = ''up'', im_labels = [], im_samples = demo_samples\<rparr>] @
       \<lparr>im_metric = [], im_labels = [], im_samples = []\<rparr> # [])) (\<lambda>_. None)
     (new_storage [''db'']) (demo_import\<lparr>rq_body := ''[]''\<rparr>) =
   (http_error 400 ''every entry needs a metric name'',
    append_all (new_storage [''db'']) [([Label ''__name__'' ''up''], demo_samples)])"
proof -
  have t: "TrimSpace ''[]'' = CHR ''['' # '']''"
    by (subst TrimSpace_solid) (simp_all add: solid_def IsSpace_def)
  have b: "read_body (demo_import\<lparr>rq_body := ''[]''\<rparr>) = Some ''[]''" by (simp add: read_body_def demo_import_def)
  have "rq_method (demo_import\<lparr>rq_body := ''[]''\<rparr>) = ''POST''" by (simp add: demo_import_def)
  from import_stops_at_nameless[OF this b t,
      where unmarshal_array = "\<lambda>_. Some ([\<lparr>im_metric = ''up'', im_labels = [], im_samples = demo_samples\<rparr>] @
         \<lparr>im_metric = [], im_labels = [], im_samples = []\<rparr> # [])"
        and good = "[\<lparr>im_metric = ''up'', im_labels = [], im_samples = demo_samples\<rparr>]"
        and bad = "\<lparr>im_metric = [], im_labels = [], im_samples = []\<rparr>" and later = "[]"
        and unmarshal_object = "\<lambda>_. None" and s = "new_storage [''db'']"]
  show ?thesis by simp
qed

text \<open>
  C34: A remote write that decodes is answered with 204. Of its series exactly those with a label
  \<open>__name__\<close> and at least one sample (\<open>batch\<close>) are appended, in their order, wherever invalid ones stand between them, and the
  header counts exactly their points.
\<close>

theorem remote_write_skips_invalid:
  assumes "rq_method rq = ''POST''" and "read_body rq = Some body" and "decode body = Some raw"
    and "unmarshal raw = Some series"
    and "batch = map (\<lambda>ts. (ts_labels ts, ts_samples ts))
      (filter (\<lambda>ts. (\<exists>l \<in> set (ts_labels ts). label_name l = ''__name__'') \<and> ts_samples ts \<noteq> []) series)"
  shows "handleRemoteWrite decode unmarshal s rq =
    (Response 204 [(''X-Marchimetrics-Points-Ingested'', dec_string (\<Sum>(ls, xs)\<leftarrow>batch. length xs))] NoBody,
     foldl (\<lambda>s (ls, xs). snd (Append s ls xs)) s batch)"
proof -
  have "write_batch series = batch"
    unfolding assms(5) write_batch_def by (intro arg_cong[where f = "map _"] filter_cong refl) (simp add: valid_series_def)
  then show ?thesis using assms(1-4)
    by (simp add: handleRemoteWrite_def method_post_def ingest_series_batch batch_points_def append_all_def)
qed

theorem remote_write_skips_invalid_witness:
  "handleRemoteWrite (snappy_decode demo_codecs) (unmarshal_write demo_codecs) (new_storage [''db'']) demo_import =
    (Response 204 [(''X-Marchimetrics-Points-Ingested'', ''2'')] NoBody, demo_filled)"
proof -
  have b: "read_body demo_import = Some ''{}''" by (simp add: read_body_def demo_import_def)
  have m: "rq_method demo_import = ''POST''" by (simp add: demo_import_def)
  have d: "snappy_decode demo_codecs ''{}'' = Some ''{}''" by (simp add: demo_codecs_def)
  have u: "unmarshal_write demo_codecs ''{}'' =
      Some [\<lparr>ts_labels = demo_labels, ts_samples = demo_samples\<rparr>, \<lparr>ts_labels = [], ts_samples = demo_samples\<rparr>]"
    by (simp add: demo_codecs_def)
  have w: "map (\<lambda>ts. (ts_labels ts, ts_samples ts))
      (filter (\<lambda>ts. (\<exists>l \<in> set (ts_labels ts). label_name l = ''__name__'') \<and> ts_samples ts \<noteq> [])
        [\<lparr>ts_labels = demo_labels, ts_samples = demo_samples\<rparr>, \<lparr>ts_labels = [], ts_samples = demo_samples\<rparr>])
      = [(demo_labels, demo_samples)]"
    by (simp add: demo_labels_def demo_samples_def)
  have n: "dec_string (length demo_samples) = ''2''" by code_simp
  show ?thesis
    using remote_write_skips_invalid[where decode = "snappy_decode demo_codecs" and unmarshal = "unmarshal_write demo_codecs"
        and s = "new_storage [''db'']", OF m b d u refl]
    unfolding w by (simp add: n demo_filled_def)
qed

section \<open>Query language and inspection\<close>

text \<open>
  C35: What the selector parser accepts is well-formed: at least one matcher, and the name of each is a
  valid label name. So a query never reaches the registry with an empty matcher list, to which it
  answers nothing, nor with a name that holds the separator of index keys.
\<close>

theorem selector_names_valid:
  assumes "ParseSelector q = Inr ms"
  shows "ms \<noteq> [] \<and> (\<forall>m \<in> set ms. metricNameRE (m_name m))"
  by (rule ParseSelector_names[OF assms])

theorem selector_names_valid_witness:
  "\<exists>ms. ParseSelector ''up{job=`api`}'' = Inr ms \<and> ms \<noteq> [] \<and> (\<forall>m \<in> set ms. metricNameRE (m_name m))"
proof -
  have "ParseSelector ''up{job=`api`}'' = Inr [\<lparr>m_name = MetricNameLabel, m_value = ''up''\<rparr>, \<lparr>m_name = ''job'', m_value = ''api''\<rparr>]"
    by code_simp
  from selector_names_valid[OF this] this show ?thesis by blast
qed

text \<open>
  C36: The loop over indices and flags is equivalent to its specification: its result is the one list of
  parts that gives the text back when joined with commas, such that no part has a comma outside double
  quotes and every part but the last ends outside them.
\<close>

theorem split_is_unique:
  "splitLabelPairs s = ps \<longleftrightarrow>
     ps \<noteq> [] \<and> Join ps '','' = s \<and> (\<forall>p \<in> set ps. no_bare_comma outside p) \<and>
     (\<forall>p \<in> set (butlast ps). foldl scan_char outside p = outside)"
  using splitLabelPairs_iff[of s ps] by (simp only: well_split_def)

theorem split_is_unique_witness:
  "splitLabelPairs [CHR ''a'', CHR ''='', CHR 0x22, CHR '','', CHR 0x22, CHR '','', CHR ''b''] =
     [[CHR ''a'', CHR ''='', CHR 0x22, CHR '','', CHR 0x22], [CHR ''b'']]"
  unfolding split_is_unique by (simp add: scan_char_def)

text \<open>
  C37: The name \<open>mmctl\<close> prints for a series can be pasted into a query if every label name is a valid
  name and there is at most one \<open>__name__\<close>, whose value is a valid metric name (\<open>nameable\<close>; the
  import does not ask for that, and other names are refused, see \<open>unnameable_refused\<close> in \<open>Mmctl\<close>).
  Whatever bytes the other values hold (quotes, commas, backslashes, control characters, invalid UTF-8), the selector parser reads
  back the same labels, and the matchers select exactly the series that carry all of them.
\<close>

theorem printed_labels_are_selectors:
  assumes "nameable ls"
  shows "\<exists>ms. ParseSelector (formatLabels printable ls) = Inr ms \<and>
    (\<forall>ls'. (\<forall>m \<in> set ms. matcher_key m \<in> label_keys ls') \<longleftrightarrow> label_keys ls \<subseteq> label_keys ls')"
  by (rule printed_labels_select[OF assms])

theorem printed_labels_are_selectors_witness:
  "\<exists>ms. ParseSelector (formatLabels (\<lambda>_. True) [Label ''__name__'' ''up'', Label ''job'' [CHR 0x22, CHR '','', CHR 0xFF]]) = Inr ms \<and>
    (\<forall>ls'. (\<forall>m \<in> set ms. matcher_key m \<in> label_keys ls') \<longleftrightarrow>
       label_keys [Label ''__name__'' ''up'', Label ''job'' [CHR 0x22, CHR '','', CHR 0xFF]] \<subseteq> label_keys ls')"
  by (rule printed_labels_are_selectors)
    (simp add: nameable_def metricNameRE_def name_start_def name_char_def MetricNameLabel_def)

text \<open>
  C38: The lines \<open>mmctl\<close> prints hold texts of times: one in the line of a sample, two in the summary of a
  series, two in the header of a part. Each of them is accepted as \<open>start\<close> or \<open>end\<close> of a query and
  denotes the second its instant lies in, for every instant of the years 0 to 9999, before 1970 too.
\<close>

theorem printed_times_are_parameters:
  assumes "samples \<noteq> []" and "\<forall>sm \<in> set samples. plain_ms (Timestamp sm)"
    and "plain_ms (MinTime meta)" and "plain_ms (MaxTime meta)" and "sm \<in> set samples"
  shows "(\<exists>t. sample_line sm = ''  '' @ t @ ''  '' @ FormatFloat (Value sm) @ [CHR 0x0A] \<and>
      parseTimeParam other t = Inr (Timestamp sm - of_int (sint (Timestamp sm) mod 1000))) \<and>
    (\<exists>t1 t2. summary_lines samples =
        ''  first: '' @ t1 @ '' = '' @ FormatFloat (Value (hd samples)) @ [CHR 0x0A] @
        ''  last:  '' @ t2 @ '' = '' @ FormatFloat (Value (last samples)) @ [CHR 0x0A] \<and>
      parseTimeParam other t1 = Inr (Timestamp (hd samples) - of_int (sint (Timestamp (hd samples)) mod 1000)) \<and>
      parseTimeParam other t2 = Inr (Timestamp (last samples) - of_int (sint (Timestamp (last samples)) mod 1000))) \<and>
    (\<exists>t1 t2. inspect_header partDir meta = unlines
        [''part: '' @ partDir,
         ''tier: '' @ Tier meta @ ''  encoding: '' @ (if Encoding meta = [] then ''raw'' else Encoding meta),
         ''time range: '' @ t1 @ '' .. '' @ t2,
         ''series: '' @ itoa (SeriesCount meta) @ ''  samples: '' @ itoa (SamplesCount meta)] \<and>
      parseTimeParam other t1 = Inr (MinTime meta - of_int (sint (MinTime meta) mod 1000)) \<and>
      parseTimeParam other t2 = Inr (MaxTime meta - of_int (sint (MaxTime meta) mod 1000)))"
proof -
  have "plain_ms (Timestamp sm)" using assms(2,5) by blast
  then show ?thesis
    using sample_line_time[of sm other] summary_lines_times[OF assms(1,2), of other]
      header_times[OF assms(3,4), of partDir other]
    by (simp only: reads_as_def simp_thms)
qed

theorem printed_times_are_parameters_witness:
  "\<exists>t. sample_line \<lparr>Timestamp = - 1500, Value = 7\<rparr> = ''  '' @ t @ ''  '' @ FormatFloat 7 @ [CHR 0x0A] \<and>
     parseTimeParam (\<lambda>_. 0) t = Inr (- 2000)"
proof -
  let ?meta = "\<lparr>MinTime = 0, MaxTime = 1, SeriesCount = 1, SamplesCount = 1, Tier = ''small'', Encoding = ''raw''\<rparr> :: PartMeta"
  have "plain_ms (- 1500)" "plain_ms 0" "plain_ms 1" by (simp_all add: plain_ms_def)
  then show ?thesis
    using printed_times_are_parameters[of "[\<lparr>Timestamp = - 1500, Value = 7\<rparr>]" ?meta
        "\<lparr>Timestamp = - 1500, Value = 7\<rparr>" "\<lambda>_. 0" "[]"] by simp
qed

text \<open>
  C39: With anything after the part directory, flags included, \<open>mmctl inspect\<close> exits with 1 and prints
  nothing: the \<open>flag\<close> package stops at the first argument that is no flag, so the directory and what
  follows it count as operands, of which there must be one.
\<close>

theorem flags_after_part_refused:
  assumes "flag_word partDir = NotFlag" and "args \<noteq> []"
  shows "mmctl printable cwd (''inspect'' # partDir # args) w = (1, [], w)"
  by (rule mmctl_late_flags[OF assms])

theorem flags_after_part_refused_witness:
  "mmctl (\<lambda>_. True) [] [''inspect'', ''/tmp/mm-data/partitions/20260924/parts/000001'', ''-samples''] demo_root = (1, [], demo_root)"
  by (rule flags_after_part_refused) (simp_all add: flag_word_def)

definition demo_inspect :: inspect_options where
  "demo_inspect = \<lparr>op_dataPath = ''/nodata'', op_series = 0, op_samples = True, op_limit = 20\<rparr>"

lemma demo_part_frame:
  assumes "\<not> prefix [''d'', ''x''] q"
  shows "lookup (w_fs (snd (writePartEncoded [''d'', ''x''] demo_data tierSmall encodingGorilla demo_world))) q = lookup (w_fs demo_world) q"
proof -
  have "dirs_to (w_fs demo_world) [''d'']" by (auto simp: dirs_to_def demo_world_def lookup_def prefix_Cons)
  then show ?thesis
    using assms confined_writePart[of "[''d'']" "''x''"] by (simp add: confined_def step_confined_def)
qed

lemma demo_registry:
  "\<exists>w1. LoadRegistry [''nodata''] (snd (writePartEncoded [''d'', ''x''] demo_data tierSmall encodingGorilla demo_world)) = (Inr NewRegistry, w1) \<and>
     w_fs w1 = w_fs (snd (writePartEncoded [''d'', ''x''] demo_data tierSmall encodingGorilla demo_world)) \<and>
     env_same (snd (writePartEncoded [''d'', ''x''] demo_data tierSmall encodingGorilla demo_world)) w1"
proof (rule LoadRegistry_missing[OF demo_write_healthy])
  let ?fs = "w_fs (snd (writePartEncoded [''d'', ''x''] demo_data tierSmall encodingGorilla demo_world))"
  have world: "lookup (w_fs demo_world) q = (if q = [] then Some Dir else None)" if "q = [] \<or> hd q = ''nodata''" for q
    using that by (cases q) (simp_all add: demo_world_def lookup_def)
  have none: "lookup ?fs q = (if q = [] then Some Dir else None)" if "q = [] \<or> hd q = ''nodata''" for q
    using demo_part_frame[of q] world[OF that] that by (cases q) auto
  show "lookup ?fs (indexdb_dir [''nodata'']) = None" and "missing_err ?fs (indexdb_dir [''nodata'']) = ErrNotExist"
    and "lookup ?fs ([''nodata''] @ [seriesDir, invertedDir]) = None" and "missing_err ?fs ([''nodata''] @ [seriesDir, invertedDir]) = ErrNotExist"
    by (simp_all add: missing_err_def none)
qed

text \<open>
  C40: \<open>mmctl inspect\<close>, given its options as flags before the directory of a stored part, prints
  the lines of \<open>report_lines\<close> and exits with 0: the four lines of the meta data, then each series the
  part holds (or the one asked for) in ascending order of the IDs, under its labels or its number,
  with its first and last sample or with as many as \<open>-limit\<close> admits. It fails, with 1, only when the
  disk does. Loading the registry removes temporary segments (see the findings); after that
  nothing is written.
\<close>

theorem inspect_prints_part:
  assumes "flag_word partDir = NotFlag" and "LoadRegistry (data_root cwd opt partDir) w = (Inr reg, w1)"
    and "stored_part (w_fs w1) (resolve cwd partDir) meta data"
    and "mmctl printable cwd (''inspect'' # flag_args opt @ [partDir]) w = (code, out, w')"
  shows "w_fs w' = w_fs w1 \<and>
    ((code = 0 \<and> out = unlines (report_lines printable opt partDir (map_of (names reg)) meta (map_of data))) \<or> (code = 1 \<and> out = [] \<and> \<not> healthy w1))"
proof -
  obtain r w2 where run: "inspect_part printable cwd opt partDir w = (r, w2)" by fastforce
  from inspect_part_report[OF assms(2,3) run] show ?thesis
    using assms(4) run by (auto simp: mmctl_inspect[OF assms(1)])
qed

theorem inspect_prints_part_witness:
  "\<exists>meta data. sorted_version demo_data data \<and>
     fst (snd (mmctl (\<lambda>_. True) [] (''inspect'' # flag_args demo_inspect @ [''/d/x''])
       (snd (writePartEncoded [''d'', ''x''] demo_data tierSmall encodingGorilla demo_world)))) =
     unlines (report_lines (\<lambda>_. True) demo_inspect ''/d/x'' Map.empty meta (map_of data))"
proof -
  let ?w = "snd (writePartEncoded [''d'', ''x''] demo_data tierSmall encodingGorilla demo_world)"
  obtain meta where wr: "writePartEncoded [''d'', ''x''] demo_data tierSmall encodingGorilla demo_world = (Inr meta, ?w)"
    using demo_write by (metis sndI)
  have "known_encoding encodingGorilla" by (simp add: known_encoding_def)
  then obtain blocks where sv: "sorted_version demo_data blocks" and st: "stored_part (w_fs ?w) [''d'', ''x''] meta blocks"
    using writePartEncoded_Inr[OF wr _ demo_wf demo_fits] by blast
  have dirs: "data_root [] demo_inspect ''/d/x'' = [''nodata'']" "resolve [] ''/d/x'' = [''d'', ''x'']"
    by code_simp+
  have notflag: "flag_word ''/d/x'' = NotFlag" by (simp add: flag_word_def)
  obtain w1 where reg: "LoadRegistry [''nodata''] ?w = (Inr NewRegistry, w1)"
    and fs: "w_fs w1 = w_fs ?w" and env: "env_same ?w w1"
    using demo_registry by blast
  obtain code out w' where run: "mmctl (\<lambda>_. True) [] (''inspect'' # flag_args demo_inspect @ [''/d/x'']) ?w = (code, out, w')"
    by (metis prod_cases3)
  have "stored_part (w_fs w1) (resolve [] ''/d/x'') meta blocks" using st fs dirs by simp
  moreover have "healthy w1" using demo_write_healthy env by (rule healthy_env)
  ultimately have "out = unlines (report_lines (\<lambda>_. True) demo_inspect ''/d/x'' (map_of (names NewRegistry)) meta (map_of blocks))"
    using inspect_prints_part[OF notflag _ _ run, of NewRegistry w1] reg dirs by auto
  moreover have "map_of (names NewRegistry) = Map.empty" by (simp add: NewRegistry_def)
  ultimately show ?thesis using run sv by (metis fst_conv snd_conv)
qed

end
